(* ===== verification/Prelude.thy ===== *)
theory Prelude
  imports Main "HOL-Library.Word"
begin

text \<open>
  Shared vocabulary of the development: the machine types of \<open>src/types.h\<close>, the outcome of a
  kernel routine and the state-passing combinators the routines are written with, the two
  judgements proofs about routines use (\<open>keeps\<close>: an invariant survives every exit of a routine;
  \<open>ensures\<close>: a routine returns, in a state satisfying the postcondition), and generic facts about
  lists, searches and little-endian integers that several components share.
\<close>

unbundle bit_operations_syntax

section \<open>Machine types\<close>

type_synonym u8 = "8 word"
type_synonym u16 = "16 word"
type_synonym u32 = "32 word"

text \<open>Characters of C string literals as bytes.\<close>

definition byte :: "char \<Rightarrow> u8" where
  "byte c = of_char c"

definition bytes :: "string \<Rightarrow> u8 list" where
  "bytes = map byte"

section \<open>Outcomes of kernel code\<close>

text \<open>
  A kernel routine, run from a state, does one of the following: it returns a value; it calls
  \<open>panic\<close> (the machine freezes, \<open>console.c\<close>); it gives up the processor through \<open>swtch\<close> in
  \<open>sched()\<close> (the state is the one the scheduler resumes from); it spins on a lock that another
  processor holds; or it runs into behaviour C leaves undefined (a null pointer, an index
  outside an array).
\<close>

datatype lockid =
  PtableLock | KmemLock | BcacheLock | LogLock | IcacheLock | FtableLock
  | TicksLock | ConsLock | IdeLock | PipeLock u32

datatype ('a, 's) outcome =
  Ret 'a 's | Panic string | Switch 's | Spin lockid 's | Fault

type_synonym ('s, 'a) op = "'s \<Rightarrow> ('a, 's) outcome"

definition ret :: "'a \<Rightarrow> ('s, 'a) op" where
  "ret x s = Ret x s"

definition bind :: "('s, 'a) op \<Rightarrow> ('a \<Rightarrow> ('s, 'b) op) \<Rightarrow> ('s, 'b) op" where
  "bind m f s =
     (case m s of
        Ret x s' \<Rightarrow> f x s'
      | Panic msg \<Rightarrow> Panic msg
      | Switch s' \<Rightarrow> Switch s'
      | Spin l s' \<Rightarrow> Spin l s'
      | Fault \<Rightarrow> Fault)"

definition seq :: "('s, unit) op \<Rightarrow> ('s, 'b) op \<Rightarrow> ('s, 'b) op" where
  "seq m n = bind m (\<lambda>_. n)"

definition gets :: "('s \<Rightarrow> 'a) \<Rightarrow> ('s, 'a) op" where
  "gets f s = Ret (f s) s"

definition modify :: "('s \<Rightarrow> 's) \<Rightarrow> ('s, unit) op" where
  "modify f s = Ret () (f s)"

definition panic :: "string \<Rightarrow> ('s, 'a) op" where
  "panic msg s = Panic msg"

definition fault :: "('s, 'a) op" where
  "fault s = Fault"

definition whenM :: "bool \<Rightarrow> ('s, unit) op \<Rightarrow> ('s, unit) op" where
  "whenM b m = (if b then m else ret ())"

text \<open>A \<open>for\<close> loop over a list of values known when the loop starts.\<close>

fun forM :: "'a list \<Rightarrow> ('a \<Rightarrow> ('s, unit) op) \<Rightarrow> ('s, unit) op" where
  "forM [] f = ret ()"
| "forM (x # xs) f = seq (f x) (forM xs f)"

fun repeatM :: "nat \<Rightarrow> ('s, 'a) op \<Rightarrow> ('s, 'a list) op" where
  "repeatM 0 m = ret []"
| "repeatM (Suc n) m = bind m (\<lambda>x. bind (repeatM n m) (\<lambda>xs. ret (x # xs)))"

named_theorems run_simps "rewrite rules that execute routines step by step"

lemma ret_run [run_simps]: "ret x s = Ret x s"
  by (simp add: ret_def)

lemma gets_run [run_simps]: "gets f s = Ret (f s) s"
  by (simp add: gets_def)

lemma modify_run [run_simps]: "modify f s = Ret () (f s)"
  by (simp add: modify_def)

lemma panic_run [run_simps]: "panic msg s = Panic msg"
  by (simp add: panic_def)

lemma fault_run [run_simps]: "fault s = Fault"
  by (simp add: fault_def)

lemma whenM_run [run_simps]: "whenM b m s = (if b then m s else Ret () s)"
  by (simp add: whenM_def ret_def)

lemma bind_run [run_simps]:
  "bind m f s =
     (case m s of
        Ret x s' \<Rightarrow> f x s'
      | Panic msg \<Rightarrow> Panic msg
      | Switch s' \<Rightarrow> Switch s'
      | Spin l s' \<Rightarrow> Spin l s'
      | Fault \<Rightarrow> Fault)"
  by (simp add: bind_def)

lemma seq_run [run_simps]:
  "seq m n s =
     (case m s of
        Ret _ s' \<Rightarrow> n s'
      | Panic msg \<Rightarrow> Panic msg
      | Switch s' \<Rightarrow> Switch s'
      | Spin l s' \<Rightarrow> Spin l s'
      | Fault \<Rightarrow> Fault)"
  by (simp add: seq_def bind_def)

lemma bind_eq_Ret: "bind m f s = Ret y t \<longleftrightarrow> (\<exists>x s'. m s = Ret x s' \<and> f x s' = Ret y t)"
  by (simp add: bind_def split: outcome.split)

lemma seq_eq_Ret: "seq m n s = Ret y t \<longleftrightarrow> (\<exists>s'. m s = Ret () s' \<and> n s' = Ret y t)"
  by (simp add: seq_def bind_eq_Ret)

lemma bind_assoc: "bind (bind m f) g = bind m (\<lambda>x. bind (f x) g)"
  by (rule ext) (simp add: bind_def split: outcome.split)

section \<open>The two judgements\<close>

text \<open>
  \<open>keeps I m\<close>: whichever way \<open>m\<close> leaves the processor (returning, switching to the
  scheduler, spinning), the state it leaves satisfies \<open>I\<close> if the state it found did. A panic
  freezes the machine, so nothing is asked of it.
\<close>

definition keeps :: "('s \<Rightarrow> bool) \<Rightarrow> ('s, 'a) op \<Rightarrow> bool" where
  "keeps I m \<longleftrightarrow>
     (\<forall>s. I s \<longrightarrow>
        (case m s of
           Ret _ s' \<Rightarrow> I s' | Panic _ \<Rightarrow> True | Switch s' \<Rightarrow> I s' | Spin _ s' \<Rightarrow> I s' | Fault \<Rightarrow> True))"

definition ensures :: "('s \<Rightarrow> bool) \<Rightarrow> ('s, 'a) op \<Rightarrow> ('a \<Rightarrow> 's \<Rightarrow> bool) \<Rightarrow> bool" where
  "ensures P m Q \<longleftrightarrow> (\<forall>s. P s \<longrightarrow> (\<exists>x s'. m s = Ret x s' \<and> Q x s'))"

named_theorems keeps_intros "composition rules for \<open>keeps\<close>"

lemma keepsI:
  assumes "\<And>s x s'. I s \<Longrightarrow> m s = Ret x s' \<Longrightarrow> I s'"
    and "\<And>s s'. I s \<Longrightarrow> m s = Switch s' \<Longrightarrow> I s'"
    and "\<And>s l s'. I s \<Longrightarrow> m s = Spin l s' \<Longrightarrow> I s'"
  shows "keeps I m"
  unfolding keeps_def
proof (intro allI impI)
  fix s
  assume "I s"
  note exits = assms(1) [OF \<open>I s\<close>] assms(2) [OF \<open>I s\<close>] assms(3) [OF \<open>I s\<close>]
  show "case m s of
    Ret _ s' \<Rightarrow> I s' | Panic _ \<Rightarrow> True | Switch s' \<Rightarrow> I s' | Spin _ s' \<Rightarrow> I s' | Fault \<Rightarrow> True"
    by (cases "m s") (simp_all add: exits)
qed

lemma keeps_exit:
  assumes "keeps I m" and "I s"
  shows "m s = Ret x s' \<Longrightarrow> I s'" and "m s = Switch s' \<Longrightarrow> I s'" and "m s = Spin l s' \<Longrightarrow> I s'"
  using assms(1) [unfolded keeps_def, rule_format, OF assms(2)] by simp_all

lemma keeps_case:
  assumes "keeps I m" and "I s" and "\<And>t. I t \<Longrightarrow> J t"
  shows "case m s of
    Ret _ s' \<Rightarrow> J s' | Panic _ \<Rightarrow> True | Switch s' \<Rightarrow> J s' | Spin _ s' \<Rightarrow> J s' | Fault \<Rightarrow> True"
  using keeps_exit [OF assms(1,2)] assms(3) by (cases "m s") simp_all

lemma keeps_ret [keeps_intros]: "keeps I (ret x)"
  by (simp add: keeps_def ret_def)

lemma keeps_gets [keeps_intros]: "keeps I (gets f)"
  by (simp add: keeps_def gets_def)

lemma keeps_panic [keeps_intros]: "keeps I (panic msg)"
  by (simp add: keeps_def panic_def)

lemma keeps_fault [keeps_intros]: "keeps I fault"
  by (simp add: keeps_def fault_def)

lemma keeps_modify: "(\<And>s. I s \<Longrightarrow> I (f s)) \<Longrightarrow> keeps I (modify f)"
  by (simp add: keeps_def modify_def)

lemma keeps_bind [keeps_intros]:
  assumes "keeps I m" and "\<And>x. keeps I (f x)"
  shows "keeps I (bind m f)"
  unfolding keeps_def
proof (intro allI impI)
  fix s
  assume "I s"
  with assms(1) have "case m s of
    Ret _ s' \<Rightarrow> I s' | Panic _ \<Rightarrow> True | Switch s' \<Rightarrow> I s' | Spin _ s' \<Rightarrow> I s' | Fault \<Rightarrow> True"
    by (simp add: keeps_def)
  then show "case bind m f s of
    Ret _ s' \<Rightarrow> I s' | Panic _ \<Rightarrow> True | Switch s' \<Rightarrow> I s' | Spin _ s' \<Rightarrow> I s' | Fault \<Rightarrow> True"
    using assms(2) by (cases "m s") (simp_all add: bind_def keeps_def)
qed

lemma keeps_seq [keeps_intros]: "keeps I m \<Longrightarrow> keeps I n \<Longrightarrow> keeps I (seq m n)"
  unfolding seq_def by (rule keeps_bind)

lemma keeps_whenM [keeps_intros]: "(b \<Longrightarrow> keeps I m) \<Longrightarrow> keeps I (whenM b m)"
  by (simp add: whenM_def keeps_ret)

lemma keeps_if [keeps_intros]:
  "(b \<Longrightarrow> keeps I m) \<Longrightarrow> (\<not> b \<Longrightarrow> keeps I n) \<Longrightarrow> keeps I (if b then m else n)"
  by simp

lemma keeps_option [keeps_intros]:
  "(x = None \<Longrightarrow> keeps I m) \<Longrightarrow> (\<And>y. x = Some y \<Longrightarrow> keeps I (f y)) \<Longrightarrow>
   keeps I (case x of None \<Rightarrow> m | Some y \<Rightarrow> f y)"
  by (cases x) simp_all

lemma keeps_list [keeps_intros]:
  "(xs = [] \<Longrightarrow> keeps I m) \<Longrightarrow> (\<And>y ys. xs = y # ys \<Longrightarrow> keeps I (f y ys)) \<Longrightarrow>
   keeps I (case xs of [] \<Rightarrow> m | y # ys \<Rightarrow> f y ys)"
  by (cases xs) simp_all

lemma keeps_prod [keeps_intros]:
  "(\<And>y z. x = (y, z) \<Longrightarrow> keeps I (f y z)) \<Longrightarrow> keeps I (case x of (y, z) \<Rightarrow> f y z)"
  by (cases x) simp

lemma keeps_Let [keeps_intros]: "(\<And>x. x = e \<Longrightarrow> keeps I (f x)) \<Longrightarrow> keeps I (let x = e in f x)"
  by simp

lemma forM_append: "forM (xs @ ys) f = seq (forM xs f) (forM ys f)"
proof (induction xs)
  case (Cons x xs)
  then show ?case
    by (simp add: fun_eq_iff seq_run split: outcome.split)
qed (simp add: fun_eq_iff run_simps)

lemma keeps_forM [keeps_intros]: "(\<And>x. x \<in> set xs \<Longrightarrow> keeps I (f x)) \<Longrightarrow> keeps I (forM xs f)"
  by (induction xs) (auto intro: keeps_ret keeps_seq)

lemma ensuresD: "ensures P m Q \<Longrightarrow> P s \<Longrightarrow> \<exists>x s'. m s = Ret x s' \<and> Q x s'"
  by (simp add: ensures_def)

lemma ensures_bind:
  assumes "ensures P m R" and "\<And>x. ensures (R x) (f x) Q"
  shows "ensures P (bind m f) Q"
  unfolding ensures_def
proof (intro allI impI)
  fix s
  assume "P s"
  with assms(1) obtain x s' where "m s = Ret x s'" and "R x s'"
    by (auto simp: ensures_def)
  with assms(2) show "\<exists>y t. bind m f s = Ret y t \<and> Q y t"
    by (auto simp: ensures_def bind_def)
qed

section \<open>Searching an array from the front\<close>

text \<open>
  The kernel's tables are arrays scanned by a \<open>for\<close> loop that stops at the first entry with a
  property; \<open>findi\<close> is that scan.
\<close>

fun findi :: "('a \<Rightarrow> bool) \<Rightarrow> 'a list \<Rightarrow> nat option" where
  "findi p [] = None"
| "findi p (x # xs) = (if p x then Some 0 else map_option Suc (findi p xs))"

lemma findi_None: "findi p xs = None \<longleftrightarrow> (\<forall>x \<in> set xs. \<not> p x)"
  by (induction xs) auto

lemma findi_Some:
  "findi p xs = Some i \<longleftrightarrow> i < length xs \<and> p (xs ! i) \<and> (\<forall>j < i. \<not> p (xs ! j))"
proof (induction xs arbitrary: i)
  case Nil
  then show ?case by simp
next
  case (Cons x xs)
  show ?case
    by (cases i) (auto simp: Cons.IH less_Suc_eq_0_disj)
qed

lemma findi_SomeD:
  assumes "findi p xs = Some i"
  shows "i < length xs" and "p (xs ! i)"
  using assms by (auto simp: findi_Some)

section \<open>Lists\<close>

lemma map_update_id:
  "i < length xs \<Longrightarrow> f y = f (xs ! i) \<Longrightarrow> map f (xs[i := y]) = map f xs"
  by (simp add: map_update) (metis list_update_id map_update nth_map)

lemma nth_update_at: "a < length xs \<Longrightarrow> xs[i := x] ! a = (if i = a then x else xs ! a)"
  by simp

lemma set_update_subset: "set (xs[i := y]) \<subseteq> insert y (set xs)"
  by (rule set_update_subset_insert)

section \<open>Words\<close>

lemma unat32_less: "unat (x :: u32) < 4294967296"
  using unsigned_less [of x, where ?'a = nat] by simp

lemma div_eq_bounds:
  fixes n c k :: nat
  assumes "0 < c"
  shows "n div c = k \<longleftrightarrow> c * k \<le> n \<and> n < c * k + c"
proof
  assume "n div c = k"
  then show "c * k \<le> n \<and> n < c * k + c"
    using assms dividend_less_times_div [OF assms, of n] by auto
next
  assume "c * k \<le> n \<and> n < c * k + c"
  then show "n div c = k"
    by (intro div_nat_eqI) (simp_all add: ac_simps)
qed

section \<open>Little-endian integers\<close>

text \<open>The x86 keeps the low-order byte of a \<open>ushort\<close> or \<open>uint\<close> at the lowest address.\<close>

definition le16 :: "u16 \<Rightarrow> u8 list" where
  "le16 v = [ucast v, ucast (drop_bit 8 v)]"

definition le32 :: "u32 \<Rightarrow> u8 list" where
  "le32 v = [ucast v, ucast (drop_bit 8 v), ucast (drop_bit 16 v), ucast (drop_bit 24 v)]"

definition get16 :: "u8 list \<Rightarrow> nat \<Rightarrow> u16" where
  "get16 bs i = ucast (bs ! i) OR push_bit 8 (ucast (bs ! (i + 1)))"

definition get32 :: "u8 list \<Rightarrow> nat \<Rightarrow> u32" where
  "get32 bs i =
     ucast (bs ! i) OR push_bit 8 (ucast (bs ! (i + 1))) OR
     push_bit 16 (ucast (bs ! (i + 2))) OR push_bit 24 (ucast (bs ! (i + 3)))"

text \<open>\<open>overlay bs i xs\<close> overwrites \<open>bs\<close> from index \<open>i\<close> with \<open>xs\<close>.\<close>

definition overlay :: "'a list \<Rightarrow> nat \<Rightarrow> 'a list \<Rightarrow> 'a list" where
  "overlay bs i xs = take i bs @ xs @ drop (i + length xs) bs"

lemma length_le16 [simp]: "length (le16 v) = 2"
  by (simp add: le16_def)

lemma length_le32 [simp]: "length (le32 v) = 4"
  by (simp add: le32_def)

lemma length_overlay [simp]: "i + length xs \<le> length bs \<Longrightarrow> length (overlay bs i xs) = length bs"
  by (simp add: overlay_def)

lemma nth_overlay:
  assumes "i + length xs \<le> length bs" and "j < length bs"
  shows "overlay bs i xs ! j = (if i \<le> j \<and> j < i + length xs then xs ! (j - i) else bs ! j)"
  using assms by (auto simp: overlay_def nth_append min_def)

lemma bit_ucast_byte32: "bit (ucast (x :: u8) :: u32) n \<longleftrightarrow> n < 8 \<and> bit x n"
  by (auto simp: bit_ucast_iff dest: bit_imp_le_length)

lemma get32_le32: "get32 (xs @ le32 v @ ys) (length xs) = v"
proof (rule bit_word_eqI)
  fix n
  assume "n < LENGTH(32)"
  then consider "n < 8" | "8 \<le> n" "n < 16" | "16 \<le> n" "n < 24" | "24 \<le> n" "n < 32"
    by fastforce
  then show "bit (get32 (xs @ le32 v @ ys) (length xs)) n \<longleftrightarrow> bit v n"
    by cases (auto simp: get32_def le32_def nth_append bit_or_iff bit_push_bit_iff
        bit_ucast_byte32 bit_ucast_iff bit_drop_bit_eq)
qed

lemma get16_le16: "get16 (xs @ le16 v @ ys) (length xs) = v"
proof (rule bit_word_eqI)
  fix n
  assume "n < LENGTH(16)"
  then consider "n < 8" | "8 \<le> n" "n < 16"
    by fastforce
  then show "bit (get16 (xs @ le16 v @ ys) (length xs)) n \<longleftrightarrow> bit v n"
    by cases (auto simp: get16_def le16_def nth_append bit_or_iff bit_push_bit_iff
        bit_ucast_iff bit_drop_bit_eq)
qed

text \<open>Words stored in a byte list.\<close>

lemma get32_overlay: "i + 4 \<le> length bs \<Longrightarrow> get32 (overlay bs i (le32 v)) i = v"
  using get32_le32 [of "take i bs" v "drop (i + 4) bs"] by (simp add: overlay_def min_def)

lemma get32_overlay_other:
  "i + length xs \<le> length bs \<Longrightarrow> j + 4 \<le> length bs \<Longrightarrow> j + 4 \<le> i \<or> i + length xs \<le> j \<Longrightarrow>
    get32 (overlay bs i xs) j = get32 bs j"
  by (auto simp: get32_def nth_overlay)

lemma get16_overlay: "i + 2 \<le> length bs \<Longrightarrow> get16 (overlay bs i (le16 v)) i = v"
  using get16_le16 [of "take i bs" v "drop (i + 2) bs"] by (simp add: overlay_def min_def)

lemma get16_overlay_other:
  "i + length xs \<le> length bs \<Longrightarrow> j + 2 \<le> length bs \<Longrightarrow> j + 2 \<le> i \<or> i + length xs \<le> j \<Longrightarrow>
    get16 (overlay bs i xs) j = get16 bs j"
  by (auto simp: get16_def nth_overlay)

end
