(* ===== verification/Params.thy ===== *)
theory Params
  imports Prelude
begin

text \<open>
  The constants and address arithmetic of \<open>src/param.h\<close>, \<open>src/fs.h\<close>, \<open>src/memlayout.h\<close> and
  \<open>src/mmu.h\<close>. Array sizes are natural numbers; addresses, sizes and page-table entries are
  32-bit words, so that the macros wrap exactly as the C ones do.
\<close>

section \<open>Sizes (param.h)\<close>

definition NPROC :: nat where [simp]: "NPROC = 64"
definition KSTACKSIZE :: u32 where [simp]: "KSTACKSIZE = 4096"
definition NCPU :: nat where [simp]: "NCPU = 8"
definition NOFILE :: nat where [simp]: "NOFILE = 16"
definition NFILE :: nat where [simp]: "NFILE = 100"
definition NINODE :: nat where [simp]: "NINODE = 50"
definition NDEV :: nat where [simp]: "NDEV = 10"
definition ROOTDEV :: u32 where [simp]: "ROOTDEV = 1"
definition MAXARG :: nat where [simp]: "MAXARG = 32"
definition MAXOPBLOCKS :: nat where [simp]: "MAXOPBLOCKS = 10"
definition LOGSIZE :: nat where [simp]: "LOGSIZE = MAXOPBLOCKS * 3"
definition NBUF :: nat where [simp]: "NBUF = MAXOPBLOCKS * 3"
definition FSSIZE :: nat where [simp]: "FSSIZE = 1000"

section \<open>Disk layout (fs.h)\<close>

definition ROOTINO :: u32 where [simp]: "ROOTINO = 1"
definition BSIZE :: nat where [simp]: "BSIZE = 512"
definition NDIRECT :: nat where [simp]: "NDIRECT = 12"
definition NINDIRECT :: nat where [simp]: "NINDIRECT = BSIZE div 4"
definition MAXFILE :: nat where [simp]: "MAXFILE = NDIRECT + NINDIRECT"
definition DINODE_SIZE :: nat where [simp]: "DINODE_SIZE = 64"
definition IPB :: nat where [simp]: "IPB = BSIZE div DINODE_SIZE"
definition BPB :: nat where [simp]: "BPB = BSIZE * 8"
definition DIRSIZ :: nat where [simp]: "DIRSIZ = 14"
definition DIRENT_SIZE :: nat where [simp]: "DIRENT_SIZE = 2 + DIRSIZ"

record superblock =
  sb_size :: u32
  sb_nblocks :: u32
  sb_ninodes :: u32
  sb_nlog :: u32
  sb_logstart :: u32
  sb_inodestart :: u32
  sb_bmapstart :: u32

definition IBLOCK :: "u32 \<Rightarrow> superblock \<Rightarrow> u32" where
  "IBLOCK i sb = i div of_nat IPB + sb_inodestart sb"

definition BBLOCK :: "u32 \<Rightarrow> superblock \<Rightarrow> u32" where
  "BBLOCK b sb = b div of_nat BPB + sb_bmapstart sb"

text \<open>Inode types, \<open>stat.h\<close>.\<close>

definition T_DIR :: u16 where [simp]: "T_DIR = 1"
definition T_FILE :: u16 where [simp]: "T_FILE = 2"
definition T_DEV :: u16 where [simp]: "T_DEV = 3"

section \<open>Memory layout (memlayout.h)\<close>

definition EXTMEM :: u32 where [simp]: "EXTMEM = 0x100000"
definition PHYSTOP :: u32 where [simp]: "PHYSTOP = 0xE000000"
definition DEVSPACE :: u32 where [simp]: "DEVSPACE = 0xFE000000"
definition KERNBASE :: u32 where [simp]: "KERNBASE = 0x80000000"
definition KERNLINK :: u32 where [simp]: "KERNLINK = KERNBASE + EXTMEM"

definition v2p :: "u32 \<Rightarrow> u32" where
  "v2p a = a - KERNBASE"

definition p2v :: "u32 \<Rightarrow> u32" where
  "p2v a = a + KERNBASE"

lemma v2p_p2v [simp]: "v2p (p2v a) = a"
  by (simp add: v2p_def p2v_def)

lemma p2v_v2p [simp]: "p2v (v2p a) = a"
  by (simp add: v2p_def p2v_def)

section \<open>Paging arithmetic (mmu.h)\<close>

definition PGSIZE :: u32 where [simp]: "PGSIZE = 4096"
definition NPDENTRIES :: nat where [simp]: "NPDENTRIES = 1024"
definition NPTENTRIES :: nat where [simp]: "NPTENTRIES = 1024"

definition PTE_P :: u32 where [simp]: "PTE_P = 0x001"
definition PTE_W :: u32 where [simp]: "PTE_W = 0x002"
definition PTE_U :: u32 where [simp]: "PTE_U = 0x004"
definition PTE_PS :: u32 where [simp]: "PTE_PS = 0x080"

definition PDX :: "u32 \<Rightarrow> u32" where
  "PDX va = drop_bit 22 va AND 0x3FF"

definition PTX :: "u32 \<Rightarrow> u32" where
  "PTX va = drop_bit 12 va AND 0x3FF"

definition PGADDR :: "u32 \<Rightarrow> u32 \<Rightarrow> u32 \<Rightarrow> u32" where
  "PGADDR d t off = push_bit 22 d OR push_bit 12 t OR off"

definition PGROUNDUP :: "u32 \<Rightarrow> u32" where
  "PGROUNDUP sz = (sz + PGSIZE - 1) AND NOT (PGSIZE - 1)"

definition PGROUNDDOWN :: "u32 \<Rightarrow> u32" where
  "PGROUNDDOWN a = a AND NOT (PGSIZE - 1)"

definition PTE_ADDR :: "u32 \<Rightarrow> u32" where
  "PTE_ADDR pte = pte AND NOT 0xFFF"

definition PTE_FLAGS :: "u32 \<Rightarrow> u32" where
  "PTE_FLAGS pte = pte AND 0xFFF"

text \<open>
  Masking with a power of two is a remainder; the bit operations above are arithmetic on the
  unsigned value.
\<close>

lemma and_4095: "(a :: u32) AND 4095 = a mod 4096"
  using take_bit_eq_mask [of 12 a] by (simp add: mask_eq_exp_minus_1 take_bit_eq_mod)

lemma and_minus_4096: "(a :: u32) AND - 4096 = a - a mod 4096"
proof -
  have "a - (a AND 4095) = a AND NOT (a AND 4095)"
    by (rule disjunctive_diff_eq_and_not) (simp add: bit_eq_iff bit_simps)
  also have "\<dots> = a AND NOT 4095"
    by (rule bit_word_eqI) (auto simp: bit_simps)
  finally show ?thesis
    by (simp add: and_4095)
qed

lemma unat_PGROUNDDOWN: "unat (PGROUNDDOWN a) = unat a div 4096 * 4096"
proof -
  have "a mod 4096 \<le> a"
    by (simp add: word_le_nat_alt unat_mod)
  then have "unat (a - a mod 4096) = unat a - unat a mod 4096"
    by (simp add: unat_sub unat_mod)
  also have "\<dots> = unat a div 4096 * 4096"
    by (rule minus_mod_eq_div_mult)
  finally show ?thesis
    by (simp add: PGROUNDDOWN_def and_minus_4096)
qed

lemma unat_PGROUNDUP:
  assumes "unat a \<le> 2 ^ 32 - 4096"
  shows "unat (PGROUNDUP a) = (unat a + 4095) div 4096 * 4096"
proof -
  have "unat (a + 4095) = unat a + 4095"
    using assms by (simp add: unat_word_ariths)
  moreover have "PGROUNDUP a = PGROUNDDOWN (a + 4095)"
    by (simp add: PGROUNDUP_def PGROUNDDOWN_def add_diff_eq [symmetric])
  ultimately show ?thesis
    by (simp add: unat_PGROUNDDOWN)
qed

lemma and_1023: "(a :: u32) AND 1023 = a mod 1024"
  using take_bit_eq_mask [of 10 a] by (simp add: mask_eq_exp_minus_1 take_bit_eq_mod)

lemma unat_PDX: "unat (PDX va) = unat va div 4194304"
proof -
  have "unat va div 4194304 < 1024"
    using unat32_less [of va] by (simp add: less_mult_imp_div_less)
  then show ?thesis
    by (simp add: PDX_def and_1023 drop_bit_eq_div unat_div unat_mod)
qed

lemma unat_PTX: "unat (PTX va) = unat va div 4096 mod 1024"
  by (simp add: PTX_def and_1023 drop_bit_eq_div unat_div unat_mod)

end
