(* ===== verification/Memory.thy ===== *)
theory Memory
  imports Params
begin

text \<open>
  Kernel memory as a byte array indexed by 32-bit addresses, with the aligned 32-bit loads and
  stores the free list and the page tables are made of, and the routines of \<open>src/string.c\<close>. The
  block operations \<open>memset\<close>, \<open>memmove\<close> and \<open>memcpy\<close> work on memory, so that overlapping and
  wrapping ranges behave as in C; the string operations take the bytes found at their pointer
  arguments as lists (\<open>cidx\<close> reads one; past the end of the list stands the terminating NUL).
\<close>

type_synonym memory = "u32 \<Rightarrow> u8"

section \<open>Aligned words\<close>

definition load32 :: "memory \<Rightarrow> u32 \<Rightarrow> u32" where
  "load32 m a = get32 [m a, m (a + 1), m (a + 2), m (a + 3)] 0"

definition store32 :: "memory \<Rightarrow> u32 \<Rightarrow> u32 \<Rightarrow> memory" where
  "store32 m a v =
     m(a := ucast v, a + 1 := ucast (drop_bit 8 v), a + 2 := ucast (drop_bit 16 v),
       a + 3 := ucast (drop_bit 24 v))"

lemma load32_store32_same [simp]: "load32 (store32 m a v) a = v"
  using get32_le32 [of "[]" v "[]"] by (simp add: load32_def store32_def le32_def)

lemma aligned_add_div:
  fixes a :: u32
  assumes "a mod 4 = 0" and "i < 4"
  shows "unat (a + i) div 4 = unat a div 4"
proof -
  obtain k where k: "unat a = 4 * k"
    using assms(1) unat_mod [of a 4] by (auto simp: mod_eq_0_iff_dvd elim: dvdE)
  have i: "unat i < 4"
    using assms(2) by (simp add: word_less_nat_alt)
  have "k < 1073741824"
    using k unat32_less [of a] by simp
  then have "unat a + unat i < 4294967296"
    using k i by linarith
  then have "unat (a + i) = unat a + unat i"
    by (simp add: unat_word_ariths)
  with k i show ?thesis
    by simp
qed

lemma aligned_disjoint:
  fixes a b :: u32
  assumes "a mod 4 = 0" and "b mod 4 = 0" and "a \<noteq> b" and "i < 4" and "j < 4"
  shows "a + i \<noteq> b + j"
proof
  assume "a + i = b + j"
  then have "unat a div 4 = unat b div 4"
    using aligned_add_div [OF assms(1,4)] aligned_add_div [OF assms(2,5)] by simp
  moreover have "unat a mod 4 = 0" "unat b mod 4 = 0"
    using assms(1,2) unat_mod [of a 4] unat_mod [of b 4] by simp_all
  ultimately have "unat a = unat b"
    by (metis div_mult_mod_eq)
  with assms(3) show False by (simp add: word_unat_eq_iff)
qed

lemma load32_store32_other:
  assumes "a mod 4 = 0" and "b mod 4 = 0" and "a \<noteq> b"
  shows "load32 (store32 m a v) b = load32 m b"
proof -
  have ne: "b + j \<noteq> a + i" if "i < 4" "j < 4" for i j :: u32
    using aligned_disjoint [of b a j i] assms that by simp
  show ?thesis
    using ne [of 0 0] ne [of 1 0] ne [of 2 0] ne [of 3 0]
      ne [of 0 1] ne [of 1 1] ne [of 2 1] ne [of 3 1]
      ne [of 0 2] ne [of 1 2] ne [of 2 2] ne [of 3 2]
      ne [of 0 3] ne [of 1 3] ne [of 2 3] ne [of 3 3]
    by (simp add: load32_def store32_def)
qed

lemma load32_cong:
  "m a = m' a \<Longrightarrow> m (a + 1) = m' (a + 1) \<Longrightarrow> m (a + 2) = m' (a + 2) \<Longrightarrow> m (a + 3) = m' (a + 3) \<Longrightarrow>
   load32 m a = load32 m' a"
  by (simp add: load32_def)

section \<open>Block operations of string.c\<close>

text \<open>\<open>rep stosb\<close> and \<open>rep stosl\<close> (\<open>x86.h\<close>): store a byte, or a word, \<open>cnt\<close> times.\<close>

fun stosb :: "u32 \<Rightarrow> u8 \<Rightarrow> nat \<Rightarrow> memory \<Rightarrow> memory" where
  "stosb addr v 0 m = m"
| "stosb addr v (Suc cnt) m = stosb (addr + 1) v cnt (m(addr := v))"

fun stosl :: "u32 \<Rightarrow> u32 \<Rightarrow> nat \<Rightarrow> memory \<Rightarrow> memory" where
  "stosl addr v 0 m = m"
| "stosl addr v (Suc cnt) m = stosl (addr + 4) v cnt (store32 m addr v)"

definition memset :: "u32 \<Rightarrow> u32 \<Rightarrow> u32 \<Rightarrow> memory \<Rightarrow> memory" where
  "memset dst c n m =
     (if dst mod 4 = 0 \<and> n mod 4 = 0
      then (let c' = c AND 0xFF
            in stosl dst (push_bit 24 c' OR push_bit 16 c' OR push_bit 8 c' OR c') (unat (n div 4)) m)
      else stosb dst (ucast c) (unat n) m)"

fun copy_up :: "nat \<Rightarrow> u32 \<Rightarrow> u32 \<Rightarrow> memory \<Rightarrow> memory" where
  "copy_up 0 d s m = m"
| "copy_up (Suc n) d s m = copy_up n (d + 1) (s + 1) (m(d := m s))"

fun copy_down :: "nat \<Rightarrow> u32 \<Rightarrow> u32 \<Rightarrow> memory \<Rightarrow> memory" where
  "copy_down 0 d s m = m"
| "copy_down (Suc n) d s m = copy_down n (d - 1) (s - 1) (m(d - 1 := m (s - 1)))"

definition memmove :: "u32 \<Rightarrow> u32 \<Rightarrow> u32 \<Rightarrow> memory \<Rightarrow> memory" where
  "memmove dst src n m =
     (if src < dst \<and> src + n > dst
      then copy_down (unat n) (dst + n) (src + n) m
      else copy_up (unat n) dst src m)"

definition memcpy :: "u32 \<Rightarrow> u32 \<Rightarrow> u32 \<Rightarrow> memory \<Rightarrow> memory" where
  "memcpy dst src n = memmove dst src n"

section \<open>String operations of string.c\<close>

definition cidx :: "u8 list \<Rightarrow> nat \<Rightarrow> u8" where
  "cidx xs i = (if i < length xs then xs ! i else 0)"

fun memcmp :: "u8 list \<Rightarrow> u8 list \<Rightarrow> nat \<Rightarrow> int" where
  "memcmp s1 s2 0 = 0"
| "memcmp s1 s2 (Suc n) =
     (if cidx s1 0 \<noteq> cidx s2 0 then uint (cidx s1 0) - uint (cidx s2 0)
      else memcmp (tl s1) (tl s2) n)"

fun strncmp :: "u8 list \<Rightarrow> u8 list \<Rightarrow> nat \<Rightarrow> int" where
  "strncmp p q 0 = 0"
| "strncmp p q (Suc n) =
     (if cidx p 0 \<noteq> 0 \<and> cidx p 0 = cidx q 0 then strncmp (tl p) (tl q) n
      else uint (cidx p 0) - uint (cidx q 0))"

text \<open>\<open>strncpy\<close> and \<open>safestrcpy\<close> return the bytes they write, from \<open>s\<close> on.\<close>

fun strncpy :: "u8 list \<Rightarrow> nat \<Rightarrow> u8 list" where
  "strncpy t 0 = []"
| "strncpy t (Suc n) =
     (if cidx t 0 \<noteq> 0 then cidx t 0 # strncpy (tl t) n else replicate (Suc n) 0)"

fun safestrcpy_loop :: "u8 list \<Rightarrow> nat \<Rightarrow> u8 list" where
  "safestrcpy_loop t 0 = [0]"
| "safestrcpy_loop t (Suc n) =
     (if cidx t 0 \<noteq> 0 then cidx t 0 # safestrcpy_loop (tl t) n else [0, 0])"

definition safestrcpy :: "u8 list \<Rightarrow> int \<Rightarrow> u8 list" where
  "safestrcpy t n = (if n \<le> 0 then [] else safestrcpy_loop t (nat (n - 1)))"

fun strlen :: "u8 list \<Rightarrow> nat" where
  "strlen [] = 0"
| "strlen (c # s) = (if c = 0 then 0 else Suc (strlen s))"

section \<open>What the block operations compute\<close>

lemma unat_pred: "(y :: u32) \<noteq> 0 \<Longrightarrow> unat (y - 1) = unat y - 1"
  by (simp add: unat_minus_one)

lemma unat_minus_one_word: "unat (- 1 :: u32) = 4294967295"
  by (simp add: unsigned_minus_1_eq_mask mask_eq_exp_minus_1)

lemma unat_succ_word: "(n :: u32) \<noteq> - 1 \<Longrightarrow> unat (n + 1) = unat n + 1"
proof -
  assume "n \<noteq> - 1"
  then have "unat n \<noteq> 4294967295"
    using unat_minus_one_word by (metis word_unat_eq_iff)
  then have "unat n + 1 < 4294967296"
    using unat32_less [of n] by linarith
  then show ?thesis
    by (simp add: unat_word_ariths)
qed

lemma stosb_spec: "stosb a v n m x = (if unat (x - a) < n then v else m x)"
proof (induction n arbitrary: a m)
  case 0
  then show ?case by simp
next
  case (Suc n)
  have "unat (x - (a + 1)) = unat (x - a) - 1" and "0 < unat (x - a)" if "x \<noteq> a"
    using that unat_pred [of "x - a"] by (simp_all add: diff_diff_eq unat_gt_0)
  then show ?case
    by (auto simp: Suc.IH)
qed

lemma bytes_repeated:
  fixes b :: u32
  assumes low: "\<And>n. bit b n \<Longrightarrow> n < 8"
  defines "w \<equiv> push_bit 24 b OR push_bit 16 b OR push_bit 8 b OR b"
  shows "(ucast w :: u8) = ucast b" and "(ucast (drop_bit 8 w) :: u8) = ucast b"
    and "(ucast (drop_bit 16 w) :: u8) = ucast b" and "(ucast (drop_bit 24 w) :: u8) = ucast b"
  by (rule bit_word_eqI; auto simp: bit_ucast_iff bit_drop_bit_eq w_def bit_or_iff
        bit_push_bit_iff dest: low)+

lemma low_byte:
  fixes c :: u32
  shows "bit (c AND 0xFF) n \<Longrightarrow> n < 8" and "(ucast (c AND 0xFF) :: u8) = ucast c"
proof -
  have e: "c AND 0xFF = take_bit 8 c"
    by (simp add: take_bit_eq_mask mask_eq_exp_minus_1)
  show "bit (c AND 0xFF) n \<Longrightarrow> n < 8"
    unfolding e by (simp add: bit_take_bit_iff)
  show "(ucast (c AND 0xFF) :: u8) = ucast c"
    unfolding e by (rule bit_word_eqI) (simp add: bit_ucast_iff bit_take_bit_iff)
qed

lemma store32_bytes:
  assumes "ucast w = v" and "ucast (drop_bit 8 w) = v" and "ucast (drop_bit 16 w) = v"
    and "ucast (drop_bit 24 w) = (v :: u8)"
  shows "store32 m a w x = (if unat (x - a) < 4 then v else m x)"
proof -
  have "unat y < 4 \<longleftrightarrow> y \<in> {0, 1, 2, 3}" for y :: u32
  proof
    assume "unat y < 4"
    then consider "unat y = 0" | "unat y = 1" | "unat y = 2" | "unat y = 3"
      by linarith
    then have "of_nat (unat y) \<in> {0, 1, 2, 3 :: u32}"
      by cases simp_all
    then show "y \<in> {0, 1, 2, 3}" by simp
  qed auto
  then have "unat (x - a) < 4 \<longleftrightarrow> x - a \<in> {0, 1, 2, 3}" .
  also have "\<dots> \<longleftrightarrow> x \<in> {a, a + 1, a + 2, a + 3}"
    by (simp add: diff_eq_eq add.commute)
  finally show ?thesis
    using assms by (auto simp: store32_def)
qed

lemma stosl_bytes:
  assumes "ucast w = v" and "ucast (drop_bit 8 w) = v" and "ucast (drop_bit 16 w) = v"
    and "ucast (drop_bit 24 w) = (v :: u8)"
  shows "stosl a w n m x = (if unat (x - a) < 4 * n then v else m x)"
proof (induction n arbitrary: a m)
  case 0
  then show ?case by simp
next
  case (Suc n)
  have "unat (x - (a + 4)) = unat (x - a) - 4" if "\<not> unat (x - a) < 4"
  proof -
    have "x - (a + 4) = (x - a) - 4"
      by (simp add: diff_diff_eq)
    then show ?thesis
      using that unat_sub [of 4 "x - a"] by (simp only:) (simp add: word_le_nat_alt)
  qed
  then show ?case
    by (auto simp: Suc.IH store32_bytes [OF assms])
qed

text \<open>\<open>memset\<close> fills exactly the \<open>n\<close> bytes from \<open>dst\<close>, whichever of its two paths it takes.\<close>

lemma memset_spec: "memset dst c n m x = (if x - dst < n then ucast c else m x)"
proof (cases "dst mod 4 = 0 \<and> n mod 4 = 0")
  case True
  let ?b = "c AND 0xFF"
  note rep = bytes_repeated [of ?b, OF low_byte(1) [of c]]
  have "unat n mod 4 = 0"
    using True unat_mod [of n 4] by simp
  then have "4 * unat (n div 4) = unat n"
    by (simp add: unat_div mod_0_imp_dvd)
  then show ?thesis
    using True stosl_bytes [OF rep, where a = dst and n = "unat (n div 4)" and m = m and x = x]
    by (simp only: memset_def Let_def simp_thms if_True low_byte(2) word_less_nat_alt)
next
  case False
  then show ?thesis
    by (simp only: memset_def if_False stosb_spec word_less_nat_alt)
qed

lemma copy_up_spec:
  assumes "n \<le> 4294967296"
    and "\<And>i j. i < j \<Longrightarrow> j < n \<Longrightarrow> d + of_nat i \<noteq> s + of_nat j"
  shows "copy_up n d s m x = (if unat (x - d) < n then m (s + (x - d)) else m x)"
  using assms
proof (induction n arbitrary: d s m)
  case 0
  then show ?case by simp
next
  case (Suc n)
  have IH: "copy_up n (d + 1) (s + 1) m' x =
      (if unat (x - (d + 1)) < n then m' (s + 1 + (x - (d + 1))) else m' x)" for m'
  proof (rule Suc.IH)
    show "n \<le> 4294967296"
      using Suc.prems(1) by simp
    show "d + 1 + of_nat i \<noteq> s + 1 + of_nat j" if "i < j" "j < n" for i j
      using Suc.prems(2) [of "Suc i" "Suc j"] that by (simp add: ac_simps)
  qed
  show ?case
  proof (cases "x = d")
    case True
    with Suc.prems(1) unat_minus_one_word show ?thesis
      unfolding copy_up.simps IH by simp
  next
    case False
    have pred: "unat (x - (d + 1)) = unat (x - d) - 1" and pos: "0 < unat (x - d)"
      using False unat_pred [of "x - d"] by (simp_all add: diff_diff_eq unat_gt_0)
    have "s + (x - d) \<noteq> d" if "unat (x - d) < Suc n"
      using Suc.prems(2) [of 0 "unat (x - d)"] pos that by auto
    with False pred pos show ?thesis
      by (auto simp: IH)
  qed
qed

lemma copy_down_spec:
  assumes "n \<le> 4294967296"
    and "\<And>i j. i < j \<Longrightarrow> j < n \<Longrightarrow> d - 1 - of_nat i \<noteq> s - 1 - of_nat j"
  shows "copy_down n d s m x = (if unat (d - 1 - x) < n then m (s - (d - x)) else m x)"
  using assms
proof (induction n arbitrary: d s m)
  case 0
  then show ?case by simp
next
  case (Suc n)
  have IH: "copy_down n (d - 1) (s - 1) m' x =
      (if unat (d - 1 - 1 - x) < n then m' (s - 1 - (d - 1 - x)) else m' x)" for m'
  proof (rule Suc.IH)
    show "n \<le> 4294967296"
      using Suc.prems(1) by simp
    show "d - 1 - 1 - of_nat i \<noteq> s - 1 - 1 - of_nat j" if "i < j" "j < n" for i j
      using Suc.prems(2) [of "Suc i" "Suc j"] that by (simp add: algebra_simps)
  qed
  show ?case
  proof (cases "x = d - 1")
    case True
    with Suc.prems(1) unat_minus_one_word show ?thesis
      unfolding copy_down.simps IH by simp
  next
    case False
    have e: "d - 1 - 1 - x = (d - 1 - x) - 1"
      by simp
    have pred: "unat (d - 1 - 1 - x) = unat (d - 1 - x) - 1" and pos: "0 < unat (d - 1 - x)"
      using False unat_pred [of "d - 1 - x"] unfolding e by (auto simp: unat_gt_0)
    have "s - (d - x) \<noteq> d - 1" if "unat (d - 1 - x) < Suc n"
    proof -
      have "d - 1 \<noteq> s - 1 - (d - 1 - x)"
        using Suc.prems(2) [of 0 "unat (d - 1 - x)"] pos that by simp
      then show ?thesis by (simp add: algebra_simps)
    qed
    moreover have src: "s - 1 - (d - 1 - x) = s - (d - x)"
      by simp
    ultimately show ?thesis
      using False pred pos unfolding copy_down.simps IH src by auto
  qed
qed

lemma range_from_top:
  fixes n y :: u32
  assumes "n \<noteq> 0"
  shows "unat (n - 1 - y) < unat n \<longleftrightarrow> y < n"
proof -
  have p: "unat (n - 1) = unat n - 1" and n0: "0 < unat n"
    using assms by (simp_all add: unat_pred unat_gt_0)
  have "unat (n - 1 - y) =
      (if unat y \<le> unat n - 1 then unat n - 1 - unat y else unat n - 1 + 4294967296 - unat y)"
    using unat_sub_if' [of "n - 1" y] p by (simp only:) simp
  with n0 unat32_less [of y] show ?thesis
    by (auto simp: word_less_nat_alt)
qed

text \<open>
  \<open>memmove\<close> copies the \<open>n\<close> bytes the source held before the call, also when the ranges overlap,
  provided neither range runs past the end of the address space.
\<close>

lemma memmove_spec:
  assumes "unat src + unat n < 4294967296" and "unat dst + unat n < 4294967296"
  shows "memmove dst src n m x = (if x - dst < n then m (src + (x - dst)) else m x)"
proof -
  have srcn: "unat (src + n) = unat src + unat n"
    using assms(1) by (simp add: unat_word_ariths)
  have su: "unat (src + of_nat j) = unat src + j" and du: "unat (dst + of_nat j) = unat dst + j"
    if "j < unat n" for j
    using that assms by (simp_all add: unat_word_ariths unat_of_nat)
  show ?thesis
  proof (cases "src < dst \<and> src + n > dst")
    case True
    then have lt: "unat src < unat dst"
      by (simp add: word_less_nat_alt)
    have n0: "0 < unat n"
      using True srcn by (auto simp: word_less_nat_alt)
    have top: "unat (dst + n - 1 - of_nat i) = unat dst + unat n - 1 - i"
      "unat (src + n - 1 - of_nat i) = unat src + unat n - 1 - i" if "i < unat n" for i
    proof -
      have k: "unat n - 1 - i < unat n"
        using n0 by simp
      have "of_nat (unat n - 1 - i) = n - 1 - of_nat i"
        using that by (simp add: of_nat_diff)
      then show "unat (dst + n - 1 - of_nat i) = unat dst + unat n - 1 - i"
        "unat (src + n - 1 - of_nat i) = unat src + unat n - 1 - i"
        using du [OF k] su [OF k] that n0 by (simp_all add: algebra_simps)
    qed
    have "copy_down (unat n) (dst + n) (src + n) m x =
        (if unat (dst + n - 1 - x) < unat n then m (src + n - (dst + n - x)) else m x)"
    proof (rule copy_down_spec)
      show "unat n \<le> 4294967296"
        using unat32_less [of n] by simp
      fix i j :: nat
      assume "i < j" "j < unat n"
      then have "unat src + unat n - 1 - j < unat dst + unat n - 1 - i"
        using lt by linarith
      then show "dst + n - 1 - of_nat i \<noteq> src + n - 1 - of_nat j"
        using top(1) [of i] top(2) [of j] \<open>i < j\<close> \<open>j < unat n\<close> by (metis less_irrefl less_trans)
    qed
    moreover have "unat (dst + n - 1 - x) < unat n \<longleftrightarrow> x - dst < n"
      using range_from_top [of n "x - dst"] n0 by (simp add: unat_gt_0 algebra_simps)
    ultimately show ?thesis
      using True by (simp add: memmove_def algebra_simps)
  next
    case False
    then have "unat dst \<le> unat src \<or> unat src + unat n \<le> unat dst"
      using srcn by (auto simp: word_less_nat_alt not_less)
    then have "copy_up (unat n) dst src m x =
        (if unat (x - dst) < unat n then m (src + (x - dst)) else m x)"
    proof (intro copy_up_spec)
      show "unat n \<le> 4294967296"
        using unat32_less [of n] by simp
      fix i j :: nat
      assume "i < j" "j < unat n" and sep: "unat dst \<le> unat src \<or> unat src + unat n \<le> unat dst"
      then have "unat dst + i \<noteq> unat src + j"
        by linarith
      then show "dst + of_nat i \<noteq> src + of_nat j"
        using du [of i] su [of j] \<open>i < j\<close> \<open>j < unat n\<close> by auto
    qed
    with False show ?thesis
      by (simp only: memmove_def if_False word_less_nat_alt)
  qed
qed

section \<open>What the string operations compute\<close>

lemma strncpy_length [simp]: "length (strncpy t n) = n"
  by (induction t n rule: strncpy.induct) auto

lemma cidx_0 [simp]: "cidx [] i = 0" "cidx (c # s) 0 = c" "cidx (c # s) (Suc i) = cidx s i"
  by (simp_all add: cidx_def)

lemma strncpy_eq: "strncpy t n = take n (takeWhile (\<lambda>c. c \<noteq> 0) t) @ replicate (n - strlen t) 0"
proof (induction n arbitrary: t)
  case 0
  then show ?case by simp
next
  case (Suc n)
  then show ?case by (cases t) auto
qed

lemma strlen_takeWhile: "strlen s = length (takeWhile (\<lambda>c. c \<noteq> 0) s)"
  by (induction s) auto

lemma safestrcpy_loop_eq:
  "\<exists>pad. safestrcpy_loop t n = take n (takeWhile (\<lambda>c. c \<noteq> 0) t) @ 0 # pad"
proof (induction n arbitrary: t)
  case 0
  then show ?case by simp
next
  case (Suc n)
  then show ?case by (cases t) auto
qed

lemma safestrcpy_loop_length: "length (safestrcpy_loop t n) \<le> Suc n"
  by (induction t n rule: safestrcpy_loop.induct) auto

lemma strncmp_eq_0:
  "strncmp p q n = 0 \<longleftrightarrow>
   take n (takeWhile (\<lambda>c. c \<noteq> 0) p) = take n (takeWhile (\<lambda>c. c \<noteq> 0) q)"
proof (induction n arbitrary: p q)
  case 0
  then show ?case by simp
next
  case (Suc n)
  show ?case
    using Suc [of "tl p" "tl q"] by (cases p; cases q) (auto simp: word_uint_eq_iff)
qed

lemma memcmp_eq_0:
  assumes "n \<le> length s1" and "n \<le> length s2"
  shows "memcmp s1 s2 n = 0 \<longleftrightarrow> take n s1 = take n s2"
  using assms
proof (induction n arbitrary: s1 s2)
  case 0
  then show ?case by simp
next
  case (Suc n)
  show ?case
    using Suc.prems Suc.IH [of "tl s1" "tl s2"] by (cases s1; cases s2) (auto simp: word_uint_eq_iff)
qed

section \<open>Properties\<close>

text \<open>
  The two paths of \<open>memset\<close> agree: filling word by word, which it does when address and length are multiples of four, has the effect of
  storing the byte \<open>n\<close> times, whatever the other bits of the argument \<open>c\<close> are.
\<close>

theorem memset_word_path: "memset dst c n m = stosb dst (ucast c) (unat n) m"
  by (rule ext) (simp only: memset_spec stosb_spec word_less_nat_alt)

text \<open>
  \<open>memmove\<close> is right for overlapping ranges: every byte of the destination gets what the source held before the call, and no
  other byte changes, as long as neither range runs past the end of the address space.
\<close>

theorem memmove_copies:
  assumes "unat src + unat n < 4294967296" and "unat dst + unat n < 4294967296"
  shows "(\<forall>i < unat n. memmove dst src n m (dst + of_nat i) = m (src + of_nat i)) \<and>
    (\<forall>x. x - dst \<ge> n \<longrightarrow> memmove dst src n m x = m x)"
proof -
  have "(of_nat i :: u32) < n" if "i < unat n" for i
    using that unat32_less [of n] by (simp add: word_less_nat_alt unat_of_nat)
  then show ?thesis
    by (simp add: memmove_spec [OF assms] not_less [symmetric])
qed

theorem memmove_copies_witness:
  "memmove 101 100 3 ucast 101 = 100 \<and> memmove 101 100 3 ucast 103 = 102 \<and> memmove 101 100 3 ucast 104 = 104"
proof -
  note c = memmove_copies [of 100 3 101 ucast, simplified]
  show ?thesis
    using conjunct1 [OF c, rule_format, of 0] conjunct1 [OF c, rule_format, of 2] conjunct2 [OF c, rule_format, of 104] by simp
qed

end
