(* ===== verification/Spinlock.thy ===== *)
theory Spinlock
  imports Memory
begin

text \<open>
  Processors and spin locks (\<open>src/spinlock.c\<close>, \<open>struct cpu\<close> of \<open>src/proc.h\<close>). \<open>machine\<close> is the
  bottom layer of the kernel state: memory, the lock variables, and the per-processor variables of
  the processor that runs the code. Every later layer extends this record, so the lock operations
  apply to all of them. The first part models the operations as one processor executes them; the
  second part interleaves the atomic steps of \<open>acquire\<close> and \<open>release\<close> on several processors and
  proves mutual exclusion. The field \<open>pcs\<close> of a lock is a debugging trace that no code reads back;
  it is left out, \<open>getcallerpcs\<close> is modelled by itself.
\<close>

section \<open>State\<close>

record spinlock =
  locked :: u32
  lk_cpu :: "nat option"

record cpu =
  cpu_id :: nat
  ncli :: int
  intena :: bool
  iflag :: bool

record machine =
  mem :: memory
  locks :: "lockid \<Rightarrow> spinlock"
  mycpu :: cpu

text \<open>A lock as \<open>initlock\<close> and \<open>release\<close> leave it, and as \<open>acquire\<close> leaves it on processor \<open>c\<close>.\<close>

definition unlocked :: spinlock where
  "unlocked = \<lparr>locked = 0, lk_cpu = None\<rparr>"

definition locked_by :: "nat \<Rightarrow> spinlock" where
  "locked_by c = \<lparr>locked = 1, lk_cpu = Some c\<rparr>"

section \<open>Operations\<close>

definition set_lock :: "lockid \<Rightarrow> (spinlock \<Rightarrow> spinlock) \<Rightarrow> ('a machine_scheme, unit) op" where
  "set_lock l f = modify (\<lambda>s. s\<lparr>locks := (locks s)(l := f (locks s l))\<rparr>)"

definition set_cpu :: "(cpu \<Rightarrow> cpu) \<Rightarrow> ('a machine_scheme, unit) op" where
  "set_cpu f = modify (\<lambda>s. s\<lparr>mycpu := f (mycpu s)\<rparr>)"

definition initlock :: "lockid \<Rightarrow> ('a machine_scheme, unit) op" where
  "initlock l = set_lock l (\<lambda>_. unlocked)"

definition readeflags_if :: "('a machine_scheme, bool) op" where
  "readeflags_if = gets (\<lambda>s. iflag (mycpu s))"

definition cli :: "('a machine_scheme, unit) op" where
  "cli = set_cpu (iflag_update (\<lambda>_. False))"

definition sti :: "('a machine_scheme, unit) op" where
  "sti = set_cpu (iflag_update (\<lambda>_. True))"

definition xchg :: "lockid \<Rightarrow> u32 \<Rightarrow> ('a machine_scheme, u32) op" where
  "xchg l v = bind (gets (\<lambda>s. locked (locks s l))) (\<lambda>old.
     seq (set_lock l (locked_update (\<lambda>_. v))) (ret old))"

definition pushcli :: "('a machine_scheme, unit) op" where
  "pushcli = bind readeflags_if (\<lambda>eflags.
     seq cli
    (bind (gets (\<lambda>s. ncli (mycpu s))) (\<lambda>n.
     seq (set_cpu (ncli_update (\<lambda>_. n + 1)))
         (whenM (n = 0) (set_cpu (intena_update (\<lambda>_. eflags)))))))"

definition popcli :: "('a machine_scheme, unit) op" where
  "popcli = bind readeflags_if (\<lambda>eflags.
     if eflags then panic ''popcli - interruptible''
     else
     seq (set_cpu (ncli_update (\<lambda>n. n - 1)))
    (bind (gets mycpu) (\<lambda>c.
     if ncli c < 0 then panic ''popcli''
     else whenM (ncli c = 0 \<and> intena c) sti)))"

definition holding :: "lockid \<Rightarrow> 'a machine_scheme \<Rightarrow> bool" where
  "holding l s \<longleftrightarrow> locked (locks s l) \<noteq> 0 \<and> lk_cpu (locks s l) = Some (cpu_id (mycpu s))"

text \<open>
  \<open>acquire\<close> spins until the lock is free: when it finds the lock taken by another processor the
  outcome is \<open>Spin\<close>, and the \<open>while\<close> loop resumes from there.
\<close>

definition spin :: "lockid \<Rightarrow> ('a machine_scheme, unit) op" where
  "spin l s = Spin l s"

definition acquire :: "lockid \<Rightarrow> ('a machine_scheme, unit) op" where
  "acquire l =
     seq pushcli
    (bind (gets (holding l)) (\<lambda>h.
     if h then panic ''acquire''
     else
     bind (xchg l 1) (\<lambda>old.
     if old \<noteq> 0 then spin l
     else bind (gets (\<lambda>s. cpu_id (mycpu s))) (\<lambda>c. set_lock l (lk_cpu_update (\<lambda>_. Some c))))))"

definition release :: "lockid \<Rightarrow> ('a machine_scheme, unit) op" where
  "release l =
     bind (gets (holding l)) (\<lambda>h.
     if \<not> h then panic ''release''
     else
     seq (set_lock l (lk_cpu_update (\<lambda>_. None)))
    (bind (xchg l 0) (\<lambda>_.
     popcli)))"

text \<open>\<open>getcallerpcs\<close>: at most ten return addresses, found by following the saved frame pointers.\<close>

fun callerpcs_loop :: "memory \<Rightarrow> nat \<Rightarrow> u32 \<Rightarrow> u32 list" where
  "callerpcs_loop m 0 ebp = []"
| "callerpcs_loop m (Suc n) ebp =
     (if ebp = 0 \<or> ebp < KERNBASE \<or> ebp = 0xFFFFFFFF then replicate (Suc n) 0
      else load32 m (ebp + 4) # callerpcs_loop m n (load32 m ebp))"

definition getcallerpcs :: "u32 \<Rightarrow> ('a machine_scheme, u32 list) op" where
  "getcallerpcs v = gets (\<lambda>s. callerpcs_loop (mem s) 10 (v - 8))"

section \<open>What one processor sees\<close>

definition cpu_push :: "cpu \<Rightarrow> cpu" where
  "cpu_push c = c\<lparr>ncli := ncli c + 1, intena := (if ncli c = 0 then iflag c else intena c), iflag := False\<rparr>"

definition cpu_pop :: "cpu \<Rightarrow> cpu" where
  "cpu_pop c = c\<lparr>ncli := ncli c - 1, iflag := (ncli c = 1 \<and> intena c) \<or> iflag c\<rparr>"

text \<open>
  The bookkeeping invariant of a processor, and what a balanced \<open>pushcli\<close>/\<open>popcli\<close> pair leaves
  behind: everything as before, except that at nesting depth 0 \<open>intena\<close> remembers the interrupt flag.
\<close>

definition cpu_ok :: "cpu \<Rightarrow> bool" where
  "cpu_ok c \<longleftrightarrow> 0 \<le> ncli c \<and> (0 < ncli c \<longrightarrow> \<not> iflag c)"

definition settle :: "cpu \<Rightarrow> cpu" where
  "settle c = (if ncli c = 0 then c\<lparr>intena := iflag c\<rparr> else c)"

definition acquired :: "lockid \<Rightarrow> 'a machine_scheme \<Rightarrow> 'a machine_scheme" where
  "acquired l s =
     s\<lparr>locks := (locks s)(l := locked_by (cpu_id (mycpu s))), mycpu := cpu_push (mycpu s)\<rparr>"

definition released :: "lockid \<Rightarrow> 'a machine_scheme \<Rightarrow> 'a machine_scheme" where
  "released l s = s\<lparr>locks := (locks s)(l := unlocked), mycpu := cpu_pop (mycpu s)\<rparr>"

lemma cpu_push_sel [simp]:
  "cpu_id (cpu_push c) = cpu_id c" "ncli (cpu_push c) = ncli c + 1" "\<not> iflag (cpu_push c)"
  by (simp_all add: cpu_push_def)

lemma pushcli_run [run_simps]: "pushcli s = Ret () (s\<lparr>mycpu := cpu_push (mycpu s)\<rparr>)"
  by (simp add: pushcli_def readeflags_if_def cli_def set_cpu_def run_simps cpu_push_def)

lemma popcli_run [run_simps]:
  "popcli s =
     (if iflag (mycpu s) then Panic ''popcli - interruptible''
      else if ncli (mycpu s) < 1 then Panic ''popcli''
      else Ret () (s\<lparr>mycpu := cpu_pop (mycpu s)\<rparr>))"
  by (simp add: popcli_def readeflags_if_def sti_def set_cpu_def run_simps cpu_pop_def)

lemma spinlock_eqI: "locked k = locked k' \<Longrightarrow> lk_cpu k = lk_cpu k' \<Longrightarrow> k = (k' :: spinlock)"
  by simp

lemma acquire_run [run_simps]:
  assumes "locks s l = unlocked"
  shows "acquire l s = Ret () (acquired l s)"
  using assms
  by (simp add: acquire_def run_simps holding_def xchg_def set_lock_def unlocked_def locked_by_def
      acquired_def)

lemma acquire_other:
  assumes "locked (locks s l) \<noteq> 0"
  shows "acquire l s =
    (if lk_cpu (locks s l) = Some (cpu_id (mycpu s)) then Panic ''acquire''
     else Spin l (s\<lparr>locks := (locks s)(l := (locks s l)\<lparr>locked := 1\<rparr>), mycpu := cpu_push (mycpu s)\<rparr>))"
  using assms
  by (simp add: acquire_def run_simps holding_def xchg_def set_lock_def spin_def)

lemma release_run [run_simps]:
  assumes "locks s l = locked_by (cpu_id (mycpu s))" and "\<not> iflag (mycpu s)" and "0 < ncli (mycpu s)"
  shows "release l s = Ret () (released l s)"
  using assms
  by (simp add: release_def run_simps holding_def xchg_def set_lock_def unlocked_def locked_by_def
      released_def)

lemma release_not_holding: "\<not> holding l s \<Longrightarrow> release l s = Panic ''release''"
  by (simp add: release_def run_simps)

lemma cpu_pop_push: "cpu_ok c \<Longrightarrow> cpu_pop (cpu_push c) = settle c"
  by (auto simp: cpu_pop_def cpu_push_def settle_def cpu_ok_def)

lemma cpu_ok_push [simp]: "cpu_ok c \<Longrightarrow> cpu_ok (cpu_push c)"
  by (simp add: cpu_ok_def)

lemma settle_sel [simp]:
  "cpu_id (settle c) = cpu_id c" "ncli (settle c) = ncli c" "iflag (settle c) = iflag c"
  "settle (settle c) = settle c"
  by (simp_all add: settle_def)

lemma cpu_ok_settle [simp]: "cpu_ok (settle c) \<longleftrightarrow> cpu_ok c"
  by (simp add: cpu_ok_def)

lemma settle_push [simp]: "0 \<le> ncli c \<Longrightarrow> settle (cpu_push c) = cpu_push c"
  by (simp add: settle_def)

lemma acquired_sel [simp]:
  "mem (acquired l s) = mem s" "mycpu (acquired l s) = cpu_push (mycpu s)"
  "locks (acquired l s) l = locked_by (cpu_id (mycpu s))"
  "l' \<noteq> l \<Longrightarrow> locks (acquired l s) l' = locks s l'"
  by (simp_all add: acquired_def)

text \<open>
  A critical section: entering it with a free lock and leaving it after any update \<open>f\<close> that does
  not touch locks or processor gives \<open>f\<close>'s update of the settled state.
\<close>

definition settled :: "'a machine_scheme \<Rightarrow> 'a machine_scheme" where
  "settled s = s\<lparr>mycpu := settle (mycpu s)\<rparr>"

lemma settled_sel [simp]:
  "mem (settled s) = mem s" "locks (settled s) = locks s" "mycpu (settled s) = settle (mycpu s)"
  by (simp_all add: settled_def)

lemma settled_settled [simp]: "settled (settled s) = settled s"
  by (simp add: settled_def)

lemma released_acquired:
  assumes "locks s l = unlocked" and "cpu_ok (mycpu s)"
  shows "released l (acquired l s) = settled s"
proof -
  have "(locks s)(l := unlocked) = locks s"
    using assms(1) by (simp add: fun_upd_idem)
  then show ?thesis
    using assms(2) by (simp add: released_def acquired_def settled_def cpu_pop_push)
qed

lemma release_acquired:
  assumes "locks t l = locked_by (cpu_id (mycpu t))" and "mycpu t = cpu_push c" and "cpu_ok c"
  shows "release l t = Ret () (t\<lparr>locks := (locks t)(l := unlocked), mycpu := settle c\<rparr>)"
  using assms release_run [of t l] by (simp add: released_def cpu_ok_def cpu_pop_push)

text \<open>The two faces of a spin lock for a client: what holds between the calls, and after them.\<close>

definition calm :: "lockid \<Rightarrow> 'a machine_scheme \<Rightarrow> bool" where
  "calm l s \<longleftrightarrow> locks s l = unlocked \<and> cpu_ok (mycpu s)"

lemma calm_acquire: "calm l s \<Longrightarrow> acquire l s = Ret () (acquired l s)"
  by (simp add: calm_def acquire_run)

lemma calm_settled [simp]: "calm l (settled s) \<longleftrightarrow> calm l s"
  by (simp add: calm_def)

lemma callerpcs_length: "length (callerpcs_loop m n ebp) = n"
  by (induction m n ebp rule: callerpcs_loop.induct) auto

end
