(* ===== verification/Smp.thy ===== *)
theory Smp
  imports Spinlock
begin

text \<open>
  Several processors executing \<open>acquire\<close> and \<open>release\<close> of \<open>src/spinlock.c\<close> at once. A step of
  the machine is one atomic action of one processor: \<open>pushcli\<close> with the \<open>holding\<close> test, one
  \<open>xchg\<close> of the spin loop, the assignment of \<open>lk->cpu\<close>, and the three actions of \<open>release\<close>. Each
  step runs the operation of theory \<open>Spinlock\<close> on the processor's view of the machine; the program
  counter says where in \<open>acquire\<close> or \<open>release\<close> a processor is. The list of locks a processor
  has acquired and not yet started to release is recorded beside the code's state, to state what
  the locks are for.
\<close>

section \<open>The interleaved machine\<close>

datatype pc = Idle | Spinning lockid | Got lockid | Clearing lockid | Popping

record smp =
  slocks :: "lockid \<Rightarrow> spinlock"
  smem :: memory
  scpus :: "nat \<Rightarrow> cpu"
  spc :: "nat \<Rightarrow> pc"
  sheld :: "nat \<Rightarrow> lockid list"

definition view :: "nat \<Rightarrow> smp \<Rightarrow> machine" where
  "view i S = \<lparr>mem = smem S, locks = slocks S, mycpu = scpus S i\<rparr>"

definition put :: "nat \<Rightarrow> machine \<Rightarrow> pc \<Rightarrow> lockid list \<Rightarrow> smp \<Rightarrow> smp" where
  "put i s p h S =
     S\<lparr>slocks := locks s, smem := mem s, scpus := (scpus S)(i := mycpu s), spc := (spc S)(i := p),
       sheld := (sheld S)(i := h)\<rparr>"

inductive smp_step :: "smp \<Rightarrow> smp \<Rightarrow> bool" where
  irq_on: "spc S i = Idle \<Longrightarrow> ncli (scpus S i) = 0 \<Longrightarrow> sti (view i S) = Ret () s \<Longrightarrow>
    smp_step S (put i s Idle (sheld S i) S)"
| irq_off: "spc S i = Idle \<Longrightarrow> cli (view i S) = Ret () s \<Longrightarrow>
    smp_step S (put i s Idle (sheld S i) S)"
| acq_push: "spc S i = Idle \<Longrightarrow> pushcli (view i S) = Ret () s \<Longrightarrow> \<not> holding l s \<Longrightarrow>
    smp_step S (put i s (Spinning l) (sheld S i) S)"
| acq_spin: "spc S i = Spinning l \<Longrightarrow> xchg l 1 (view i S) = Ret old s \<Longrightarrow> old \<noteq> 0 \<Longrightarrow>
    smp_step S (put i s (Spinning l) (sheld S i) S)"
| acq_got: "spc S i = Spinning l \<Longrightarrow> xchg l 1 (view i S) = Ret 0 s \<Longrightarrow>
    smp_step S (put i s (Got l) (sheld S i) S)"
| acq_done: "spc S i = Got l \<Longrightarrow>
    set_lock l (lk_cpu_update (\<lambda>_. Some (cpu_id (scpus S i)))) (view i S) = Ret () s \<Longrightarrow>
    smp_step S (put i s Idle (l # sheld S i) S)"
| rel_clear: "spc S i = Idle \<Longrightarrow> holding l (view i S) \<Longrightarrow>
    set_lock l (lk_cpu_update (\<lambda>_. None)) (view i S) = Ret () s \<Longrightarrow>
    smp_step S (put i s (Clearing l) (remove1 l (sheld S i)) S)"
| rel_xchg: "spc S i = Clearing l \<Longrightarrow> xchg l 0 (view i S) = Ret old s \<Longrightarrow>
    smp_step S (put i s Popping (sheld S i) S)"
| rel_pop: "spc S i = Popping \<Longrightarrow> popcli (view i S) = Ret () s \<Longrightarrow>
    smp_step S (put i s Idle (sheld S i) S)"

definition smp_init :: "smp \<Rightarrow> bool" where
  "smp_init S \<longleftrightarrow>
     slocks S = (\<lambda>_. unlocked) \<and> spc S = (\<lambda>_. Idle) \<and> sheld S = (\<lambda>_. []) \<and>
     (\<forall>i. cpu_id (scpus S i) = i \<and> ncli (scpus S i) = 0)"

inductive smp_reach :: "smp \<Rightarrow> bool" where
  start: "smp_init S \<Longrightarrow> smp_reach S"
| step: "smp_reach S \<Longrightarrow> smp_step S T \<Longrightarrow> smp_reach T"

section \<open>The invariant\<close>

text \<open>Processor \<open>i\<close> owns lock \<open>l\<close> from the winning \<open>xchg\<close> of \<open>acquire\<close> to the \<open>xchg\<close> of \<open>release\<close>.\<close>

definition owns :: "smp \<Rightarrow> nat \<Rightarrow> lockid \<Rightarrow> bool" where
  "owns S i l \<longleftrightarrow> l \<in> set (sheld S i) \<or> spc S i = Got l \<or> spc S i = Clearing l"

definition pending :: "pc \<Rightarrow> int" where
  "pending p = (if p = Idle then 0 else 1)"

definition cpu_inv :: "smp \<Rightarrow> nat \<Rightarrow> bool" where
  "cpu_inv S i \<longleftrightarrow>
     cpu_id (scpus S i) = i \<and> distinct (sheld S i) \<and>
     ncli (scpus S i) = int (length (sheld S i)) + pending (spc S i) \<and>
     (0 < ncli (scpus S i) \<longrightarrow> \<not> iflag (scpus S i)) \<and>
     (\<forall>l. spc S i = Got l \<or> spc S i = Clearing l \<longrightarrow> l \<notin> set (sheld S i))"

definition lock_inv :: "smp \<Rightarrow> lockid \<Rightarrow> bool" where
  "lock_inv S l \<longleftrightarrow>
     (locked (slocks S l) \<noteq> 0 \<longleftrightarrow> (\<exists>i. owns S i l)) \<and>
     (\<forall>i j. owns S i l \<longrightarrow> owns S j l \<longrightarrow> i = j) \<and>
     (\<forall>i. lk_cpu (slocks S l) = Some i \<longleftrightarrow> l \<in> set (sheld S i))"

definition smp_inv :: "smp \<Rightarrow> bool" where
  "smp_inv S \<longleftrightarrow> (\<forall>i. cpu_inv S i) \<and> (\<forall>l. lock_inv S l)"

lemma xchg_run [run_simps]:
  "xchg l v s = Ret (locked (locks s l)) (s\<lparr>locks := (locks s)(l := (locks s l)\<lparr>locked := v\<rparr>)\<rparr>)"
  by (simp add: xchg_def set_lock_def run_simps)

lemma set_lock_run [run_simps]: "set_lock l f s = Ret () (s\<lparr>locks := (locks s)(l := f (locks s l))\<rparr>)"
  by (simp add: set_lock_def run_simps)

lemma sti_cli_run [run_simps]:
  "sti s = Ret () (s\<lparr>mycpu := (mycpu s)\<lparr>iflag := True\<rparr>\<rparr>)"
  "cli s = Ret () (s\<lparr>mycpu := (mycpu s)\<lparr>iflag := False\<rparr>\<rparr>)"
  by (simp_all add: sti_def cli_def set_cpu_def run_simps)

lemma view_sel [simp]: "locks (view i S) = slocks S" "mycpu (view i S) = scpus S i" "mem (view i S) = smem S"
  by (simp_all add: view_def)

lemma put_sel [simp]:
  "slocks (put i s p h S) = locks s" "scpus (put i s p h S) = (scpus S)(i := mycpu s)"
  "spc (put i s p h S) = (spc S)(i := p)" "sheld (put i s p h S) = (sheld S)(i := h)"
  by (simp_all add: put_def)

lemma cpu_inv_put_other: "j \<noteq> i \<Longrightarrow> cpu_inv (put i s p h S) j \<longleftrightarrow> cpu_inv S j"
  by (simp add: cpu_inv_def)

lemma owns_put: "owns (put i s p h S) j l \<longleftrightarrow>
    (if j = i then l \<in> set h \<or> p = Got l \<or> p = Clearing l else owns S j l)"
  by (simp add: owns_def)

lemma smp_holding:
  assumes "smp_inv S" and "holding l (view i S)"
  shows "l \<in> set (sheld S i)"
  using assms by (auto simp: smp_inv_def cpu_inv_def lock_inv_def holding_def)

lemma smp_free:
  assumes "smp_inv S" and "locked (slocks S l) = 0"
  shows "\<not> owns S i l"
  using assms by (auto simp: smp_inv_def lock_inv_def)

lemma step_cpu_inv:
  assumes "smp_step S T" and inv: "smp_inv S"
  shows "cpu_inv T j"
proof -
  have c: "cpu_inv S i" for i
    using inv by (simp add: smp_inv_def)
  show ?thesis
    using assms(1)
  proof cases
    case (irq_on i s)
    with c [of i] c [of j] show ?thesis
      by (cases "j = i") (auto simp: run_simps cpu_inv_def)
  next
    case (irq_off i s)
    with c [of i] c [of j] show ?thesis
      by (cases "j = i") (auto simp: run_simps cpu_inv_def)
  next
    case (acq_push i s l)
    with c [of i] c [of j] show ?thesis
      by (cases "j = i") (auto simp: run_simps cpu_inv_def pending_def)
  next
    case (acq_spin i l old s)
    with c [of i] c [of j] show ?thesis
      by (cases "j = i") (auto simp: run_simps cpu_inv_def pending_def)
  next
    case (acq_got i l s)
    then have "l \<notin> set (sheld S i)"
      using smp_free [OF inv, of l i] by (simp add: run_simps owns_def)
    with acq_got c [of i] c [of j] show ?thesis
      by (cases "j = i") (auto simp: run_simps cpu_inv_def pending_def)
  next
    case (acq_done i l s)
    with c [of i] c [of j] show ?thesis
      by (cases "j = i") (auto simp: run_simps cpu_inv_def pending_def)
  next
    case (rel_clear i l s)
    then have "l \<in> set (sheld S i)"
      using smp_holding [OF inv] by blast
    moreover from this have "int (length (sheld S i) - Suc 0) + 1 = int (length (sheld S i))"
      by (cases "sheld S i") simp_all
    ultimately show ?thesis
      using rel_clear c [of i] c [of j]
      by (cases "j = i") (auto simp: run_simps cpu_inv_def pending_def length_remove1)
  next
    case (rel_xchg i l old s)
    with c [of i] c [of j] show ?thesis
      by (cases "j = i") (auto simp: run_simps cpu_inv_def pending_def)
  next
    case (rel_pop i s)
    with c [of i] c [of j] show ?thesis
      by (cases "j = i") (auto simp: run_simps cpu_inv_def pending_def cpu_pop_def split: if_splits)
  qed
qed

lemma lock_inv_cong:
  assumes "lock_inv S k" and "\<And>i. owns T i k \<longleftrightarrow> owns S i k"
    and "locked (slocks T k) \<noteq> 0 \<longleftrightarrow> locked (slocks S k) \<noteq> 0"
    and "\<And>i. lk_cpu (slocks T k) = Some i \<longleftrightarrow> k \<in> set (sheld T i)"
  shows "lock_inv T k"
  using assms unfolding lock_inv_def by metis

lemma lock_inv_owner:
  assumes "\<And>j. owns T j k \<longleftrightarrow> j = i" and "locked (slocks T k) \<noteq> 0"
    and "\<And>j. lk_cpu (slocks T k) = Some j \<longleftrightarrow> k \<in> set (sheld T j)"
  shows "lock_inv T k"
  using assms by (simp add: lock_inv_def)

lemma lock_inv_free:
  assumes "\<And>j. \<not> owns T j k" and "locked (slocks T k) = 0"
    and "\<And>j. lk_cpu (slocks T k) = Some j \<longleftrightarrow> k \<in> set (sheld T j)"
  shows "lock_inv T k"
  using assms by (simp add: lock_inv_def)

lemma lock_inv_cpu: "lock_inv S k \<Longrightarrow> lk_cpu (slocks S k) = Some j \<longleftrightarrow> k \<in> set (sheld S j)"
  by (simp add: lock_inv_def)

lemma lock_inv_unique: "lock_inv S k \<Longrightarrow> owns S i k \<Longrightarrow> owns S j k \<longleftrightarrow> j = i"
  by (auto simp: lock_inv_def)

text \<open>The steps that leave the owners of every lock and the recorded processors alone.\<close>

lemma lock_inv_quiet:
  assumes "lock_inv S k" and "locked (locks s k) \<noteq> 0 \<longleftrightarrow> locked (slocks S k) \<noteq> 0"
    and "lk_cpu (locks s k) = lk_cpu (slocks S k)"
    and "p = Got k \<or> p = Clearing k \<longleftrightarrow> spc S i = Got k \<or> spc S i = Clearing k"
  shows "lock_inv (put i s p (sheld S i) S) k"
proof (rule lock_inv_cong [OF assms(1)])
  show "owns (put i s p (sheld S i) S) j k \<longleftrightarrow> owns S j k" for j
    using assms(4) by (auto simp: owns_put owns_def)
  show "lk_cpu (slocks (put i s p (sheld S i) S) k) = Some j \<longleftrightarrow> k \<in> set (sheld (put i s p (sheld S i) S) j)"
    for j
    using lock_inv_cpu [OF assms(1)] assms(3) by simp
qed (use assms(2) in simp)

lemma step_lock_inv:
  assumes "smp_step S T" and inv: "smp_inv S"
  shows "lock_inv T k"
proof -
  have c: "cpu_inv S i" for i
    using inv by (simp add: smp_inv_def)
  have lk: "lock_inv S l" for l
    using inv by (simp add: smp_inv_def)
  note quiet = lock_inv_quiet [OF lk]
  show ?thesis
    using assms(1)
  proof cases
    case (irq_on i s)
    then show ?thesis
      by (simp only:) (rule quiet; auto simp: run_simps)
  next
    case (irq_off i s)
    then show ?thesis
      by (simp only:) (rule quiet; auto simp: run_simps)
  next
    case (acq_push i s l)
    then show ?thesis
      by (simp only:) (rule quiet; auto simp: run_simps)
  next
    case (acq_spin i l old s)
    then show ?thesis
      by (simp only:) (rule quiet; simp add: run_simps split: if_splits; force)
  next
    case (acq_got i l s)
    have T: "T = put i s (Got l) (sheld S i) S" by fact
    show ?thesis
    proof (cases "k = l")
      case True
      have "\<not> owns S j l" for j
        using acq_got smp_free [OF inv, of l j] by (simp add: run_simps)
      then show ?thesis
        unfolding T using True acq_got lock_inv_cpu [OF lk, of l]
        by (intro lock_inv_owner [where i = i]) (auto simp: run_simps owns_put)
    next
      case False
      then show ?thesis
        unfolding T using acq_got by (intro quiet) (auto simp: run_simps)
    qed
  next
    case (acq_done i l s)
    have T: "T = put i s Idle (l # sheld S i) S" by fact
    show ?thesis
    proof (cases "k = l")
      case True
      have "owns S i l"
        using acq_done by (simp add: owns_def)
      note own = lock_inv_unique [OF lk this]
      have "locked (slocks S l) \<noteq> 0" and "l \<in> set (sheld S j) \<Longrightarrow> j = i" for j
        using \<open>owns S i l\<close> lk [of l] own [of j] by (auto simp: lock_inv_def owns_def)
      with own show ?thesis
        unfolding T using True acq_done c [of i]
        by (intro lock_inv_owner [where i = i]) (auto simp: run_simps owns_put cpu_inv_def)
    next
      case False
      have s: "slocks S k = locks s k"
        using acq_done False by (auto simp: run_simps)
      show ?thesis
        unfolding T
      proof (rule lock_inv_cong [OF lk])
        show "owns (put i s Idle (l # sheld S i) S) j k \<longleftrightarrow> owns S j k" for j
          using acq_done False by (simp add: owns_put owns_def)
        show "lk_cpu (slocks (put i s Idle (l # sheld S i) S) k) = Some j \<longleftrightarrow>
            k \<in> set (sheld (put i s Idle (l # sheld S i) S) j)" for j
          using lock_inv_cpu [OF lk, of k j] s False by simp
      qed (simp add: s)
    qed
  next
    case (rel_clear i l s)
    have T: "T = put i s (Clearing l) (remove1 l (sheld S i)) S" by fact
    have "owns S i l"
      using smp_holding [OF inv] rel_clear by (auto simp: owns_def)
    note own = lock_inv_unique [OF lk this]
    show ?thesis
    proof (cases "k = l")
      case True
      have "locked (slocks S l) \<noteq> 0" and "l \<in> set (sheld S j) \<Longrightarrow> j = i" for j
        using \<open>owns S i l\<close> lk [of l] own [of j] by (auto simp: lock_inv_def owns_def)
      with own show ?thesis
        unfolding T using True rel_clear c [of i]
        by (intro lock_inv_owner [where i = i]) (auto simp: run_simps owns_put cpu_inv_def)
    next
      case False
      have s: "slocks S k = locks s k"
        using rel_clear False by (auto simp: run_simps)
      show ?thesis
        unfolding T
      proof (rule lock_inv_cong [OF lk])
        show "owns (put i s (Clearing l) (remove1 l (sheld S i)) S) j k \<longleftrightarrow> owns S j k" for j
          using rel_clear False by (simp add: owns_put owns_def)
        show "lk_cpu (slocks (put i s (Clearing l) (remove1 l (sheld S i)) S) k) = Some j \<longleftrightarrow>
            k \<in> set (sheld (put i s (Clearing l) (remove1 l (sheld S i)) S) j)" for j
          using lock_inv_cpu [OF lk, of k j] s False by simp
      qed (simp add: s)
    qed
  next
    case (rel_xchg i l old s)
    have T: "T = put i s Popping (sheld S i) S" by fact
    show ?thesis
    proof (cases "k = l")
      case True
      have "owns S i l"
        using rel_xchg by (simp add: owns_def)
      note own = lock_inv_unique [OF lk this]
      show ?thesis
        unfolding T using True rel_xchg c [of i] lock_inv_cpu [OF lk, of l] own
        by (intro lock_inv_free) (auto simp: run_simps owns_put cpu_inv_def)
    next
      case False
      then show ?thesis
        unfolding T using rel_xchg by (intro quiet) (auto simp: run_simps)
    qed
  next
    case (rel_pop i s)
    then show ?thesis
      by (simp only:) (rule quiet; auto simp: run_simps split: if_splits)
  qed
qed

lemma smp_reach_inv: "smp_reach S \<Longrightarrow> smp_inv S"
proof (induction rule: smp_reach.induct)
  case (start S)
  then show ?case
    by (simp add: smp_init_def smp_inv_def cpu_inv_def lock_inv_def owns_def pending_def unlocked_def)
next
  case (step S T)
  then show ?case
    using step_cpu_inv step_lock_inv by (auto simp: smp_inv_def)
qed

section \<open>What locks guarantee\<close>

text \<open>
  A run of processor 0 through \<open>acquire\<close> of the free-list lock, from a machine whose
  processors run with interrupts on.
\<close>

definition smp0 :: smp where
  "smp0 = \<lparr>slocks = (\<lambda>_. unlocked), smem = (\<lambda>_. 0),
     scpus = (\<lambda>i. \<lparr>cpu_id = i, ncli = 0, intena = False, iflag = True\<rparr>),
     spc = (\<lambda>_. Idle), sheld = (\<lambda>_. [])\<rparr>"

definition run_step :: "nat \<Rightarrow> pc \<Rightarrow> lockid list \<Rightarrow> (machine, 'a) op \<Rightarrow> smp \<Rightarrow> smp" where
  "run_step i p h m S = (case m (view i S) of Ret _ s \<Rightarrow> put i s p h S | _ \<Rightarrow> S)"

definition smp1 :: smp where
  "smp1 = run_step 0 (Spinning KmemLock) [] pushcli smp0"

definition smp2 :: smp where
  "smp2 = run_step 0 (Got KmemLock) [] (xchg KmemLock 1) smp1"

definition smp3 :: smp where
  "smp3 = run_step 0 Idle [KmemLock] (set_lock KmemLock (lk_cpu_update (\<lambda>_. Some 0))) smp2"

definition smp4 :: smp where
  "smp4 = run_step 0 (Clearing KmemLock) [] (set_lock KmemLock (lk_cpu_update (\<lambda>_. None))) smp3"

definition smp5 :: smp where
  "smp5 = run_step 0 Popping [] (xchg KmemLock 0) smp4"

lemmas smp_run_defs = smp0_def smp1_def smp2_def smp3_def smp4_def smp5_def run_step_def run_simps unlocked_def

lemma smp_run:
  "smp_step smp0 smp1" "smp_step smp1 smp2" "smp_step smp2 smp3" "smp_step smp3 smp4" "smp_step smp4 smp5"
proof -
  show "smp_step smp0 smp1"
    using acq_push [of smp0 0 _ KmemLock] by (simp add: smp_run_defs holding_def)
  show "smp_step smp1 smp2"
    using acq_got [of smp1 0 KmemLock] by (simp add: smp_run_defs)
  show "smp_step smp2 smp3"
    using acq_done [of smp2 0 KmemLock] by (simp add: smp_run_defs)
  show "smp_step smp3 smp4"
    using rel_clear [of smp3 0 KmemLock] by (simp add: smp_run_defs holding_def)
  show "smp_step smp4 smp5"
    using rel_xchg [of smp4 0 KmemLock] by (simp add: smp_run_defs)
qed

lemma smp_run_reach: "smp_reach smp3" "smp_reach smp5"
proof -
  have "smp_reach smp0"
    by (rule start) (simp add: smp_init_def smp0_def)
  then show "smp_reach smp3" "smp_reach smp5"
    using smp_run step by blast+
qed

text \<open>
  C1: Mutual exclusion. In every state the processors can reach by interleaving the atomic steps of
  \<open>acquire\<close> and \<open>release\<close>, no lock has two owners, and an owner runs with interrupts off.
\<close>

theorem mutual_exclusion:
  assumes "smp_reach S" and "owns S i l"
  shows "(owns S j l \<longrightarrow> i = j) \<and> \<not> iflag (scpus S i)"
proof -
  have "smp_inv S"
    using assms(1) by (rule smp_reach_inv)
  then have lk: "lock_inv S l" and c: "cpu_inv S i"
    by (simp_all add: smp_inv_def)
  have "0 < ncli (scpus S i)"
    using assms(2) c by (auto simp: owns_def cpu_inv_def pending_def in_set_conv_nth)
  with lk c assms(2) show ?thesis
    by (auto simp: lock_inv_def cpu_inv_def)
qed

theorem mutual_exclusion_witness:
  "smp_reach smp3 \<and> owns smp3 0 KmemLock \<and> \<not> owns smp3 1 KmemLock \<and> \<not> iflag (scpus smp3 0)"
proof -
  have "owns smp3 0 KmemLock"
    by (simp add: owns_def smp_run_defs)
  with mutual_exclusion [OF smp_run_reach(1) this, of 1] smp_run_reach(1) show ?thesis
    by simp
qed

text \<open>
  C2: The run-time checks of \<open>acquire\<close> and \<open>release\<close> are exact and \<open>release\<close> always completes. In
  every reachable state \<open>holding\<close> answers true for exactly the locks the processor has acquired and
  not released, so \<open>acquire\<close> panics only on a lock the processor already holds and \<open>release\<close> only on
  one it does not hold; and the \<open>popcli\<close> at the end of \<open>release\<close> never panics.
\<close>

theorem lock_checks_exact:
  assumes "smp_reach S"
  shows "(holding l (view i S) \<longleftrightarrow> l \<in> set (sheld S i)) \<and>
    (spc S i = Popping \<longrightarrow> (\<exists>s. popcli (view i S) = Ret () s \<and> ncli (mycpu s) = int (length (sheld S i))))"
proof -
  have "smp_inv S"
    using assms by (rule smp_reach_inv)
  then have lk: "lock_inv S l" and c: "cpu_inv S i"
    by (simp_all add: smp_inv_def)
  show ?thesis
  proof
    show "holding l (view i S) \<longleftrightarrow> l \<in> set (sheld S i)"
      using lk c by (auto simp: lock_inv_def cpu_inv_def holding_def owns_def)
    show "spc S i = Popping \<longrightarrow> (\<exists>s. popcli (view i S) = Ret () s \<and> ncli (mycpu s) = int (length (sheld S i)))"
      using c by (simp add: popcli_run cpu_inv_def pending_def cpu_pop_def)
  qed
qed

theorem lock_checks_exact_witness:
  "smp_reach smp5 \<and> spc smp5 0 = Popping \<and> \<not> holding KmemLock (view 0 smp5) \<and>
   (\<exists>s. popcli (view 0 smp5) = Ret () s \<and> ncli (mycpu s) = 0)"
proof -
  have "spc smp5 0 = Popping" and "sheld smp5 0 = []"
    by (simp_all add: smp_run_defs)
  with lock_checks_exact [OF smp_run_reach(2), of KmemLock 0] smp_run_reach(2) show ?thesis
    by simp
qed

end
