(* ===== verification/Printk.thy ===== *)
theory Printk
  imports Spinlock
begin

text \<open>
  Kernel output: \<open>consputc\<close>, \<open>cgaputc\<close>, \<open>printint\<close> and \<open>cprintf\<close> of \<open>src/console.c\<close> and
  \<open>uartputc\<close> of \<open>src/uart.c\<close>. The devices are part of the state: the bytes sent to the serial
  port, the character cells of the CGA memory (device memory, not RAM) and the cursor register
  of the CRT controller. Waiting for the serial port to become ready is a bounded delay without
  effect on the state.
\<close>

section \<open>State\<close>

record omach = machine +
  uart :: bool
  uart_out :: "u8 list"
  crt :: "int \<Rightarrow> u16"
  crtc_pos :: u16
  cons_locking :: bool
  panicked :: bool

section \<open>Characters\<close>

definition BACKSPACE :: u32 where [simp]: "BACKSPACE = 0x100"

definition uartputc :: "u32 \<Rightarrow> ('a omach_scheme, unit) op" where
  "uartputc c = bind (gets uart) (\<lambda>u.
     whenM u (modify (\<lambda>s. s\<lparr>uart_out := uart_out s @ [ucast c]\<rparr>)))"

definition set_crt :: "int \<Rightarrow> u16 \<Rightarrow> ('a omach_scheme, unit) op" where
  "set_crt i v = modify (\<lambda>s. s\<lparr>crt := (crt s)(i := v)\<rparr>)"

text \<open>Scrolling: \<open>memmove(crt, crt+80, \<dots>)\<close> moves 23 rows up, \<open>memset\<close> clears the last row from \<open>pos\<close>.\<close>

definition scroll_up :: "int \<Rightarrow> (int \<Rightarrow> u16) \<Rightarrow> int \<Rightarrow> u16" where
  "scroll_up pos cells i =
     (if pos \<le> i \<and> i < 24 * 80 then 0
      else if 0 \<le> i \<and> i < 23 * 80 then cells (i + 80)
      else cells i)"

definition cgaputc :: "u32 \<Rightarrow> ('a omach_scheme, unit) op" where
  "cgaputc c =
     bind (gets (\<lambda>s. uint (crtc_pos s))) (\<lambda>pos0.
     bind (if c = 10 then ret (pos0 + (80 - pos0 mod 80))
           else if c = BACKSPACE then ret (if pos0 > 0 then pos0 - 1 else pos0)
           else seq (set_crt pos0 (ucast (c AND 0xFF) OR 0x0700)) (ret (pos0 + 1))) (\<lambda>pos1.
     if pos1 < 0 \<or> pos1 > 25 * 80 then panic ''pos under/overflow''
     else
     bind (if pos1 div 80 \<ge> 24
           then seq (modify (\<lambda>s. s\<lparr>crt := scroll_up (pos1 - 80) (crt s)\<rparr>)) (ret (pos1 - 80))
           else ret pos1) (\<lambda>pos2.
     seq (modify (\<lambda>s. s\<lparr>crtc_pos := word_of_int pos2\<rparr>))
         (set_crt pos2 (0x20 OR 0x0700)))))"

text \<open>When another processor has panicked, \<open>consputc\<close> disables interrupts and loops forever.\<close>

definition consputc :: "u32 \<Rightarrow> ('a omach_scheme, unit) op" where
  "consputc c =
     bind (gets panicked) (\<lambda>p.
     if p then seq cli (panic ''frozen'')
     else
     seq (if c = BACKSPACE then seq (uartputc 8) (seq (uartputc 0x20) (uartputc 8)) else uartputc c)
         (cgaputc c))"

section \<open>Numbers and formats\<close>

text \<open>The digits of a number, least significant first (the \<open>do\<close> loop of \<open>printint\<close>).\<close>

fun digits_rev :: "nat \<Rightarrow> nat \<Rightarrow> nat list" where
  "digits_rev base x =
     (if base < 2 \<or> x < base then [x mod base] else x mod base # digits_rev base (x div base))"

declare digits_rev.simps [simp del]

definition digit_char :: "nat \<Rightarrow> u8" where
  "digit_char d = bytes ''0123456789abcdef'' ! d"

definition printint_chars :: "u32 \<Rightarrow> nat \<Rightarrow> bool \<Rightarrow> u8 list" where
  "printint_chars xx base sign =
     (let neg = sign \<and> sint xx < 0;
          x = (if neg then - xx else xx)
      in (if neg then [byte (CHR ''-'')] else []) @ rev (map digit_char (digits_rev base (unat x))))"

definition putchars :: "u8 list \<Rightarrow> ('a omach_scheme, unit) op" where
  "putchars cs = forM cs (\<lambda>c. consputc (ucast c))"

definition printint :: "u32 \<Rightarrow> nat \<Rightarrow> bool \<Rightarrow> ('a omach_scheme, unit) op" where
  "printint xx base sign = putchars (printint_chars xx base sign)"

text \<open>
  Arguments of \<open>cprintf\<close>: a word, or a pointer to a string (\<open>None\<close> is the null pointer). Reading
  an argument that was not passed, or of the other kind, is undefined.
\<close>

datatype fmtarg = Word u32 | Str "u8 list option"

lemma keeps_fmtarg [keeps_intros]:
  "(\<And>w. x = Word w \<Longrightarrow> keeps I (f w)) \<Longrightarrow> (\<And>s. x = Str s \<Longrightarrow> keeps I (g s)) \<Longrightarrow>
   keeps I (case x of Word w \<Rightarrow> f w | Str s \<Rightarrow> g s)"
  by (cases x) simp_all

fun cprintf_loop :: "string \<Rightarrow> fmtarg list \<Rightarrow> ('a omach_scheme, unit) op" where
  "cprintf_loop [] args = ret ()"
| "cprintf_loop (c # fmt) args =
     (if c \<noteq> CHR ''%'' then seq (consputc (ucast (byte c))) (cprintf_loop fmt args)
      else
      (case fmt of
         [] \<Rightarrow> ret ()
       | d # fmt' \<Rightarrow>
         if d = CHR ''d'' then
           (case args of Word w # args' \<Rightarrow> seq (printint w 10 True) (cprintf_loop fmt' args') | _ \<Rightarrow> fault)
         else if d = CHR ''x'' \<or> d = CHR ''p'' then
           (case args of Word w # args' \<Rightarrow> seq (printint w 16 False) (cprintf_loop fmt' args') | _ \<Rightarrow> fault)
         else if d = CHR ''s'' then
           (case args of
              Str s # args' \<Rightarrow>
                seq (putchars (case s of None \<Rightarrow> bytes ''(null)'' | Some cs \<Rightarrow> takeWhile (\<lambda>c. c \<noteq> 0) cs))
                    (cprintf_loop fmt' args')
            | _ \<Rightarrow> fault)
         else if d = CHR ''%'' then seq (consputc (ucast (byte d))) (cprintf_loop fmt' args)
         else seq (consputc (ucast (byte c))) (seq (consputc (ucast (byte d))) (cprintf_loop fmt' args))))"

definition cprintf :: "string \<Rightarrow> fmtarg list \<Rightarrow> ('a omach_scheme, unit) op" where
  "cprintf fmt args =
     bind (gets cons_locking) (\<lambda>locking.
     seq (whenM locking (acquire ConsLock))
    (seq (cprintf_loop fmt args)
         (whenM locking (release ConsLock))))"

section \<open>Putting characters on the screen\<close>

definition screen_ok :: "'a omach_scheme \<Rightarrow> bool" where
  "screen_ok s \<longleftrightarrow> uint (crtc_pos s) < 24 * 80 \<and> \<not> panicked s"

text \<open>The state differs from another one only in the output devices.\<close>

definition printed :: "u8 list \<Rightarrow> 'a omach_scheme \<Rightarrow> 'a omach_scheme \<Rightarrow> bool" where
  "printed cs s s' \<longleftrightarrow>
     (\<exists>m c. uint c < 24 * 80 \<and> \<not> panicked s \<and>
        s' = s\<lparr>uart_out := (if uart s then uart_out s @ cs else uart_out s), crt := m, crtc_pos := c\<rparr>)"

lemma printedI:
  "uint c < 24 * 80 \<Longrightarrow> \<not> panicked s \<Longrightarrow>
   s' = s\<lparr>uart_out := (if uart s then uart_out s @ cs else uart_out s), crt := m, crtc_pos := c\<rparr> \<Longrightarrow>
   printed cs s s'"
  unfolding printed_def by blast

lemma printedE:
  assumes "printed cs s s'"
  obtains m c where "uint c < 24 * 80" and "\<not> panicked s"
    and "s' = s\<lparr>uart_out := (if uart s then uart_out s @ cs else uart_out s), crt := m, crtc_pos := c\<rparr>"
  using assms unfolding printed_def by blast

lemma cursor_step:
  fixes pos :: int
  assumes "0 \<le> pos" and "pos < 1920"
  shows "pos + (80 - pos mod 80) \<le> 1920" and "0 < pos + (80 - pos mod 80)"
proof -
  have "pos + (80 - pos mod 80) = (pos div 80) * 80 + 80"
    using div_mult_mod_eq [of pos 80] by linarith
  moreover have "pos div 80 < 24" "0 \<le> pos div 80"
    using assms by presburger+
  ultimately show "pos + (80 - pos mod 80) \<le> 1920" "0 < pos + (80 - pos mod 80)"
    by linarith+
qed

definition only_screen :: "'a omach_scheme \<Rightarrow> 'a omach_scheme \<Rightarrow> bool" where
  "only_screen s s' \<longleftrightarrow>
     (\<exists>m c. uint c < 24 * 80 \<and> \<not> panicked s \<and> s' = s\<lparr>crt := m, crtc_pos := c\<rparr>)"

lemma cursor_end:
  assumes "0 \<le> pos" and "pos < 1920" and "\<not> panicked s"
  shows "only_screen s (s\<lparr>crt := m, crtc_pos := word_of_int pos\<rparr>)"
proof -
  have "uint (word_of_int pos :: u16) = pos"
    using assms by (simp add: uint_word_of_int_eq take_bit_int_eq_self)
  with assms show ?thesis
    unfolding only_screen_def by (intro exI [of _ m] exI [of _ "word_of_int pos"]) simp
qed

lemma cgaputc_run:
  assumes "screen_ok s"
  shows "\<exists>s'. cgaputc c s = Ret () s' \<and> only_screen s s'"
proof -
  define pos where "pos = uint (crtc_pos s)"
  have pos: "0 \<le> pos" "pos < 1920"
    using assms by (simp_all add: pos_def screen_ok_def)
  define pos1 where "pos1 = (if c = 10 then pos + (80 - pos mod 80)
    else if c = BACKSPACE then (if pos > 0 then pos - 1 else pos) else pos + 1)"
  define m1 where "m1 = (if c \<noteq> 10 \<and> c \<noteq> BACKSPACE
    then (crt s)(pos := ucast (c AND 0xFF) OR 0x0700) else crt s)"
  have pos1: "0 \<le> pos1" "pos1 \<le> 1920"
    using pos cursor_step [OF pos] by (auto simp: pos1_def)
  define pos2 where "pos2 = (if pos1 div 80 \<ge> 24 then pos1 - 80 else pos1)"
  define m2 where "m2 = (if pos1 div 80 \<ge> 24 then scroll_up (pos1 - 80) m1 else m1)"
  have "pos1 div 80 \<ge> 24 \<longleftrightarrow> pos1 \<ge> 1920"
    by presburger
  then have pos2: "0 \<le> pos2" "pos2 < 1920"
    using pos1 by (auto simp: pos2_def)
  have adv: "(if c = 10 then ret (pos + (80 - pos mod 80))
      else if c = BACKSPACE then ret (if pos > 0 then pos - 1 else pos)
      else seq (set_crt pos (ucast (c AND 0xFF) OR 0x0700)) (ret (pos + 1))) s = Ret pos1 (s\<lparr>crt := m1\<rparr>)"
    by (simp add: pos1_def m1_def run_simps set_crt_def)
  have scr: "(if pos1 div 80 \<ge> 24
      then seq (modify (\<lambda>s. s\<lparr>crt := scroll_up (pos1 - 80) (crt s)\<rparr>)) (ret (pos1 - 80))
      else ret pos1) (s\<lparr>crt := m1\<rparr>) = Ret pos2 (s\<lparr>crt := m2\<rparr>)"
    by (simp add: pos2_def m2_def run_simps)
  have range: "\<not> (pos1 < 0 \<or> pos1 > 25 * 80)"
    using pos1 by simp
  have "cgaputc c s = Ret () (s\<lparr>crt := m2(pos2 := 0x20 OR 0x0700), crtc_pos := word_of_int pos2\<rparr>)"
    unfolding cgaputc_def bind_run [of "gets _"] gets_run outcome.case pos_def [symmetric]
    unfolding bind_run [of "if c = 10 then _ else _"] adv outcome.case if_not_P [OF range]
    unfolding bind_run scr outcome.case
    by (simp add: run_simps set_crt_def)
  with cursor_end [OF pos2] assms show ?thesis
    by (auto simp: screen_ok_def)
qed

lemma uartputc_run [run_simps]:
  "uartputc c s = Ret () (if uart s then s\<lparr>uart_out := uart_out s @ [ucast c]\<rparr> else s)"
  by (simp add: uartputc_def run_simps)

definition echo :: "u32 \<Rightarrow> u8 list" where
  "echo c = (if c = BACKSPACE then [8, 0x20, 8] else [ucast c])"

lemma consputc_run:
  assumes "screen_ok s"
  shows "\<exists>s'. consputc c s = Ret () s' \<and> printed (echo c) s s'"
proof -
  let ?t = "if uart s then s\<lparr>uart_out := uart_out s @ echo c\<rparr> else s"
  have "screen_ok ?t" and "\<not> panicked s"
    using assms by (simp_all add: screen_ok_def)
  then obtain s' where s': "cgaputc c ?t = Ret () s'" "only_screen ?t s'"
    using cgaputc_run by blast
  have "consputc c s = cgaputc c ?t"
    using \<open>\<not> panicked s\<close> by (auto simp: consputc_def run_simps echo_def)
  moreover have "printed (echo c) s s'"
  proof -
    obtain m p where "uint p < 24 * 80" "s' = ?t\<lparr>crt := m, crtc_pos := p\<rparr>"
      using s'(2) unfolding only_screen_def by blast
    then show ?thesis
      using \<open>\<not> panicked s\<close> by (intro printedI [where c = p and m = m]) simp_all
  qed
  ultimately show ?thesis
    using s'(1) by auto
qed

lemma printed_refl: "screen_ok s \<Longrightarrow> printed [] s s"
  unfolding printed_def screen_ok_def by (intro exI [of _ "crt s"] exI [of _ "crtc_pos s"]) simp

lemma printed_screen: "printed cs s s' \<Longrightarrow> screen_ok s'"
  by (auto simp: printed_def screen_ok_def)

lemma printed_trans:
  assumes "printed cs s s'" and "printed ds s' s''"
  shows "printed (cs @ ds) s s''"
proof -
  obtain m c where p: "\<not> panicked s"
    "s' = s\<lparr>uart_out := (if uart s then uart_out s @ cs else uart_out s), crt := m, crtc_pos := c\<rparr>"
    using assms(1) by (rule printedE)
  obtain m' c' where q: "uint c' < 24 * 80"
    "s'' = s'\<lparr>uart_out := (if uart s' then uart_out s' @ ds else uart_out s'), crt := m', crtc_pos := c'\<rparr>"
    using assms(2) by (rule printedE)
  show ?thesis
    using p q by (intro printedI [where c = c' and m = m']) simp_all
qed

lemma echo_byte [simp]: "echo (ucast (c :: u8)) = [c]"
proof -
  have "unat (ucast c :: u32) < 256"
    using unsigned_less [of c, where ?'a = nat] by (simp add: unsigned_ucast_eq take_bit_nat_eq_self)
  then have "ucast c \<noteq> BACKSPACE"
    by (auto simp: word_unat_eq_iff)
  moreover have "ucast (ucast c :: u32) = c"
    by (rule bit_word_eqI) (simp add: bit_ucast_iff)
  ultimately show ?thesis
    by (simp add: echo_def)
qed

lemma putchars_run:
  assumes "screen_ok s"
  shows "\<exists>s'. putchars cs s = Ret () s' \<and> printed cs s s'"
  using assms
proof (induction cs arbitrary: s)
  case Nil
  then show ?case
    using printed_refl by (auto simp: putchars_def run_simps)
next
  case (Cons c cs)
  obtain s1 where s1: "consputc (ucast c) s = Ret () s1" "printed [c] s s1"
    using consputc_run [OF Cons.prems, of "ucast c"] by auto
  obtain s2 where s2: "putchars cs s1 = Ret () s2" "printed cs s1 s2"
    using Cons.IH [OF printed_screen [OF s1(2)]] by auto
  show ?case
    using s1 s2 printed_trans [OF s1(2) s2(2)] by (simp add: putchars_def run_simps)
qed

section \<open>What \<open>cprintf\<close> prints\<close>

text \<open>The text a format and its arguments stand for; \<open>None\<close> when arguments do not fit.\<close>

fun cformat :: "string \<Rightarrow> fmtarg list \<Rightarrow> u8 list option" where
  "cformat [] args = Some []"
| "cformat (c # fmt) args =
     (if c \<noteq> CHR ''%'' then map_option (\<lambda>t. byte c # t) (cformat fmt args)
      else
      (case fmt of
         [] \<Rightarrow> Some []
       | d # fmt' \<Rightarrow>
         if d = CHR ''d'' then
           (case args of Word w # args' \<Rightarrow> map_option (\<lambda>t. printint_chars w 10 True @ t) (cformat fmt' args') | _ \<Rightarrow> None)
         else if d = CHR ''x'' \<or> d = CHR ''p'' then
           (case args of Word w # args' \<Rightarrow> map_option (\<lambda>t. printint_chars w 16 False @ t) (cformat fmt' args') | _ \<Rightarrow> None)
         else if d = CHR ''s'' then
           (case args of
              Str s # args' \<Rightarrow>
                map_option (\<lambda>t. (case s of None \<Rightarrow> bytes ''(null)'' | Some cs \<Rightarrow> takeWhile (\<lambda>c. c \<noteq> 0) cs) @ t)
                  (cformat fmt' args')
            | _ \<Rightarrow> None)
         else if d = CHR ''%'' then map_option (\<lambda>t. byte d # t) (cformat fmt' args)
         else map_option (\<lambda>t. byte c # byte d # t) (cformat fmt' args)))"

text \<open>\<open>prints cs m\<close>: on a healthy screen \<open>m\<close> returns, having printed \<open>cs\<close> and done nothing else.\<close>

definition prints :: "u8 list \<Rightarrow> ('a omach_scheme, unit) op \<Rightarrow> bool" where
  "prints cs m \<longleftrightarrow> (\<forall>s. screen_ok s \<longrightarrow> (\<exists>s'. m s = Ret () s' \<and> printed cs s s'))"

lemma prints_seq:
  assumes "prints cs m" and "prints ds n" and "es = cs @ ds"
  shows "prints es (seq m n)"
  unfolding prints_def
proof (intro allI impI)
  fix s :: "'a omach_scheme"
  assume "screen_ok s"
  then obtain s1 where s1: "m s = Ret () s1" "printed cs s s1"
    using assms(1) by (auto simp: prints_def)
  obtain s' where "n s1 = Ret () s'" "printed ds s1 s'"
    using assms(2) printed_screen [OF s1(2)] by (auto simp: prints_def)
  with s1 printed_trans show "\<exists>s'. seq m n s = Ret () s' \<and> printed es s s'"
    unfolding assms(3) by (auto simp: run_simps)
qed

lemma prints_ret: "prints [] (ret ())"
  using printed_refl by (auto simp: prints_def run_simps)

lemma prints_byte: "prints [c] (consputc (ucast (c :: u8)))"
  using consputc_run [where c = "ucast c"] unfolding prints_def echo_byte by blast

lemma prints_putchars: "prints cs (putchars cs)"
  using putchars_run by (auto simp: prints_def)

lemma prints_printint: "prints (printint_chars w b g) (printint w b g)"
  unfolding printint_def by (rule prints_putchars)

lemma print_intros:
  "prints ds n \<Longrightarrow> prints (c # ds) (seq (consputc (ucast (c :: u8))) n)"
  "prints ds n \<Longrightarrow> prints (printint_chars w b g @ ds) (seq (printint w b g) n)"
  "prints ds n \<Longrightarrow> prints (cs @ ds) (seq (putchars cs) n)"
  by (rule prints_seq [OF prints_byte], assumption, simp)
    (rule prints_seq [OF prints_printint] prints_seq [OF prints_putchars], assumption, simp)+

lemma prints_cprintf_loop: "cformat fmt args = Some cs \<Longrightarrow> prints cs (cprintf_loop fmt args)"
proof (induction "length fmt" arbitrary: fmt args cs rule: less_induct)
  case less
  note IH = less.hyps
  show ?case
  proof (cases fmt)
    case Nil
    then show ?thesis
      using less.prems prints_ret by simp
  next
    case (Cons c fmt1)
    show ?thesis
    proof (cases "c \<noteq> CHR ''%'' \<or> fmt1 = []")
      case True
      then show ?thesis
        using less.prems Cons prints_ret IH [of fmt1 args] by (auto intro!: print_intros)
    next
      case False
      then obtain d fmt' where "fmt1 = d # fmt'"
        by (cases fmt1) auto
      then show ?thesis
        using False Cons less.prems IH [of fmt']
        by (auto split: list.splits fmtarg.splits if_splits intro!: print_intros)
    qed
  qed
qed


definition demo_omach :: omach where
  "demo_omach = \<lparr>mem = (\<lambda>_. 0), locks = (\<lambda>_. unlocked),
     mycpu = \<lparr>cpu_id = 0, ncli = 0, intena = False, iflag = False\<rparr>,
     uart = True, uart_out = [], crt = (\<lambda>_. 0), crtc_pos = 0, cons_locking = True, panicked = False\<rparr>"


section \<open>Digits\<close>

definition digits_value :: "nat \<Rightarrow> nat list \<Rightarrow> nat" where
  "digits_value base ds = foldr (\<lambda>d v. d + base * v) ds 0"

lemma digits_rev_value:
  assumes "2 \<le> base"
  shows "digits_value base (digits_rev base x) = x" and "\<forall>d \<in> set (digits_rev base x). d < base"
proof -
  have "digits_value base (digits_rev base x) = x \<and> (\<forall>d \<in> set (digits_rev base x). d < base)"
    using assms
  proof (induction base x rule: digits_rev.induct)
    case (1 base x)
    show ?case
    proof (cases "x < base")
      case True
      with 1 show ?thesis
        by (simp add: digits_rev.simps [of base x] digits_value_def)
    next
      case False
      with 1 show ?thesis
        by (simp add: digits_rev.simps [of base x] digits_value_def)
    qed
  qed
  then show "digits_value base (digits_rev base x) = x" "\<forall>d \<in> set (digits_rev base x). d < base"
    by simp_all
qed

section \<open>Invariants of the layers above\<close>

text \<open>
  A predicate of the kernel state that does not look at locks, processor and output devices survives locking and
  printing, however they end.
\<close>

locale above_output =
  fixes I :: "'a omach_scheme \<Rightarrow> bool"
  assumes I_locks [simp]: "I (s\<lparr>locks := k\<rparr>) = I s"
    and I_mycpu [simp]: "I (s\<lparr>mycpu := c\<rparr>) = I s"
    and I_uart_out [simp]: "I (s\<lparr>uart_out := u\<rparr>) = I s"
    and I_crt [simp]: "I (s\<lparr>crt := r\<rparr>) = I s"
    and I_crtc_pos [simp]: "I (s\<lparr>crtc_pos := n\<rparr>) = I s"
begin

lemma low_updates [keeps_intros]:
  "keeps I (set_lock l f1)" "keeps I (set_cpu f2)" "keeps I (set_crt i v)"
  "keeps I (modify (\<lambda>s. s\<lparr>uart_out := f5 s\<rparr>))" "keeps I (modify (\<lambda>s. s\<lparr>crt := f6 s\<rparr>))"
  "keeps I (modify (\<lambda>s. s\<lparr>crtc_pos := f7 s\<rparr>))" "keeps I (spin l)"
  by (simp_all add: keeps_def set_lock_def set_cpu_def set_crt_def modify_def spin_def)

lemma keeps_locking [keeps_intros]:
  "keeps I pushcli" "keeps I popcli" "keeps I sti" "keeps I cli" "keeps I (xchg l v)"
  "keeps I (acquire l)" "keeps I (release l)"
  unfolding pushcli_def popcli_def sti_def cli_def xchg_def acquire_def release_def readeflags_if_def
  by (intro keeps_intros)+

lemma keeps_output [keeps_intros]:
  "keeps I (uartputc w)" "keeps I (cgaputc w)" "keeps I (consputc w)" "keeps I (putchars cs)"
  "keeps I (printint w b g)"
  unfolding uartputc_def cgaputc_def consputc_def putchars_def printint_def
  by (intro keeps_intros)+

lemma keeps_cprintf_loop: "keeps I (cprintf_loop fmt args)"
proof (induction "length fmt" arbitrary: fmt args rule: less_induct)
  case less
  show ?case
  proof (cases fmt)
    case Nil
    then show ?thesis
      by (simp add: keeps_ret)
  next
    case (Cons c fmt')
    show ?thesis
      unfolding Cons cprintf_loop.simps by (intro keeps_intros less) (simp_all add: Cons)
  qed
qed

lemma keeps_cprintf [keeps_intros]: "keeps I (cprintf fmt args)"
  unfolding cprintf_def by (intro keeps_intros keeps_cprintf_loop)

end

end
