(* ===== verification/Kalloc.thy ===== *)
theory Kalloc
  imports Printk
begin

text \<open>
  The physical page allocator (\<open>src/kalloc.c\<close>). The free list is threaded through the free pages
  themselves: the first word of a free page holds the address of the next one. \<open>free_list\<close> relates
  the memory to the list of free pages it represents; \<open>kalloc\<close> and \<open>kfree\<close> are proved to be pop and
  push on that list, through the interface \<open>page_pool\<close> that clients of the allocator use. The
  linker symbol \<open>end\<close> is the constant field \<open>kend\<close>.
\<close>

section \<open>State and operations\<close>

record kmach = omach +
  kend :: u32
  use_lock :: bool
  freelist :: u32

definition bad_page :: "u32 \<Rightarrow> u32 \<Rightarrow> bool" where
  "bad_page e v \<longleftrightarrow> v mod PGSIZE \<noteq> 0 \<or> v < e \<or> v2p v \<ge> PHYSTOP"

definition kfree :: "u32 \<Rightarrow> ('a kmach_scheme, unit) op" where
  "kfree v =
     bind (gets kend) (\<lambda>e.
     if bad_page e v then panic ''kfree''
     else
     seq (modify (\<lambda>s. s\<lparr>mem := memset v 1 PGSIZE (mem s)\<rparr>))
    (bind (gets use_lock) (\<lambda>lk.
     seq (whenM lk (acquire KmemLock))
    (seq (modify (\<lambda>s. s\<lparr>mem := store32 (mem s) v (freelist s)\<rparr>))
    (seq (modify (\<lambda>s. s\<lparr>freelist := v\<rparr>))
         (whenM lk (release KmemLock)))))))"

definition kalloc :: "('a kmach_scheme, u32) op" where
  "kalloc =
     bind (gets use_lock) (\<lambda>lk.
     seq (whenM lk (acquire KmemLock))
    (bind (gets freelist) (\<lambda>r.
     seq (whenM (r \<noteq> 0) (modify (\<lambda>s. s\<lparr>freelist := load32 (mem s) r\<rparr>)))
    (seq (whenM lk (release KmemLock))
         (ret r)))))"

text \<open>
  The address \<open>p\<close> of \<open>freerange\<close> could wrap around only after 1048576 pages, which is the fuel of the
  loop; \<open>kfree\<close> panics long before.
\<close>

fun freerange_loop :: "nat \<Rightarrow> u32 \<Rightarrow> u32 \<Rightarrow> ('a kmach_scheme, unit) op" where
  "freerange_loop 0 p vend = fault"
| "freerange_loop (Suc n) p vend =
     (if p + PGSIZE \<le> vend then seq (kfree p) (freerange_loop n (p + PGSIZE) vend) else ret ())"

definition freerange :: "u32 \<Rightarrow> u32 \<Rightarrow> ('a kmach_scheme, unit) op" where
  "freerange vstart vend = freerange_loop 1048576 (PGROUNDUP vstart) vend"

definition kinit1 :: "u32 \<Rightarrow> u32 \<Rightarrow> ('a kmach_scheme, unit) op" where
  "kinit1 vstart vend =
     seq (initlock KmemLock)
    (seq (modify (\<lambda>s. s\<lparr>use_lock := False\<rparr>))
         (freerange vstart vend))"

definition kinit2 :: "u32 \<Rightarrow> u32 \<Rightarrow> ('a kmach_scheme, unit) op" where
  "kinit2 vstart vend = seq (freerange vstart vend) (modify (\<lambda>s. s\<lparr>use_lock := True\<rparr>))"

section \<open>The free list in memory\<close>

fun free_list :: "memory \<Rightarrow> u32 \<Rightarrow> u32 list \<Rightarrow> bool" where
  "free_list m p [] \<longleftrightarrow> p = 0"
| "free_list m p (q # qs) \<longleftrightarrow> p = q \<and> p \<noteq> 0 \<and> free_list m (load32 m p) qs"

definition in_page :: "u32 \<Rightarrow> u32 \<Rightarrow> bool" where
  "in_page p x \<longleftrightarrow> x - p < PGSIZE"

definition pool_ok :: "'a kmach_scheme \<Rightarrow> u32 list \<Rightarrow> bool" where
  "pool_ok s ps \<longleftrightarrow>
     free_list (mem s) (freelist s) ps \<and> distinct ps \<and> (\<forall>p \<in> set ps. \<not> bad_page (kend s) p) \<and>
     cpu_ok (mycpu s) \<and> locks s KmemLock = unlocked"

lemma in_page_div:
  assumes "p mod PGSIZE = 0"
  shows "in_page p x \<longleftrightarrow> unat x div 4096 = unat p div 4096"
proof -
  obtain k where k: "unat p = 4096 * k"
    using assms unat_mod [of p 4096] by (auto simp: mod_eq_0_iff_dvd elim: dvdE)
  show ?thesis
  proof (cases "p \<le> x")
    case True
    then have "unat (x - p) = unat x - unat p" and "unat p \<le> unat x"
      by (simp_all add: unat_sub word_le_nat_alt)
    then show ?thesis
      using k by (auto simp: in_page_def word_less_nat_alt div_eq_bounds)
  next
    case False
    then have lt: "unat x < unat p"
      by (simp add: word_le_nat_alt)
    have "unat (x - p) = unat x + 4294967296 - unat p"
      using unat_sub_if' [of x p] lt by (simp only:) (simp add: not_le)
    moreover have "k \<le> 1048575"
      using k unat32_less [of p] by simp
    ultimately have "\<not> in_page p x"
      using k by (simp add: in_page_def word_less_nat_alt)
    moreover have "unat x div 4096 \<noteq> unat p div 4096"
      using lt k by (auto simp: div_eq_bounds)
    ultimately show ?thesis by simp
  qed
qed

lemma page_disjoint:
  assumes "p mod PGSIZE = 0" and "q mod PGSIZE = 0" and "p \<noteq> q" and "in_page p x"
  shows "\<not> in_page q x"
proof
  assume "in_page q x"
  then have "unat p div 4096 = unat q div 4096"
    using assms in_page_div [of p x] in_page_div [of q x] by simp
  moreover have "unat p mod 4096 = 0" "unat q mod 4096 = 0"
    using assms(1,2) unat_mod [of p 4096] unat_mod [of q 4096] by simp_all
  ultimately have "unat p = unat q"
    by (metis div_mult_mod_eq)
  with assms(3) show False
    by (simp add: word_unat_eq_iff)
qed

lemma in_page_small [simp]: "in_page p p" "in_page p (p + 1)" "in_page p (p + 2)" "in_page p (p + 3)"
  by (simp_all add: in_page_def)

lemma load32_page_cong:
  assumes "\<And>x. in_page p x \<Longrightarrow> m' x = m x"
  shows "load32 m' p = load32 m p"
  by (rule load32_cong) (simp_all add: assms)

lemma free_list_cong:
  assumes "free_list m p ps" and "\<And>q x. q \<in> set ps \<Longrightarrow> in_page q x \<Longrightarrow> m' x = m x"
  shows "free_list m' p ps"
  using assms
proof (induction ps arbitrary: p)
  case Nil
  then show ?case by simp
next
  case (Cons q qs)
  then have "load32 m' p = load32 m p"
    by (intro load32_page_cong) auto
  with Cons show ?case by auto
qed

lemma free_list_head: "free_list m p ps \<Longrightarrow> p = (case ps of [] \<Rightarrow> 0 | q # _ \<Rightarrow> q)"
  by (cases ps) auto

lemma store32_outside_page: "\<not> in_page p x \<Longrightarrow> store32 m p v x = m x"
proof -
  assume "\<not> in_page p x"
  then have "x \<noteq> p" "x \<noteq> p + 1" "x \<noteq> p + 2" "x \<noteq> p + 3"
    using in_page_small [of p] by auto
  then show ?thesis by (simp add: store32_def)
qed

lemma bad_page_mod: "\<not> bad_page e p \<Longrightarrow> p mod PGSIZE = 0"
  by (simp add: bad_page_def)

lemma good_pages_disjoint:
  "\<not> bad_page e p \<Longrightarrow> \<not> bad_page e q \<Longrightarrow> p \<noteq> q \<Longrightarrow> in_page p x \<Longrightarrow> \<not> in_page q x"
  using page_disjoint bad_page_mod by blast

lemma page_kernel: "\<not> bad_page e p \<Longrightarrow> KERNBASE \<le> p"
proof (rule ccontr)
  assume ok: "\<not> bad_page e p" and "\<not> KERNBASE \<le> p"
  then have "unat p < 2147483648"
    by (simp add: word_le_nat_alt)
  then have "unat (p - KERNBASE) = unat p + 2147483648"
    using unat_sub_if' [of p KERNBASE] by (simp only:) simp
  with ok show False
    by (simp add: bad_page_def v2p_def word_less_nat_alt word_le_nat_alt)
qed

lemma page_nonzero: "\<not> bad_page e p \<Longrightarrow> p \<noteq> 0"
  using page_kernel [of e p] by (auto simp: word_le_nat_alt)

section \<open>Executing the operations\<close>

text \<open>The state after a (possibly unlocked) critical section of the allocator.\<close>

definition ksettled :: "'a kmach_scheme \<Rightarrow> 'a kmach_scheme" where
  "ksettled s = (if use_lock s then settled s else s)"

lemma ksettled_sel [simp]:
  "mem (ksettled s) = mem s" "locks (ksettled s) = locks s" "freelist (ksettled s) = freelist s"
  "kend (ksettled s) = kend s" "use_lock (ksettled s) = use_lock s"
  "cpu_ok (mycpu (ksettled s)) \<longleftrightarrow> cpu_ok (mycpu s)"
  by (simp_all add: ksettled_def settled_def)

definition pushed :: "u32 \<Rightarrow> 'a kmach_scheme \<Rightarrow> 'a kmach_scheme" where
  "pushed v s =
     (ksettled s)\<lparr>mem := store32 (memset v 1 PGSIZE (mem s)) v (freelist s), freelist := v\<rparr>"

definition popped :: "'a kmach_scheme \<Rightarrow> 'a kmach_scheme" where
  "popped s = (ksettled s)\<lparr>freelist := (if freelist s = 0 then 0 else load32 (mem s) (freelist s))\<rparr>"

lemma fun_upd_same_back: "f k = v \<Longrightarrow> f(k := w, k := v) = f"
  by auto

lemma kfree_run:
  assumes "calm KmemLock s"
  shows "kfree v s = (if bad_page (kend s) v then Panic ''kfree'' else Ret () (pushed v s))"
proof (cases "use_lock s")
  case True
  with assms show ?thesis
    by (simp add: kfree_def run_simps calm_def release_acquired acquired_def pushed_def ksettled_def
        settled_def locked_by_def fun_upd_idem)
next
  case False
  with assms show ?thesis
    by (simp add: kfree_def run_simps pushed_def ksettled_def)
qed

lemma kalloc_run:
  assumes "calm KmemLock s"
  shows "kalloc s = Ret (freelist s) (popped s)"
proof (cases "use_lock s")
  case True
  with assms show ?thesis
    by (simp add: kalloc_def run_simps calm_def release_acquired acquired_def popped_def ksettled_def
        settled_def locked_by_def fun_upd_idem)
next
  case False
  with assms show ?thesis
    by (simp add: kalloc_def run_simps popped_def ksettled_def)
qed

section \<open>Pop and push\<close>

lemma pool_calm: "pool_ok s ps \<Longrightarrow> calm KmemLock s"
  by (simp add: pool_ok_def calm_def)

lemma pushed_mem: "\<not> in_page v x \<Longrightarrow> mem (pushed v s) x = mem s x"
  by (simp add: pushed_def store32_outside_page memset_spec in_page_def)

lemma pool_pushed:
  assumes "pool_ok s ps" and "\<not> bad_page (kend s) v" and "v \<notin> set ps"
  shows "pool_ok (pushed v s) (v # ps)"
proof -
  have "free_list (mem (pushed v s)) (freelist s) ps"
  proof (rule free_list_cong)
    show "free_list (mem s) (freelist s) ps"
      using assms(1) by (simp add: pool_ok_def)
    fix q x
    assume "q \<in> set ps" "in_page q x"
    then have "\<not> in_page v x"
      using assms good_pages_disjoint [of "kend s" q v x] by (auto simp: pool_ok_def)
    then show "mem (pushed v s) x = mem s x"
      by (rule pushed_mem)
  qed
  moreover have "freelist (pushed v s) = v" "load32 (mem (pushed v s)) v = freelist s"
    by (simp_all add: pushed_def)
  ultimately show ?thesis
    using assms page_nonzero [OF assms(2)] by (simp add: pool_ok_def pushed_def)
qed

lemma pool_popped: "pool_ok s (p # ps) \<Longrightarrow> pool_ok (popped s) ps"
  by (auto simp: pool_ok_def popped_def)

lemma pool_head: "pool_ok s (p # ps) \<Longrightarrow> freelist s = p"
  by (simp add: pool_ok_def)

lemma popped_kend [simp]: "kend (popped s) = kend s"
  by (simp add: popped_def)

lemma pool_popped_empty: "pool_ok s [] \<Longrightarrow> pool_ok (popped s) []"
  by (auto simp: pool_ok_def popped_def)

section \<open>The interface of the allocator\<close>

text \<open>
  What clients rely on: a pool of pages, represented by a list, from which \<open>alloc\<close> takes the
  first page (or answers \<open>null\<close> when there is none) and to which \<open>free\<close> adds a page.
\<close>

locale page_pool =
  fixes alloc :: "('s, 'p) op" and free :: "'p \<Rightarrow> ('s, unit) op" and null :: 'p
    and pool :: "'s \<Rightarrow> 'p list \<Rightarrow> bool" and page :: "'s \<Rightarrow> 'p \<Rightarrow> bool"
  assumes alloc_none: "pool s [] \<Longrightarrow> \<exists>s'. alloc s = Ret null s' \<and> pool s' []"
    and alloc_some: "pool s (p # ps) \<Longrightarrow> \<exists>s'. alloc s = Ret p s' \<and> pool s' ps \<and> page s' = page s"
    and free_page: "pool s ps \<Longrightarrow> page s p \<Longrightarrow> p \<notin> set ps \<Longrightarrow> \<exists>s'. free p s = Ret () s' \<and> pool s' (p # ps)"
    and pool_pages: "pool s ps \<Longrightarrow> distinct ps \<and> null \<notin> set ps \<and> (\<forall>p \<in> set ps. page s p)"
begin

lemma alloc_free:
  assumes "pool s (p # ps)"
  shows "\<exists>s' s''. alloc s = Ret p s' \<and> free p s' = Ret () s'' \<and> pool s'' (p # ps)"
proof -
  obtain s' where s': "alloc s = Ret p s'" "pool s' ps" "page s' = page s"
    using alloc_some [OF assms] by blast
  moreover have "page s' p" "p \<notin> set ps"
    using pool_pages [OF assms] s'(3) by simp_all
  ultimately show ?thesis
    using free_page [of s' ps p] by blast
qed

lemma free_alloc:
  assumes "pool s ps" and "page s p" and "p \<notin> set ps"
  shows "\<exists>s' s''. free p s = Ret () s' \<and> alloc s' = Ret p s'' \<and> pool s'' ps"
  using free_page [OF assms] alloc_some by metis

lemma alloc_repeat:
  assumes "pool s ps" and "n \<le> length ps"
  shows "\<exists>s'. repeatM n alloc s = Ret (take n ps) s' \<and> pool s' (drop n ps)"
  using assms
proof (induction n arbitrary: s ps)
  case 0
  then show ?case by (simp add: run_simps)
next
  case (Suc n)
  then obtain p qs where ps: "ps = p # qs"
    by (cases ps) auto
  then obtain s1 where "alloc s = Ret p s1" "pool s1 qs"
    using alloc_some Suc.prems(1) by blast
  moreover obtain s2 where "repeatM n alloc s1 = Ret (take n qs) s2" "pool s2 (drop n qs)"
    using Suc.IH [of s1 qs] calculation Suc.prems(2) ps by auto
  ultimately show ?case
    using ps by (simp add: run_simps)
qed

lemma alloc_distinct:
  assumes "pool s ps" and "n \<le> length ps"
  shows "\<exists>qs rest s'. repeatM n alloc s = Ret qs s' \<and> pool s' rest \<and> length qs = n \<and>
    ps = qs @ rest \<and> distinct (qs @ rest) \<and> null \<notin> set qs"
  using alloc_repeat [OF assms] pool_pages [OF assms(1)] assms(2)
  by (intro exI [of _ "take n ps"] exI [of _ "drop n ps"]) (auto dest: in_set_takeD)

end

interpretation kpool: page_pool kalloc kfree 0 pool_ok "\<lambda>s p. \<not> bad_page (kend s) p"
proof unfold_locales
  fix s :: "'a kmach_scheme" and p :: u32 and ps
  show "pool_ok s [] \<Longrightarrow> \<exists>s'. kalloc s = Ret 0 s' \<and> pool_ok s' []"
    using kalloc_run [OF pool_calm, of s "[]"] pool_popped_empty [of s]
    by (simp add: pool_ok_def)
  show "pool_ok s (p # ps) \<Longrightarrow> \<exists>s'. kalloc s = Ret p s' \<and> pool_ok s' ps \<and>
      (\<lambda>p. \<not> bad_page (kend s') p) = (\<lambda>p. \<not> bad_page (kend s) p)"
    using kalloc_run [OF pool_calm, of s "p # ps"] pool_popped [of s p ps] pool_head [of s p ps]
    by (intro exI [of _ "popped s"]) simp
  show "pool_ok s ps \<Longrightarrow> \<not> bad_page (kend s) p \<Longrightarrow> p \<notin> set ps \<Longrightarrow>
      \<exists>s'. kfree p s = Ret () s' \<and> pool_ok s' (p # ps)"
    using kfree_run [OF pool_calm, of s ps p] pool_pushed [of s ps p] by simp
  show "pool_ok s ps \<Longrightarrow> distinct ps \<and> 0 \<notin> set ps \<and> (\<forall>p \<in> set ps. \<not> bad_page (kend s) p)"
    using page_nonzero by (auto simp: pool_ok_def)
qed

section \<open>Filling the pool\<close>

definition page_range :: "u32 \<Rightarrow> nat \<Rightarrow> u32 list" where
  "page_range p n = map (\<lambda>i. p + of_nat i * PGSIZE) [0..<n]"

lemma page_range_Suc: "page_range p (Suc n) = p # page_range (p + PGSIZE) n"
  by (simp add: page_range_def map_upt_Suc algebra_simps del: upt_Suc)

lemma page_range_0 [simp]: "page_range p 0 = []"
  by (simp add: page_range_def)

lemma page_range_unat:
  assumes "unat p + 4096 * n \<le> 4294967295" and "i < n"
  shows "unat (p + of_nat i * PGSIZE) = unat p + 4096 * i"
  using assms by (simp add: unat_word_ariths unat_of_nat)

lemma page_range_notin:
  assumes "unat p + 4096 * Suc n \<le> 4294967295"
  shows "p \<notin> set (page_range (p + PGSIZE) n)"
proof
  assume "p \<in> set (page_range (p + PGSIZE) n)"
  then obtain i where "i < n" and "p = p + of_nat (Suc i) * PGSIZE"
    by (auto simp: page_range_def algebra_simps)
  then show False
    using page_range_unat [OF assms, of "Suc i"] by simp
qed

lemma freerange_loop_pages:
  assumes "pool_ok s ps" and "set (page_range p n) \<inter> set ps = {}" and "n < fuel"
    and "\<forall>q \<in> set (page_range p n). \<not> bad_page (kend s) q"
    and "unat p + 4096 * n \<le> unat vend" and "unat vend < unat p + 4096 * Suc n"
    and "unat vend \<le> 4294963199"
  shows "\<exists>s'. freerange_loop fuel p vend s = Ret () s' \<and> pool_ok s' (rev (page_range p n) @ ps) \<and>
    use_lock s' = use_lock s"
  using assms
proof (induction n arbitrary: s ps p fuel)
  case 0
  then have "\<not> p + PGSIZE \<le> vend"
    by (simp add: word_le_nat_alt unat_word_ariths)
  with 0 show ?case
    by (cases fuel) (simp_all add: run_simps)
next
  case (Suc n)
  obtain k where k: "fuel = Suc k" "n < k"
    using Suc.prems(3) by (cases fuel) auto
  have up: "unat (p + PGSIZE) = unat p + 4096"
    using Suc.prems(5,7) by (simp add: unat_word_ariths)
  then have le: "p + PGSIZE \<le> vend"
    using Suc.prems(5) by (simp add: word_le_nat_alt)
  have notin: "p \<notin> set (page_range (p + PGSIZE) n)"
    using Suc.prems(5,7) by (intro page_range_notin) linarith
  have good: "\<not> bad_page (kend s) p" and new: "p \<notin> set ps"
    using Suc.prems(2,4) by (auto simp: page_range_Suc)
  let ?t = "pushed p s"
  have t: "pool_ok ?t (p # ps)" "kend ?t = kend s" "use_lock ?t = use_lock s"
    using pool_pushed [OF Suc.prems(1) good new] by (simp_all add: pushed_def)
  have "\<exists>s'. freerange_loop k (p + PGSIZE) vend ?t = Ret () s' \<and>
      pool_ok s' (rev (page_range (p + PGSIZE) n) @ p # ps) \<and> use_lock s' = use_lock ?t"
  proof (rule Suc.IH)
    show "set (page_range (p + PGSIZE) n) \<inter> set (p # ps) = {}"
      using Suc.prems(2) notin by (auto simp: page_range_Suc)
    show "\<forall>q \<in> set (page_range (p + PGSIZE) n). \<not> bad_page (kend ?t) q"
      using Suc.prems(4) t(2) by (simp add: page_range_Suc)
  qed (use t k up Suc.prems(5-7) in auto)
  then show ?case
    using k le good kfree_run [OF pool_calm [OF Suc.prems(1)], of p] t(3)
    by (simp add: run_simps page_range_Suc)
qed

lemma good_pageI:
  assumes "unat q mod 4096 = 0" and "unat e \<le> unat q" and "2147483648 \<le> unat q" and "unat q < 2382364672"
  shows "\<not> bad_page e q"
proof -
  have "q mod 4096 = 0"
    using assms(1) by (simp add: word_unat_eq_iff unat_mod)
  moreover have "unat (v2p q) = unat q - 2147483648"
    using assms(3) unat_sub [of KERNBASE q] by (simp add: v2p_def word_le_nat_alt)
  ultimately show ?thesis
    using assms by (simp add: bad_page_def word_le_nat_alt word_less_nat_alt)
qed

lemma PGROUNDUP_ge:
  assumes "unat a \<le> 2 ^ 32 - 4096"
  shows "unat a \<le> unat (PGROUNDUP a)" and "unat (PGROUNDUP a) mod 4096 = 0"
proof -
  have "unat a + 4095 < ((unat a + 4095) div 4096) * 4096 + 4096"
    using div_eq_bounds [of 4096 "unat a + 4095" "(unat a + 4095) div 4096"] by simp
  then show "unat a \<le> unat (PGROUNDUP a)"
    using unat_PGROUNDUP [OF assms] by simp
  show "unat (PGROUNDUP a) mod 4096 = 0"
    using unat_PGROUNDUP [OF assms] by simp
qed

lemma page_range_within:
  assumes "unat p mod 4096 = 0" and "unat p + 4096 * n \<le> unat vend" and "q \<in> set (page_range p n)"
  shows "p \<le> q" and "q < vend" and "unat q mod 4096 = 0"
proof -
  obtain i where i: "i < n" "q = p + of_nat i * PGSIZE"
    using assms(3) by (auto simp: page_range_def)
  then have "unat q = unat p + 4096 * i"
    using page_range_unat [of p n i] assms(2) unat32_less [of vend] by simp
  then show "p \<le> q" "q < vend" "unat q mod 4096 = 0"
    using i(1) assms(1,2) by (simp_all add: word_le_nat_alt word_less_nat_alt)
qed

lemma freerange_pages:
  assumes pool: "pool_ok s ps" and "kend s \<le> vstart" and "KERNBASE \<le> vstart" and "vstart \<le> vend"
    and le: "PGROUNDUP vstart \<le> vend" and top: "vend \<le> KERNBASE + PHYSTOP"
    and new: "\<forall>q \<in> set ps. \<not> (PGROUNDUP vstart \<le> q \<and> q < vend)"
    and n: "n = (unat vend - unat (PGROUNDUP vstart)) div 4096"
  shows "\<exists>s'. freerange vstart vend s = Ret () s' \<and>
    pool_ok s' (rev (page_range (PGROUNDUP vstart) n) @ ps) \<and> use_lock s' = use_lock s"
proof -
  let ?p = "PGROUNDUP vstart"
  have top': "unat vend \<le> 2382364672" and le': "unat ?p \<le> unat vend"
    using top le by (simp_all add: word_le_nat_alt)
  have bounds: "unat ?p + 4096 * n \<le> unat vend" "unat vend < unat ?p + 4096 * Suc n"
    using le' n div_eq_bounds [of 4096 "unat vend - unat ?p" n] by auto
  have start: "2147483648 \<le> unat vstart" "unat (kend s) \<le> unat vstart" "unat vstart \<le> unat vend"
    using assms(2-4) by (simp_all add: word_le_nat_alt)
  then have "unat vstart \<le> 2 ^ 32 - 4096"
    using top' by simp
  note p = PGROUNDUP_ge [OF this]
  note within = page_range_within [OF p(2) bounds(1)]
  have "n < 1048576"
    using bounds(1) top' by linarith
  show ?thesis
    unfolding freerange_def
  proof (rule freerange_loop_pages [OF pool _ \<open>n < 1048576\<close> _ bounds])
    show "set (page_range ?p n) \<inter> set ps = {}"
      using new within(1,2) by blast
    show "\<forall>q \<in> set (page_range ?p n). \<not> bad_page (kend s) q"
    proof
      fix q
      assume q: "q \<in> set (page_range ?p n)"
      then have "unat ?p \<le> unat q" "unat q < unat vend"
        using within(1,2) by (simp_all add: word_le_nat_alt word_less_nat_alt)
      then show "\<not> bad_page (kend s) q"
        using within(3) [OF q] p(1) start top' by (intro good_pageI) linarith+
    qed
  qed (use top' in simp)
qed

section \<open>What the allocator guarantees\<close>

definition demo_kmach :: kmach where
  "demo_kmach = \<lparr>mem = (\<lambda>_. 0), locks = (\<lambda>_. unlocked),
     mycpu = \<lparr>cpu_id = 0, ncli = 0, intena = False, iflag = False\<rparr>,
     uart = True, uart_out = [], crt = (\<lambda>_. 0), crtc_pos = 0, cons_locking = True, panicked = False,
     kend = 0x80100000, use_lock = True, freelist = 0\<rparr>"

lemma demo_pool: "pool_ok demo_kmach []"
  by (simp add: pool_ok_def demo_kmach_def cpu_ok_def)

text \<open>
  The pages \<open>freerange\<close> puts on the free list. Called on an interval above the kernel image
  and below \<open>PHYSTOP\<close> that holds no page of the list yet, it returns, and the free list then holds
  exactly the whole pages of the interval in front of the pages it held before, with the list
  well-formed in memory.
\<close>

theorem freerange_fills:
  assumes "pool_ok s ps" and "kend s \<le> vstart" and "KERNBASE \<le> vstart" and "vstart \<le> vend"
    and "PGROUNDUP vstart \<le> vend" and "vend \<le> KERNBASE + PHYSTOP"
    and "\<forall>q \<in> set ps. \<not> (PGROUNDUP vstart \<le> q \<and> q < vend)"
  shows "\<exists>s'. freerange vstart vend s = Ret () s' \<and>
    pool_ok s' (rev (page_range (PGROUNDUP vstart) ((unat vend - unat (PGROUNDUP vstart)) div 4096)) @ ps)"
  using freerange_pages [OF assms refl] by blast

theorem freerange_fills_witness:
  "\<exists>s'. freerange 0x80100001 0x80103000 demo_kmach = Ret () s' \<and> pool_ok s' [0x80102000, 0x80101000]"
proof -
  have "PGROUNDUP 0x80100001 = 0x80101000"
    by (simp add: PGROUNDUP_def)
  moreover have "kend demo_kmach = 0x80100000"
    by (simp add: demo_kmach_def)
  ultimately show ?thesis
    using freerange_fills [OF demo_pool, of "0x80100001" "0x80103000"]
    by (simp add: page_range_def upt_rec)
qed

text \<open>
  C16: \<open>kalloc\<close> never hands out a page twice. Any number of calls up to the length of the free list
  return pairwise different, non-null pages, none of which is on the list that remains.
\<close>

theorem kalloc_distinct:
  assumes "pool_ok s ps" and "n \<le> length ps"
  shows "\<exists>qs rest s'. repeatM n kalloc s = Ret qs s' \<and> pool_ok s' rest \<and> length qs = n \<and>
    ps = qs @ rest \<and> distinct (qs @ rest) \<and> 0 \<notin> set qs"
  using assms by (rule kpool.alloc_distinct)

theorem kalloc_distinct_witness:
  "\<exists>(s :: kmach) s'. pool_ok s [0x80102000, 0x80101000] \<and> repeatM 2 kalloc s = Ret [0x80102000, 0x80101000] s'"
proof -
  have "\<not> bad_page 0x80100000 0x80101000" "\<not> bad_page 0x80100000 0x80102000"
    by (simp_all add: bad_page_def v2p_def)
  then have "pool_ok (pushed 0x80102000 (pushed 0x80101000 demo_kmach)) [0x80102000, 0x80101000]"
    by (intro pool_pushed demo_pool) (simp_all add: pushed_def demo_kmach_def)
  moreover from kalloc_distinct [OF this, of 2]
  have "\<exists>s'. repeatM 2 kalloc (pushed 0x80102000 (pushed 0x80101000 demo_kmach)) =
      Ret [0x80102000, 0x80101000] s'"
    by (auto simp: append_eq_Cons_conv Cons_eq_append_conv)
  ultimately show ?thesis by blast
qed

text \<open>
  C17: \<open>kfree\<close> then \<open>kalloc\<close>. Freeing a legal page that is not on the free list returns and the
  next \<open>kalloc\<close> returns that page; the free list is again what it was, and no byte outside the page
  changed. Freeing an address that is unaligned, inside the kernel image or beyond \<open>PHYSTOP\<close>
  panics.
\<close>

theorem kfree_kalloc:
  assumes "pool_ok s ps" and "v \<notin> set ps"
  shows "if bad_page (kend s) v then kfree v s = Panic ''kfree''
    else \<exists>s' s''. kfree v s = Ret () s' \<and> kalloc s' = Ret v s'' \<and> pool_ok s'' ps \<and>
      (\<forall>x. in_page v x \<or> mem s'' x = mem s x)"
proof (cases "bad_page (kend s) v")
  case True
  then show ?thesis
    using kfree_run [OF pool_calm [OF assms(1)], of v] by simp
next
  case False
  let ?s' = "pushed v s"
  have s': "pool_ok ?s' (v # ps)"
    using pool_pushed [OF assms(1) False assms(2)] .
  have "kalloc ?s' = Ret v (popped ?s')" "pool_ok (popped ?s') ps" "mem (popped ?s') = mem ?s'"
    using kalloc_run [OF pool_calm [OF s']] pool_head [OF s'] pool_popped [OF s']
    by (simp_all add: popped_def)
  then show ?thesis
    using False kfree_run [OF pool_calm [OF assms(1)], of v] pushed_mem [of v _ s] by auto
qed

theorem kfree_kalloc_witness:
  "\<exists>s' s''. kfree 0x80200000 demo_kmach = Ret () s' \<and> kalloc s' = Ret 0x80200000 s'' \<and> pool_ok s'' []"
proof -
  have "\<not> bad_page (kend demo_kmach) 0x80200000"
    by (simp add: bad_page_def v2p_def demo_kmach_def)
  with kfree_kalloc [OF demo_pool, of "0x80200000"] show ?thesis by auto
qed

end
