(* ===== verification/Vm.thy ===== *)
theory Vm
  imports Kalloc
begin

text \<open>
  Page tables (\<open>src/vm.c\<close>, \<open>src/mmu.h\<close>). A page directory and its page tables are pages of kernel
  memory; the operations read and write them there. \<open>pt_entry\<close> is what the paging hardware sees:
  the entry that a page directory holds for a virtual address, 0 where there is no page table.
  \<open>walkpgdir\<close> is proved to give the address of exactly that entry, which makes every other
  operation an update of the map \<open>pt_entry\<close>. \<open>loaduvm\<close>, which reads a file, is in theory \<open>Exec\<close>.
\<close>

section \<open>State and operations\<close>

record vmach = kmach +
  kdata :: u32
  kpgdir :: u32
  cr3 :: u32
  ts_ss0 :: u32
  ts_esp0 :: u32

definition walkpgdir :: "u32 \<Rightarrow> u32 \<Rightarrow> bool \<Rightarrow> ('a kmach_scheme, u32) op" where
  "walkpgdir pgdir va alloc =
     (let pde = pgdir + 4 * PDX va in
      bind (gets (\<lambda>s. load32 (mem s) pde)) (\<lambda>e.
      if e AND PTE_P \<noteq> 0 then ret (p2v (PTE_ADDR e) + 4 * PTX va)
      else if \<not> alloc then ret 0
      else bind kalloc (\<lambda>pgtab.
        if pgtab = 0 then ret 0
        else
        seq (modify (\<lambda>s. s\<lparr>mem := memset pgtab 0 PGSIZE (mem s)\<rparr>))
       (seq (modify (\<lambda>s. s\<lparr>mem := store32 (mem s) pde (v2p pgtab OR PTE_P OR PTE_W OR PTE_U)\<rparr>))
            (ret (pgtab + 4 * PTX va))))))"

text \<open>
  The loop of \<open>mappages\<close> visits the pages from \<open>a\<close> to \<open>last\<close>, both page-aligned: one more than
  \<open>(last - a) / PGSIZE\<close> iterations (the address wraps around), which is its fuel.
\<close>

fun mappages_loop :: "nat \<Rightarrow> u32 \<Rightarrow> u32 \<Rightarrow> u32 \<Rightarrow> u32 \<Rightarrow> u32 \<Rightarrow> ('a kmach_scheme, int) op" where
  "mappages_loop 0 pgdir a alast pa perm = fault"
| "mappages_loop (Suc n) pgdir a alast pa perm =
     bind (walkpgdir pgdir a True) (\<lambda>pte.
     if pte = 0 then ret (- 1)
     else
     bind (gets (\<lambda>s. load32 (mem s) pte)) (\<lambda>e.
     if e AND PTE_P \<noteq> 0 then panic ''remap''
     else
     seq (modify (\<lambda>s. s\<lparr>mem := store32 (mem s) pte (pa OR perm OR PTE_P)\<rparr>))
         (if a = alast then ret 0
          else mappages_loop n pgdir (a + PGSIZE) alast (pa + PGSIZE) perm)))"

definition mappages :: "u32 \<Rightarrow> u32 \<Rightarrow> u32 \<Rightarrow> u32 \<Rightarrow> u32 \<Rightarrow> ('a kmach_scheme, int) op" where
  "mappages pgdir va sz pa perm =
     (let a = PGROUNDDOWN va; alast = PGROUNDDOWN (va + sz - 1)
      in mappages_loop (Suc (unat ((alast - a) div PGSIZE))) pgdir a alast pa perm)"

record kmap_entry =
  virt :: u32
  phys_start :: u32
  phys_end :: u32
  kperm :: u32

definition kmap :: "u32 \<Rightarrow> kmap_entry list" where
  "kmap data =
     [\<lparr>virt = KERNBASE, phys_start = 0, phys_end = EXTMEM, kperm = PTE_W\<rparr>,
      \<lparr>virt = KERNLINK, phys_start = v2p KERNLINK, phys_end = v2p data, kperm = 0\<rparr>,
      \<lparr>virt = data, phys_start = v2p data, phys_end = PHYSTOP, kperm = PTE_W\<rparr>,
      \<lparr>virt = DEVSPACE, phys_start = DEVSPACE, phys_end = 0, kperm = PTE_W\<rparr>]"

fun setupkvm_loop :: "kmap_entry list \<Rightarrow> u32 \<Rightarrow> ('a kmach_scheme, u32) op" where
  "setupkvm_loop [] pgdir = ret pgdir"
| "setupkvm_loop (k # ks) pgdir =
     bind (mappages pgdir (virt k) (phys_end k - phys_start k) (phys_start k) (kperm k)) (\<lambda>r.
     if r < 0 then ret 0 else setupkvm_loop ks pgdir)"

definition setupkvm :: "('a vmach_scheme, u32) op" where
  "setupkvm =
     bind kalloc (\<lambda>pgdir.
     if pgdir = 0 then ret 0
     else
     seq (modify (\<lambda>s. s\<lparr>mem := memset pgdir 0 PGSIZE (mem s)\<rparr>))
         (if p2v PHYSTOP > DEVSPACE then panic ''PHYSTOP too high''
          else bind (gets kdata) (\<lambda>d. setupkvm_loop (kmap d) pgdir)))"

definition switchkvm :: "('a vmach_scheme, unit) op" where
  "switchkvm = modify (\<lambda>s. s\<lparr>cr3 := v2p (kpgdir s)\<rparr>)"

definition kvmalloc :: "('a vmach_scheme, unit) op" where
  "kvmalloc = bind setupkvm (\<lambda>pgdir. seq (modify (\<lambda>s. s\<lparr>kpgdir := pgdir\<rparr>)) switchkvm)"

text \<open>
  \<open>switchuvm\<close> points the task state segment at the current process's kernel stack and loads the
  page directory of the process switched to; the constant descriptor of the segment is left out.
\<close>

definition switchuvm :: "u32 \<Rightarrow> u32 \<Rightarrow> ('a vmach_scheme, unit) op" where
  "switchuvm kstack pgdir =
     seq pushcli
    (seq (modify (\<lambda>s. s\<lparr>ts_ss0 := 2 * 8, ts_esp0 := kstack + KSTACKSIZE\<rparr>))
         (if pgdir = 0 then panic ''switchuvm: no pgdir''
          else seq (modify (\<lambda>s. s\<lparr>cr3 := v2p pgdir\<rparr>)) popcli))"

text \<open>\<open>inituvm\<close> does not check the page it allocates: a null page is written to.\<close>

definition inituvm :: "u32 \<Rightarrow> u32 \<Rightarrow> u32 \<Rightarrow> ('a kmach_scheme, unit) op" where
  "inituvm pgdir init sz =
     (if sz \<ge> PGSIZE then panic ''inituvm: more than a page''
      else
      bind kalloc (\<lambda>page.
      if page = 0 then fault
      else
      seq (modify (\<lambda>s. s\<lparr>mem := memset page 0 PGSIZE (mem s)\<rparr>))
     (bind (mappages pgdir 0 PGSIZE (v2p page) (PTE_W OR PTE_U)) (\<lambda>_.
      modify (\<lambda>s. s\<lparr>mem := memmove page init sz (mem s)\<rparr>)))))"

text \<open>
  Where no page table exists \<open>deallocuvm\<close> skips to the last page of its 4 MB. The fuel bounds the
  number of pages of an address space.
\<close>

fun deallocuvm_loop :: "nat \<Rightarrow> u32 \<Rightarrow> u32 \<Rightarrow> u32 \<Rightarrow> ('a kmach_scheme, unit) op" where
  "deallocuvm_loop 0 pgdir a oldsz = fault"
| "deallocuvm_loop (Suc n) pgdir a oldsz =
     (if a \<ge> oldsz then ret ()
      else
      bind (walkpgdir pgdir a False) (\<lambda>pte.
      if pte = 0 then deallocuvm_loop n pgdir (a + (of_nat NPTENTRIES - 1) * PGSIZE + PGSIZE) oldsz
      else
      bind (gets (\<lambda>s. load32 (mem s) pte)) (\<lambda>e.
      if e AND PTE_P \<noteq> 0 then
        (let pa = PTE_ADDR e in
         if pa = 0 then panic ''kfree''
         else
         seq (kfree (p2v pa))
        (seq (modify (\<lambda>s. s\<lparr>mem := store32 (mem s) pte 0\<rparr>))
             (deallocuvm_loop n pgdir (a + PGSIZE) oldsz)))
      else deallocuvm_loop n pgdir (a + PGSIZE) oldsz)))"

definition deallocuvm :: "u32 \<Rightarrow> u32 \<Rightarrow> u32 \<Rightarrow> ('a kmach_scheme, u32) op" where
  "deallocuvm pgdir oldsz newsz =
     (if newsz \<ge> oldsz then ret oldsz
      else seq (deallocuvm_loop 1048577 pgdir (PGROUNDUP newsz) oldsz) (ret newsz))"

text \<open>The result of \<open>mappages\<close> is ignored, as in the code.\<close>

fun allocuvm_loop :: "nat \<Rightarrow> u32 \<Rightarrow> u32 \<Rightarrow> u32 \<Rightarrow> u32 \<Rightarrow> ('a kmach_scheme, u32) op" where
  "allocuvm_loop 0 pgdir a oldsz newsz = fault"
| "allocuvm_loop (Suc n) pgdir a oldsz newsz =
     (if a \<ge> newsz then ret newsz
      else
      bind kalloc (\<lambda>page.
      if page = 0 then
        seq (cprintf ''allocuvm out of memory\<newline>'' [])
       (bind (deallocuvm pgdir newsz oldsz) (\<lambda>_. ret 0))
      else
      seq (modify (\<lambda>s. s\<lparr>mem := memset page 0 PGSIZE (mem s)\<rparr>))
     (bind (mappages pgdir a PGSIZE (v2p page) (PTE_W OR PTE_U)) (\<lambda>_.
      allocuvm_loop n pgdir (a + PGSIZE) oldsz newsz))))"

definition allocuvm :: "u32 \<Rightarrow> u32 \<Rightarrow> u32 \<Rightarrow> ('a kmach_scheme, u32) op" where
  "allocuvm pgdir oldsz newsz =
     (if newsz \<ge> KERNBASE then ret 0
      else if newsz < oldsz then ret oldsz
      else allocuvm_loop 1048577 pgdir (PGROUNDUP oldsz) oldsz newsz)"

fun freevm_loop :: "u32 list \<Rightarrow> u32 \<Rightarrow> ('a kmach_scheme, unit) op" where
  "freevm_loop [] pgdir = ret ()"
| "freevm_loop (i # is) pgdir =
     bind (gets (\<lambda>s. load32 (mem s) (pgdir + 4 * i))) (\<lambda>e.
     seq (whenM (e AND PTE_P \<noteq> 0) (kfree (p2v (PTE_ADDR e))))
         (freevm_loop is pgdir))"

definition freevm :: "u32 \<Rightarrow> ('a kmach_scheme, unit) op" where
  "freevm pgdir =
     (if pgdir = 0 then panic ''freevm: no pgdir''
      else
      bind (deallocuvm pgdir KERNBASE 0) (\<lambda>_.
      seq (freevm_loop (map of_nat [0..<NPDENTRIES]) pgdir)
          (kfree pgdir)))"

definition clearpteu :: "u32 \<Rightarrow> u32 \<Rightarrow> ('a kmach_scheme, unit) op" where
  "clearpteu pgdir uva =
     bind (walkpgdir pgdir uva False) (\<lambda>pte.
     if pte = 0 then panic ''clearpteu''
     else modify (\<lambda>s. s\<lparr>mem := store32 (mem s) pte (load32 (mem s) pte AND NOT PTE_U)\<rparr>))"

fun copyuvm_loop :: "nat \<Rightarrow> u32 \<Rightarrow> u32 \<Rightarrow> u32 \<Rightarrow> u32 \<Rightarrow> ('a kmach_scheme, u32) op" where
  "copyuvm_loop 0 pgdir sz d i = fault"
| "copyuvm_loop (Suc n) pgdir sz d i =
     (if i \<ge> sz then ret d
      else
      bind (walkpgdir pgdir i False) (\<lambda>pte.
      if pte = 0 then panic ''copyuvm: pte should exist''
      else
      bind (gets (\<lambda>s. load32 (mem s) pte)) (\<lambda>e.
      if e AND PTE_P = 0 then panic ''copyuvm: page not present''
      else
      bind kalloc (\<lambda>page.
      if page = 0 then seq (freevm d) (ret 0)
      else
      seq (modify (\<lambda>s. s\<lparr>mem := memmove page (p2v (PTE_ADDR e)) PGSIZE (mem s)\<rparr>))
     (bind (mappages d i PGSIZE (v2p page) (PTE_FLAGS e)) (\<lambda>r.
      if r < 0 then seq (freevm d) (ret 0)
      else copyuvm_loop n pgdir sz d (i + PGSIZE)))))))"

definition copyuvm :: "u32 \<Rightarrow> u32 \<Rightarrow> ('a vmach_scheme, u32) op" where
  "copyuvm pgdir sz =
     bind setupkvm (\<lambda>d.
     if d = 0 then ret 0 else copyuvm_loop 1048577 pgdir sz d 0)"

text \<open>\<open>uva2ka\<close> dereferences what \<open>walkpgdir\<close> returns without testing it.\<close>

definition uva2ka :: "u32 \<Rightarrow> u32 \<Rightarrow> ('a kmach_scheme, u32) op" where
  "uva2ka pgdir uva =
     bind (walkpgdir pgdir uva False) (\<lambda>pte.
     if pte = 0 then fault
     else
     bind (gets (\<lambda>s. load32 (mem s) pte)) (\<lambda>e.
     if e AND PTE_P = 0 then ret 0
     else if e AND PTE_U = 0 then ret 0
     else ret (p2v (PTE_ADDR e))))"

text \<open>\<open>copyout\<close> takes the bytes at its source pointer; each round writes to one page.\<close>

fun store_bytes :: "memory \<Rightarrow> u32 \<Rightarrow> u8 list \<Rightarrow> memory" where
  "store_bytes m a [] = m"
| "store_bytes m a (b # bs) = store_bytes (m(a := b)) (a + 1) bs"

fun copyout_loop :: "nat \<Rightarrow> u32 \<Rightarrow> u32 \<Rightarrow> u8 list \<Rightarrow> ('a kmach_scheme, int) op" where
  "copyout_loop 0 pgdir va bs = fault"
| "copyout_loop (Suc k) pgdir va bs =
     (if bs = [] then ret 0
      else
      (let va0 = PGROUNDDOWN va in
       bind (uva2ka pgdir va0) (\<lambda>pa0.
       if pa0 = 0 then ret (- 1)
       else
       (let n = min (unat (PGSIZE - (va - va0))) (length bs) in
        seq (modify (\<lambda>s. s\<lparr>mem := store_bytes (mem s) (pa0 + (va - va0)) (take n bs)\<rparr>))
            (copyout_loop k pgdir (va0 + PGSIZE) (drop n bs))))))"

definition copyout :: "u32 \<Rightarrow> u32 \<Rightarrow> u8 list \<Rightarrow> ('a kmach_scheme, int) op" where
  "copyout pgdir va bs = copyout_loop (Suc (length bs)) pgdir va bs"

section \<open>Invariants of the layers above\<close>

text \<open>
  A predicate that moreover does not look at memory, the free list and the paging registers (an invariant of one of
  the tables of the layers above, say) survives every operation of this and the lower layers, however the operation ends.
\<close>

locale upper_layer = above_output I for I :: "'a vmach_scheme \<Rightarrow> bool" +
  assumes I_mem [simp]: "I (s\<lparr>mem := m\<rparr>) = I s"
    and I_freelist [simp]: "I (s\<lparr>freelist := f\<rparr>) = I s"
    and I_cr3 [simp]: "I (s\<lparr>cr3 := p\<rparr>) = I s"
    and I_ts [simp]: "I (s\<lparr>ts_ss0 := q, ts_esp0 := e\<rparr>) = I s"
begin

lemma paging_updates [keeps_intros]:
  "keeps I (modify (\<lambda>s. s\<lparr>mem := f3 s\<rparr>))" "keeps I (modify (\<lambda>s. s\<lparr>freelist := f4 s\<rparr>))"
  "keeps I (modify (\<lambda>s. s\<lparr>cr3 := f8 s\<rparr>))" "keeps I (modify (\<lambda>s. s\<lparr>ts_ss0 := f9 s, ts_esp0 := f10 s\<rparr>))"
  by (simp_all add: keeps_def modify_def)

lemma keeps_kmem [keeps_intros]: "keeps I kalloc" "keeps I (kfree v)"
  unfolding kalloc_def kfree_def by (intro keeps_intros)+

lemma keeps_walkpgdir [keeps_intros]: "keeps I (walkpgdir pgdir va alloc)"
  unfolding walkpgdir_def by (intro keeps_intros)

lemma keeps_mappages_loop: "keeps I (mappages_loop n pgdir a alast pa perm)"
  by (induction n arbitrary: a pa) (auto intro!: keeps_intros)

lemma keeps_mappages [keeps_intros]: "keeps I (mappages pgdir va sz pa perm)"
  unfolding mappages_def Let_def by (rule keeps_mappages_loop)

lemma keeps_setupkvm_loop: "keeps I (setupkvm_loop ks pgdir)"
  by (induction ks) (auto intro!: keeps_intros)

lemma keeps_deallocuvm_loop: "keeps I (deallocuvm_loop n pgdir a oldsz)"
  by (induction n arbitrary: a) (auto simp: Let_def intro!: keeps_intros)

lemma keeps_deallocuvm [keeps_intros]: "keeps I (deallocuvm pgdir oldsz newsz)"
  unfolding deallocuvm_def by (intro keeps_intros keeps_deallocuvm_loop)

lemma keeps_allocuvm_loop: "keeps I (allocuvm_loop n pgdir a oldsz newsz)"
  by (induction n arbitrary: a) (auto intro!: keeps_intros)

lemma keeps_freevm_loop: "keeps I (freevm_loop is pgdir)"
  by (induction "is") (auto intro!: keeps_intros)

lemma keeps_vm [keeps_intros]:
  "keeps I setupkvm" "keeps I (switchuvm kstack pgdir)" "keeps I switchkvm"
  "keeps I (inituvm pgdir init sz)" "keeps I (allocuvm pgdir oldsz newsz)" "keeps I (freevm pgdir)"
  "keeps I (clearpteu pgdir uva)"
  unfolding setupkvm_def switchuvm_def switchkvm_def inituvm_def allocuvm_def freevm_def clearpteu_def
  by (intro keeps_intros keeps_setupkvm_loop keeps_allocuvm_loop keeps_freevm_loop)+

lemma keeps_copyuvm_loop: "keeps I (copyuvm_loop n pgdir sz d i)"
  by (induction n arbitrary: i) (auto intro!: keeps_intros)

lemma keeps_copy [keeps_intros]: "keeps I (copyuvm pgdir sz)" "keeps I (uva2ka pgdir uva)"
  unfolding copyuvm_def uva2ka_def by (intro keeps_intros keeps_copyuvm_loop)+

lemma keeps_copyout_loop: "keeps I (copyout_loop n pgdir va bs)"
  by (induction n arbitrary: va bs) (auto simp: Let_def intro!: keeps_intros)

lemma keeps_copyout [keeps_intros]: "keeps I (copyout pgdir va bs)"
  unfolding copyout_def by (rule keeps_copyout_loop)

end

section \<open>The map a page directory represents\<close>

text \<open>The page table a directory entry points to, and the entry for a virtual address.\<close>

definition pt_page :: "memory \<Rightarrow> u32 \<Rightarrow> u32 \<Rightarrow> u32 option" where
  "pt_page m pgdir i =
     (let e = load32 m (pgdir + 4 * i) in if e AND PTE_P \<noteq> 0 then Some (p2v (PTE_ADDR e)) else None)"

definition pt_entry :: "memory \<Rightarrow> u32 \<Rightarrow> u32 \<Rightarrow> u32" where
  "pt_entry m pgdir va =
     (case pt_page m pgdir (PDX va) of None \<Rightarrow> 0 | Some q \<Rightarrow> load32 m (q + 4 * PTX va))"

text \<open>
  Ownership: the directory, its page tables and the free pages are different legal pages.
\<close>

definition tables_ok :: "u32 \<Rightarrow> memory \<Rightarrow> u32 \<Rightarrow> bool" where
  "tables_ok e m pgdir \<longleftrightarrow>
     \<not> bad_page e pgdir \<and>
     (\<forall>i < 1024. \<forall>q. pt_page m pgdir i = Some q \<longrightarrow> \<not> bad_page e q \<and> q \<noteq> pgdir) \<and>
     (\<forall>i < 1024. \<forall>j < 1024. \<forall>q. pt_page m pgdir i = Some q \<longrightarrow> pt_page m pgdir j = Some q \<longrightarrow> i = j)"

definition is_table :: "memory \<Rightarrow> u32 \<Rightarrow> u32 \<Rightarrow> bool" where
  "is_table m pgdir q \<longleftrightarrow> q = pgdir \<or> (\<exists>i < 1024. pt_page m pgdir i = Some q)"

definition vm_ok :: "'a kmach_scheme \<Rightarrow> u32 \<Rightarrow> u32 list \<Rightarrow> bool" where
  "vm_ok s pgdir ps \<longleftrightarrow>
     pool_ok s ps \<and> tables_ok (kend s) (mem s) pgdir \<and> (\<forall>q \<in> set ps. \<not> is_table (mem s) pgdir q)"

lemma PDX_less: "PDX va < 1024"
  using unat_PDX [of va] unat32_less [of va] by (simp add: word_less_nat_alt div_less_iff_less_mult)

lemma PTX_less: "PTX va < 1024"
  by (simp add: word_less_nat_alt unat_PTX)

lemma unat_slot: "(i :: u32) < 1024 \<Longrightarrow> unat (4 * i) = 4 * unat i"
  by (simp add: unat_word_ariths word_less_nat_alt)

lemma slot_in_page:
  assumes "(i :: u32) < 1024" and "k < 4"
  shows "in_page p (p + 4 * i + k)"
proof -
  have "unat (4 * i + k) = 4 * unat i + unat k"
    using assms unat_slot [OF assms(1)] by (simp add: unat_word_ariths word_less_nat_alt)
  then show ?thesis
    using assms by (simp add: in_page_def word_less_nat_alt add.assoc)
qed

lemma slot_aligned:
  assumes "p mod PGSIZE = 0" and "(i :: u32) < 1024"
  shows "(p + 4 * i) mod 4 = 0"
proof -
  obtain k where k: "unat p = 4096 * k"
    using assms(1) unat_mod [of p 4096] by (auto simp: mod_eq_0_iff_dvd elim: dvdE)
  have "k \<le> 1048575"
    using k unat32_less [of p] by simp
  then have "unat (p + 4 * i) = 4096 * k + 4 * unat i"
    using k unat_slot [OF assms(2)] assms(2) by (simp add: unat_word_ariths word_less_nat_alt)
  then have "unat (p + 4 * i) = 4 * (1024 * k + unat i)"
    by simp
  then show ?thesis
    using unat_mod [of "p + 4 * i" 4] by (simp add: word_unat_eq_iff)
qed

lemma load32_slot_cong:
  assumes "\<And>x. in_page p x \<Longrightarrow> m' x = m x" and "(i :: u32) < 1024"
  shows "load32 m' (p + 4 * i) = load32 m (p + 4 * i)"
  using slot_in_page [OF assms(2), of 0 p] slot_in_page [OF assms(2), of 1 p]
    slot_in_page [OF assms(2), of 2 p] slot_in_page [OF assms(2), of 3 p]
  by (intro load32_cong) (simp_all add: assms(1))

lemma store32_slot_outside:
  assumes "(i :: u32) < 1024" and "\<not> in_page p x"
  shows "store32 m (p + 4 * i) v x = m x"
proof -
  have "x \<noteq> p + 4 * i + k" if "k < 4" for k
    using slot_in_page [OF assms(1) that, of p] assms(2) by blast
  from this [of 0] this [of 1] this [of 2] this [of 3] show ?thesis
    by (simp add: store32_def)
qed

lemma load32_store32_slot:
  assumes "p mod PGSIZE = 0" and "(i :: u32) < 1024" and "j < 1024"
  shows "load32 (store32 m (p + 4 * i) v) (p + 4 * j) = (if i = j then v else load32 m (p + 4 * j))"
proof (cases "i = j")
  case False
  have "unat (4 * i) \<noteq> unat (4 * j)"
    using False unat_slot [OF assms(2)] unat_slot [OF assms(3)] by (simp add: word_unat_eq_iff)
  then have "p + 4 * i \<noteq> p + 4 * j"
    by auto
  then show ?thesis
    using False load32_store32_other slot_aligned [OF assms(1)] assms(2,3) by simp
qed simp

lemma same_slots:
  "PDX va = PDX vb \<and> PTX va = PTX vb \<longleftrightarrow> PGROUNDDOWN va = PGROUNDDOWN vb"
proof -
  have d: "unat v div 4194304 = unat v div 4096 div 1024" for v :: u32
    by (simp add: div_mult2_eq [symmetric])
  have "PDX va = PDX vb \<and> PTX va = PTX vb \<longleftrightarrow>
      unat va div 4096 div 1024 = unat vb div 4096 div 1024 \<and>
      unat va div 4096 mod 1024 = unat vb div 4096 mod 1024"
    by (simp add: word_unat_eq_iff unat_PDX unat_PTX d)
  also have "\<dots> \<longleftrightarrow> unat va div 4096 = unat vb div 4096"
    by (metis div_mult_mod_eq)
  also have "\<dots> \<longleftrightarrow> PGROUNDDOWN va = PGROUNDDOWN vb"
    by (simp add: word_unat_eq_iff unat_PGROUNDDOWN)
  finally show ?thesis .
qed

text \<open>Changes that spare the directory and its tables do not change the map.\<close>

lemma pt_page_cong:
  assumes "\<And>x. in_page pgdir x \<Longrightarrow> m' x = m x" and "i < 1024"
  shows "pt_page m' pgdir i = pt_page m pgdir i"
  using load32_slot_cong [OF assms] by (simp add: pt_page_def)

lemma tables_cong:
  assumes "\<And>q x. is_table m pgdir q \<Longrightarrow> in_page q x \<Longrightarrow> m' x = m x"
  shows "i < 1024 \<Longrightarrow> pt_page m' pgdir i = pt_page m pgdir i"
    and "pt_entry m' pgdir va = pt_entry m pgdir va"
    and "tables_ok e m' pgdir \<longleftrightarrow> tables_ok e m pgdir"
    and "is_table m' pgdir = is_table m pgdir"
proof -
  have pd: "pt_page m' pgdir i = pt_page m pgdir i" if "i < 1024" for i
    using assms [of pgdir] that by (intro pt_page_cong) (auto simp: is_table_def)
  then show "i < 1024 \<Longrightarrow> pt_page m' pgdir i = pt_page m pgdir i" .
  show "pt_entry m' pgdir va = pt_entry m pgdir va"
  proof (cases "pt_page m pgdir (PDX va)")
    case None
    then show ?thesis
      by (simp add: pt_entry_def pd PDX_less)
  next
    case (Some q)
    then have "is_table m pgdir q"
      using PDX_less by (auto simp: is_table_def)
    then have "load32 m' (q + 4 * PTX va) = load32 m (q + 4 * PTX va)"
      using assms PTX_less by (intro load32_slot_cong) auto
    with Some show ?thesis
      by (simp add: pt_entry_def pd PDX_less)
  qed
  show "tables_ok e m' pgdir \<longleftrightarrow> tables_ok e m pgdir"
    by (simp add: tables_ok_def pd)
  show "is_table m' pgdir = is_table m pgdir"
    by (rule ext) (auto simp: is_table_def pd)
qed

section \<open>Walking and updating\<close>

definition pte_addr :: "memory \<Rightarrow> u32 \<Rightarrow> u32 \<Rightarrow> u32" where
  "pte_addr m pgdir va =
     (case pt_page m pgdir (PDX va) of None \<Rightarrow> 0 | Some q \<Rightarrow> q + 4 * PTX va)"

lemma walkpgdir_find: "walkpgdir pgdir va False s = Ret (pte_addr (mem s) pgdir va) s"
  by (simp add: walkpgdir_def run_simps pte_addr_def pt_page_def Let_def)

lemma walkpgdir_present:
  assumes "pt_page (mem s) pgdir (PDX va) = Some q"
  shows "walkpgdir pgdir va alloc s = Ret (q + 4 * PTX va) s"
proof -
  have "load32 (mem s) (pgdir + 4 * PDX va) AND 1 \<noteq> 0"
    "q = p2v (PTE_ADDR (load32 (mem s) (pgdir + 4 * PDX va)))"
    using assms by (simp_all add: pt_page_def Let_def split: if_splits)
  then show ?thesis
    by (simp add: walkpgdir_def run_simps Let_def)
qed

lemma tables_mod: "tables_ok e m pgdir \<Longrightarrow> pgdir mod PGSIZE = 0"
  using bad_page_mod [of e pgdir] by (simp add: tables_ok_def)

lemma vm_table_good:
  assumes "tables_ok e m pgdir" and "pt_page m pgdir (PDX va) = Some q"
  shows "\<not> bad_page e q" and "q \<noteq> pgdir" and "is_table m pgdir q" and "q + 4 * PTX va \<noteq> 0"
proof -
  show good: "\<not> bad_page e q" "q \<noteq> pgdir"
    using assms PDX_less [of va] by (auto simp: tables_ok_def)
  show "is_table m pgdir q"
    using assms(2) PDX_less [of va] by (auto simp: is_table_def)
  have "2147483648 \<le> unat q" "unat q < 2382364672"
  proof -
    show kb: "2147483648 \<le> unat q"
      using page_kernel [OF good(1)] by (simp add: word_le_nat_alt)
    then have "unat (q - KERNBASE) = unat q - 2147483648"
      using unat_sub [of KERNBASE q] by (simp add: word_le_nat_alt)
    moreover have "\<not> 234881024 \<le> unat (q - KERNBASE)"
      using good(1) by (simp add: bad_page_def v2p_def word_le_nat_alt)
    ultimately show "unat q < 2382364672"
      using kb by linarith
  qed
  then have "unat (q + 4 * PTX va) = unat q + 4 * unat (PTX va)"
    using PTX_less [of va] unat_slot [OF PTX_less, of va]
    by (simp add: unat_word_ariths word_less_nat_alt)
  then show "q + 4 * PTX va \<noteq> 0"
    using \<open>2147483648 \<le> unat q\<close> by auto
qed

text \<open>Storing through the address \<open>walkpgdir\<close> returns updates the map at that page only.\<close>

lemma set_pte:
  fixes v :: u32
  assumes ok: "tables_ok e m pgdir" and q: "pt_page m pgdir (PDX va) = Some q"
  defines "m' \<equiv> store32 m (q + 4 * PTX va) v"
  shows "i < 1024 \<Longrightarrow> pt_page m' pgdir i = pt_page m pgdir i"
    and "pt_entry m' pgdir vb = (if PGROUNDDOWN va = PGROUNDDOWN vb then v else pt_entry m pgdir vb)"
    and "tables_ok e m' pgdir"
    and "is_table m' pgdir = is_table m pgdir"
proof -
  note good = vm_table_good [OF ok q]
  have qm: "q mod PGSIZE = 0" and pm: "pgdir mod PGSIZE = 0"
    using bad_page_mod [OF good(1)] tables_mod [OF ok] by simp_all
  have frame: "m' x = m x" if "in_page p x" "p \<noteq> q" "p mod PGSIZE = 0" for p x
    using page_disjoint [OF that(3) qm that(2,1)] PTX_less unfolding m'_def
    by (intro store32_slot_outside) auto
  have pd: "pt_page m' pgdir i = pt_page m pgdir i" if "i < 1024" for i
    using frame [of pgdir] good(2) pm that by (intro pt_page_cong) auto
  show "i < 1024 \<Longrightarrow> pt_page m' pgdir i = pt_page m pgdir i"
    by (rule pd)
  show "tables_ok e m' pgdir"
    using ok by (simp add: tables_ok_def pd)
  show "is_table m' pgdir = is_table m pgdir"
    by (rule ext) (auto simp: is_table_def pd)
  show "pt_entry m' pgdir vb = (if PGROUNDDOWN va = PGROUNDDOWN vb then v else pt_entry m pgdir vb)"
  proof (cases "pt_page m pgdir (PDX vb)")
    case None
    then have "PDX va \<noteq> PDX vb"
      using q by auto
    with None show ?thesis
      using same_slots [of va vb] by (simp add: pt_entry_def pd PDX_less)
  next
    case (Some r)
    have "load32 m' (r + 4 * PTX vb) =
        (if PDX va = PDX vb \<and> PTX va = PTX vb then v else load32 m (r + 4 * PTX vb))"
    proof (cases "PDX va = PDX vb")
      case True
      then have "r = q"
        using q Some by simp
      then show ?thesis
        using True load32_store32_slot [OF qm PTX_less PTX_less, of m va v vb] by (simp add: m'_def)
    next
      case False
      have "r \<noteq> q"
        using False ok q Some PDX_less [of va] PDX_less [of vb] by (auto simp: tables_ok_def)
      moreover have "r mod PGSIZE = 0"
        using vm_table_good(1) [OF ok Some] bad_page_mod by blast
      ultimately have "load32 m' (r + 4 * PTX vb) = load32 m (r + 4 * PTX vb)"
        using frame [of r] PTX_less by (intro load32_slot_cong) auto
      with False show ?thesis by simp
    qed
    with Some show ?thesis
      unfolding same_slots by (simp add: pt_entry_def pd PDX_less)
  qed
qed

text \<open>A fresh, zeroed page table hung into an empty directory slot does not change the map.\<close>

lemma p2v_PTE_ADDR:
  assumes "\<not> bad_page e q"
  shows "p2v (PTE_ADDR (v2p q OR PTE_P OR PTE_W OR PTE_U)) = q"
    and "(v2p q OR PTE_P OR PTE_W OR PTE_U) AND PTE_P \<noteq> 0"
proof -
  have "unat q mod 4096 = 0" "unat (v2p q) = unat q - 2147483648"
    using bad_page_mod [OF assms] page_kernel [OF assms] unat_mod [of q 4096] unat_sub [of KERNBASE q]
    by (simp_all add: v2p_def)
  then have "unat (v2p q) mod 4096 = 0"
    by (simp add: mod_eq_0_iff_dvd dvd_diff_nat)
  then have "v2p q mod 4096 = 0"
    by (simp add: word_unat_eq_iff unat_mod)
  then have "(v2p q OR 7) AND - 4096 = v2p q"
    unfolding word_ao_dist by (simp add: and_minus_4096)
  then show "p2v (PTE_ADDR (v2p q OR PTE_P OR PTE_W OR PTE_U)) = q"
    by (simp add: PTE_ADDR_def or.assoc)
  have "bit ((v2p q OR PTE_P OR PTE_W OR PTE_U) AND PTE_P) 0"
    by (simp add: bit_simps)
  then show "(v2p q OR PTE_P OR PTE_W OR PTE_U) AND PTE_P \<noteq> 0"
    by (metis bit_0_eq bot_apply bot_bool_def)
qed

lemma new_table:
  assumes ok: "tables_ok e m pgdir" and free: "pt_page m pgdir (PDX va) = None"
    and q: "\<not> bad_page e q" "\<not> is_table m pgdir q"
  defines "m' \<equiv> store32 (memset q 0 PGSIZE m) (pgdir + 4 * PDX va) (v2p q OR PTE_P OR PTE_W OR PTE_U)"
  shows "i < 1024 \<Longrightarrow> pt_page m' pgdir i = (if i = PDX va then Some q else pt_page m pgdir i)"
    and "pt_entry m' pgdir vb = pt_entry m pgdir vb"
    and "tables_ok e m' pgdir"
    and "is_table m' pgdir r \<longleftrightarrow> r = q \<or> is_table m pgdir r"
    and "\<not> in_page q x \<Longrightarrow> \<not> in_page pgdir x \<Longrightarrow> m' x = m x"
proof -
  have qm: "q mod PGSIZE = 0" and pm: "pgdir mod PGSIZE = 0" and pgd: "\<not> bad_page e pgdir"
    using bad_page_mod [OF q(1)] tables_mod [OF ok] ok by (simp_all add: tables_ok_def)
  have ne: "q \<noteq> pgdir"
    using q(2) by (auto simp: is_table_def)
  show frame: "m' x = m x" if "\<not> in_page q x" "\<not> in_page pgdir x" for x
    using that PDX_less unfolding m'_def
    by (simp add: store32_slot_outside memset_spec in_page_def)
  have pd: "pt_page m' pgdir i = (if i = PDX va then Some q else pt_page m pgdir i)" if "i < 1024" for i
  proof -
    have "memset q 0 PGSIZE m x = m x" if "in_page pgdir x" for x
      using page_disjoint [OF pm qm _ that] ne by (simp add: memset_spec in_page_def)
    then have "load32 (memset q 0 PGSIZE m) (pgdir + 4 * i) = load32 m (pgdir + 4 * i)"
      using \<open>i < 1024\<close> by (intro load32_slot_cong) auto
    then have "load32 m' (pgdir + 4 * i) =
        (if i = PDX va then v2p q OR PTE_P OR PTE_W OR PTE_U else load32 m (pgdir + 4 * i))"
      using load32_store32_slot [OF pm PDX_less \<open>i < 1024\<close>] unfolding m'_def by auto
    then show ?thesis
      using p2v_PTE_ADDR [OF q(1)] by (simp add: pt_page_def Let_def)
  qed
  show "i < 1024 \<Longrightarrow> pt_page m' pgdir i = (if i = PDX va then Some q else pt_page m pgdir i)"
    by (rule pd)
  show "is_table m' pgdir r \<longleftrightarrow> r = q \<or> is_table m pgdir r"
  proof
    assume "is_table m' pgdir r"
    then show "r = q \<or> is_table m pgdir r"
      by (auto simp: is_table_def pd split: if_splits)
  next
    assume "r = q \<or> is_table m pgdir r"
    then consider "r = q" | "r = pgdir" | i where "i < 1024" "pt_page m pgdir i = Some r"
      by (auto simp: is_table_def)
    then show "is_table m' pgdir r"
    proof cases
      case 1
      then show ?thesis
        using pd [OF PDX_less, of va] PDX_less [of va] by (auto simp: is_table_def)
    next
      case 2
      then show ?thesis
        by (simp add: is_table_def)
    next
      case 3
      then have "pt_page m' pgdir i = Some r"
        using free pd by auto
      with 3 show ?thesis
        by (auto simp: is_table_def)
    qed
  qed
  show "tables_ok e m' pgdir"
    using ok q ne by (auto simp: tables_ok_def pd is_table_def split: if_splits)
  show "pt_entry m' pgdir vb = pt_entry m pgdir vb"
  proof (cases "PDX vb = PDX va")
    case True
    have z: "m' x = 0" if "in_page q x" for x
      using page_disjoint [OF qm pm ne that] that PDX_less unfolding m'_def
      by (simp add: store32_slot_outside memset_spec in_page_def)
    have "load32 m' (q + 4 * PTX vb) = load32 (\<lambda>_. 0) (q + 4 * PTX vb)"
      using z PTX_less by (intro load32_slot_cong) auto
    also have "\<dots> = 0"
      by (simp add: load32_def get32_def)
    finally show ?thesis
      using True free by (simp add: pt_entry_def pd PDX_less)
  next
    case False
    show ?thesis
    proof (cases "pt_page m pgdir (PDX vb)")
      case None
      then show ?thesis
        using False by (simp add: pt_entry_def pd PDX_less)
    next
      case (Some r)
      note r = vm_table_good [OF ok Some]
      have "\<not> in_page q x \<and> \<not> in_page pgdir x" if "in_page r x" for x
        using good_pages_disjoint [OF r(1) q(1) _ that] good_pages_disjoint [OF r(1) pgd _ that] r(2,3) q(2)
        by auto
      then have "load32 m' (r + 4 * PTX vb) = load32 m (r + 4 * PTX vb)"
        using frame PTX_less by (intro load32_slot_cong) auto
      then show ?thesis
        using False Some by (simp add: pt_entry_def pd PDX_less)
    qed
  qed
qed

section \<open>The interface to page tables\<close>

text \<open>What an operation on page tables may change of the rest of the state.\<close>

definition kstep :: "'a kmach_scheme \<Rightarrow> 'a kmach_scheme \<Rightarrow> bool" where
  "kstep s s' \<longleftrightarrow> (\<exists>m f c. s' = s\<lparr>mem := m, mycpu := c, freelist := f\<rparr> \<and> settle c = settle (mycpu s))"

lemma kstepI: "s' = s\<lparr>mem := m, mycpu := c, freelist := f\<rparr> \<Longrightarrow> settle c = settle (mycpu s) \<Longrightarrow> kstep s s'"
  unfolding kstep_def by blast

lemma kstepE:
  assumes "kstep s s'"
  obtains m f c where "s' = s\<lparr>mem := m, mycpu := c, freelist := f\<rparr>" and "settle c = settle (mycpu s)"
  using assms unfolding kstep_def by blast

lemma kstep_refl [simp]: "kstep s s"
  by (rule kstepI [where m = "mem s" and c = "mycpu s" and f = "freelist s"]) simp_all

lemma kstep_trans:
  assumes "kstep s t" and "kstep t u"
  shows "kstep s u"
proof -
  obtain m f c where t: "t = s\<lparr>mem := m, mycpu := c, freelist := f\<rparr>" "settle c = settle (mycpu s)"
    using assms(1) by (rule kstepE)
  obtain m' f' c' where "u = t\<lparr>mem := m', mycpu := c', freelist := f'\<rparr>" "settle c' = settle (mycpu t)"
    using assms(2) by (rule kstepE)
  with t show ?thesis
    by (intro kstepI [where m = m' and c = c' and f = f']) simp_all
qed

lemma kstep_mem: "kstep s (s\<lparr>mem := m\<rparr>)"
  by (rule kstepI [where m = m and c = "mycpu s" and f = "freelist s"]) simp_all

lemma kstep_sel:
  assumes "kstep s s'"
  shows "kend s' = kend s" "use_lock s' = use_lock s" "locks s' = locks s" "screen_ok s' \<longleftrightarrow> screen_ok s"
    "cpu_ok (mycpu s') \<longleftrightarrow> cpu_ok (mycpu s)"
proof -
  obtain m f c where s': "s' = s\<lparr>mem := m, mycpu := c, freelist := f\<rparr>" and c: "settle c = settle (mycpu s)"
    using assms by (rule kstepE)
  have "cpu_ok c \<longleftrightarrow> cpu_ok (mycpu s)"
    using cpu_ok_settle [of c] cpu_ok_settle [of "mycpu s"] c by metis
  with s' show "kend s' = kend s" "use_lock s' = use_lock s" "locks s' = locks s"
    "screen_ok s' \<longleftrightarrow> screen_ok s" "cpu_ok (mycpu s') \<longleftrightarrow> cpu_ok (mycpu s)"
    by (simp_all add: screen_ok_def)
qed

lemma kstep_popped: "kstep s (popped s)"
  by (rule kstepI [where m = "mem s" and c = "mycpu (popped s)" and f = "freelist (popped s)"])
    (simp_all add: popped_def ksettled_def settled_def)

lemma kstep_pushed: "kstep s (pushed v s)"
  by (rule kstepI [where m = "mem (pushed v s)" and c = "mycpu (pushed v s)" and f = v])
    (simp_all add: pushed_def ksettled_def settled_def)

text \<open>
  \<open>vm_step s s' pgdir ps ps'\<close>: from \<open>s\<close> to \<open>s'\<close> the page table may have taken pages from the
  pool, everything stays well-formed, and no page but its own and those taken was written.
\<close>

definition vm_step :: "'a kmach_scheme \<Rightarrow> 'a kmach_scheme \<Rightarrow> u32 \<Rightarrow> u32 list \<Rightarrow> u32 list \<Rightarrow> bool" where
  "vm_step s s' pgdir ps ps' \<longleftrightarrow>
     vm_ok s' pgdir ps' \<and> kstep s s' \<and> (\<exists>k. ps' = drop k ps) \<and>
     (\<forall>q. is_table (mem s) pgdir q \<longrightarrow> is_table (mem s') pgdir q) \<and>
     (\<forall>q. is_table (mem s') pgdir q \<longrightarrow> is_table (mem s) pgdir q \<or> q \<in> set ps) \<and>
     (\<forall>p x. \<not> is_table (mem s') pgdir p \<longrightarrow> p mod PGSIZE = 0 \<longrightarrow> in_page p x \<longrightarrow> mem s' x = mem s x)"

lemma vm_step_refl: "vm_ok s pgdir ps \<Longrightarrow> vm_step s s pgdir ps ps"
  by (auto simp: vm_step_def intro: exI [of _ 0])

lemma vm_step_trans:
  assumes "vm_step s t pgdir ps qs" and "vm_step t u pgdir qs rs"
  shows "vm_step s u pgdir ps rs"
proof -
  obtain j k where "qs = drop j ps" "rs = drop k qs"
    using assms by (auto simp: vm_step_def)
  then have "rs = drop (k + j) ps" "set qs \<subseteq> set ps"
    by (simp_all add: set_drop_subset)
  moreover have "mem u x = mem s x"
    if "\<not> is_table (mem u) pgdir p" "p mod PGSIZE = 0" "in_page p x" for p x
  proof -
    have "mem u x = mem t x"
      using assms(2) that by (auto simp: vm_step_def)
    moreover have "\<not> is_table (mem t) pgdir p"
      using assms(2) that(1) by (auto simp: vm_step_def)
    then have "mem t x = mem s x"
      using assms(1) that(2,3) by (auto simp: vm_step_def)
    ultimately show ?thesis by simp
  qed
  moreover have "kstep s u"
    using assms kstep_trans by (auto simp: vm_step_def)
  moreover have "is_table (mem s) pgdir q \<Longrightarrow> is_table (mem u) pgdir q"
    "is_table (mem u) pgdir q \<Longrightarrow> is_table (mem s) pgdir q \<or> q \<in> set ps" for q
    using assms \<open>set qs \<subseteq> set ps\<close> by (auto simp: vm_step_def)
  ultimately show ?thesis
    using assms(2) unfolding vm_step_def by blast
qed

lemma pool_mem_cong:
  assumes "pool_ok s ps" and "\<And>q x. q \<in> set ps \<Longrightarrow> in_page q x \<Longrightarrow> m' x = mem s x"
  shows "pool_ok (s\<lparr>mem := m'\<rparr>) ps"
  using assms free_list_cong [of "mem s" "freelist s" ps m'] by (auto simp: pool_ok_def)

lemma walkpgdir_alloc:
  assumes ok: "vm_ok s pgdir ps"
  shows "\<exists>r s' ps'. walkpgdir pgdir va True s = Ret r s' \<and> vm_step s s' pgdir ps ps' \<and>
    (\<forall>vb. pt_entry (mem s') pgdir vb = pt_entry (mem s) pgdir vb) \<and>
    (if r = 0 then ps = [] else pt_page (mem s') pgdir (PDX va) = Some (r - 4 * PTX va))"
proof (cases "pt_page (mem s) pgdir (PDX va)")
  case (Some q)
  then show ?thesis
    using ok walkpgdir_present [OF Some] vm_table_good(4) [of "kend s" "mem s" pgdir va q] vm_step_refl [OF ok]
    by (intro exI [of _ "q + 4 * PTX va"] exI [of _ s] exI [of _ ps]) (simp add: vm_ok_def)
next
  case None
  have pool: "pool_ok s ps" and tab: "tables_ok (kend s) (mem s) pgdir"
    using ok by (simp_all add: vm_ok_def)
  have walk: "walkpgdir pgdir va True s =
     (if freelist s = 0 then Ret 0 (popped s)
      else Ret (freelist s + 4 * PTX va) ((popped s)\<lparr>mem := store32 (memset (freelist s) 0 PGSIZE (mem s))
        (pgdir + 4 * PDX va) (v2p (freelist s) OR PTE_P OR PTE_W OR PTE_U)\<rparr>))"
  proof -
    have "load32 (mem s) (pgdir + 4 * PDX va) AND 1 = 0"
      using None by (simp add: pt_page_def Let_def split: if_splits)
    then show ?thesis
      using kalloc_run [OF pool_calm [OF pool]]
      by (simp add: walkpgdir_def run_simps Let_def) (simp add: popped_def)
  qed
  show ?thesis
  proof (cases ps)
    case Nil
    have "vm_ok (popped s) pgdir []" "mem (popped s) = mem s"
      using ok Nil pool_popped_empty [of s] by (simp_all add: vm_ok_def popped_def)
    then have "vm_step s (popped s) pgdir ps []"
      using Nil kstep_popped [of s] by (simp add: vm_step_def)
    then show ?thesis
      using walk pool Nil
      by (intro exI [of _ 0] exI [of _ "popped s"] exI [of _ "[]"]) (simp add: pool_ok_def popped_def)
  next
    case (Cons q ps')
    let ?m = "store32 (memset q 0 PGSIZE (mem s)) (pgdir + 4 * PDX va) (v2p q OR PTE_P OR PTE_W OR PTE_U)"
    let ?s = "(popped s)\<lparr>mem := ?m\<rparr>"
    have fl: "freelist s = q" and q: "\<not> bad_page (kend s) q" "\<not> is_table (mem s) pgdir q" "q \<noteq> 0" "q \<notin> set ps'"
      using pool ok Cons by (auto simp: pool_ok_def vm_ok_def)
    note new = new_table [OF tab None q(1,2)]
    have tab': "tables_ok (kend s) ?m pgdir"
      by (rule new(3))
    have frame: "?m x = mem s x" if "p \<noteq> q" "p \<noteq> pgdir" "p mod PGSIZE = 0" "in_page p x" for p x
      using new(5) page_disjoint [OF that(3) bad_page_mod [OF q(1)] that(1,4)]
        page_disjoint [OF that(3) tables_mod [OF tab] that(2,4)] by simp
    have rest: "r \<noteq> q" "r \<noteq> pgdir" "r mod PGSIZE = 0" if "r \<in> set ps'" for r
      using that q(4) ok pool Cons bad_page_mod [of "kend s" r]
      by (auto simp: vm_ok_def is_table_def pool_ok_def)
    have "pool_ok ?s ps'"
    proof (rule pool_mem_cong)
      show "pool_ok (popped s) ps'"
        using pool Cons by (simp add: pool_popped)
      show "?m x = mem (popped s) x" if "r \<in> set ps'" "in_page r x" for r x
        using frame [OF rest [OF that(1)] that(2)] by (simp add: popped_def)
    qed
    then have "vm_ok ?s pgdir ps'"
      using tab' new(4) ok Cons q(4) by (auto simp: vm_ok_def)
    moreover have "kstep s ?s"
      using kstep_trans [OF kstep_popped kstep_mem] .
    moreover have "mem ?s x = mem s x" if "\<not> is_table (mem ?s) pgdir p" "p mod PGSIZE = 0" "in_page p x" for p x
      using frame [of p x] that new(4) [of p] by (auto simp: is_table_def)
    moreover have "is_table (mem ?s) pgdir r \<longleftrightarrow> r = q \<or> is_table (mem s) pgdir r" for r
      using new(4) by simp
    ultimately have step: "vm_step s ?s pgdir ps ps'"
      unfolding vm_step_def using Cons by (auto intro: exI [of _ 1])
    have nz: "q + 4 * PTX va \<noteq> 0" and pt: "pt_page ?m pgdir (PDX va) = Some q"
      using vm_table_good(4) [OF tab', of va q] new(1) [OF PDX_less, of va] by simp_all
    show ?thesis
      using walk fl q(3) step nz pt new(2)
      by (intro exI [of _ "q + 4 * PTX va"] exI [of _ ?s] exI [of _ ps']) simp
  qed
qed

text \<open>Writing an entry through the address found.\<close>

lemma vm_set_pte:
  fixes v :: u32
  assumes ok: "vm_ok s pgdir ps" and q: "pt_page (mem s) pgdir (PDX va) = Some q"
  defines "s' \<equiv> s\<lparr>mem := store32 (mem s) (q + 4 * PTX va) v\<rparr>"
  shows "vm_step s s' pgdir ps ps"
    and "pt_entry (mem s') pgdir vb =
      (if PGROUNDDOWN va = PGROUNDDOWN vb then v else pt_entry (mem s) pgdir vb)"
proof -
  have tab: "tables_ok (kend s) (mem s) pgdir" and pool: "pool_ok s ps"
    using ok by (simp_all add: vm_ok_def)
  note set = set_pte [OF tab q, where v = v]
  note good = vm_table_good [OF tab q]
  have frame: "mem s' x = mem s x" if "p \<noteq> q" "p mod PGSIZE = 0" "in_page p x" for p x
    using page_disjoint [OF that(2) bad_page_mod [OF good(1)] that(1,3)] PTX_less
    by (simp add: s'_def store32_slot_outside)
  have "pool_ok s' ps"
    unfolding s'_def
  proof (rule pool_mem_cong [OF pool])
    fix r x
    assume r: "r \<in> set ps" "in_page r x"
    then have "r \<noteq> q" "r mod PGSIZE = 0"
      using ok good(3) pool bad_page_mod [of "kend s" r] by (auto simp: vm_ok_def pool_ok_def)
    then show "store32 (mem s) (q + 4 * PTX va) v x = mem s x"
      using frame [of r x] r(2) by (simp add: s'_def)
  qed
  moreover have "tables_ok (kend s') (mem s') pgdir" "is_table (mem s') pgdir = is_table (mem s) pgdir"
    using set(3,4) by (simp_all add: s'_def)
  ultimately have "vm_ok s' pgdir ps"
    using ok by (simp add: vm_ok_def)
  moreover have "kstep s s'"
    unfolding s'_def by (rule kstep_mem)
  moreover have "mem s' x = mem s x" if "\<not> is_table (mem s') pgdir p" "p mod PGSIZE = 0" "in_page p x" for p x
    using frame [of p x] that good(3) \<open>is_table (mem s') pgdir = is_table (mem s) pgdir\<close> by auto
  ultimately show "vm_step s s' pgdir ps ps"
    using \<open>is_table (mem s') pgdir = is_table (mem s) pgdir\<close>
    by (auto simp: vm_step_def intro: exI [of _ 0])
  show "pt_entry (mem s') pgdir vb =
      (if PGROUNDDOWN va = PGROUNDDOWN vb then v else pt_entry (mem s) pgdir vb)"
    using set(2) by (simp add: s'_def)
qed

lemma pt_entry_load: "pt_page m pgdir (PDX va) = Some q \<Longrightarrow> load32 m (q + 4 * PTX va) = pt_entry m pgdir va"
  by (simp add: pt_entry_def)

section \<open>Mapping pages\<close>

definition aligned :: "u32 \<Rightarrow> bool" where
  "aligned a \<longleftrightarrow> PGROUNDDOWN a = a"

lemma aligned_unat: "aligned a \<longleftrightarrow> unat a mod 4096 = 0"
proof -
  have "aligned a \<longleftrightarrow> unat a div 4096 * 4096 = unat a"
    by (simp add: aligned_def word_unat_eq_iff unat_PGROUNDDOWN)
  also have "\<dots> \<longleftrightarrow> unat a mod 4096 = 0"
    by (metis add.right_neutral add_left_cancel div_mult_mod_eq)
  finally show ?thesis .
qed

lemma aligned_PGROUNDDOWN [simp]: "aligned (PGROUNDDOWN a)"
  by (simp add: aligned_unat unat_PGROUNDDOWN)

lemma aligned_mod: "aligned a \<longleftrightarrow> a mod 4096 = 0"
  by (simp add: aligned_unat word_unat_eq_iff unat_mod)

lemma aligned_diff:
  assumes "aligned a" and "aligned b"
  shows "aligned (a - b)"
proof -
  have "unat (a - b) = (if unat b \<le> unat a then unat a - unat b else unat a + 4294967296 - unat b)"
    using unat_sub_if' [of a b] by (simp only:) simp
  moreover have "4096 dvd (4294967296 :: nat)"
    by simp
  ultimately show ?thesis
    using assms by (auto simp: aligned_unat mod_eq_0_iff_dvd intro!: dvd_diff_nat dvd_add)
qed

lemma aligned_next: "aligned a \<Longrightarrow> aligned (a + PGSIZE)"
  using aligned_diff [of a "- PGSIZE"] by (simp add: aligned_mod)

text \<open>The distance of a page from the one after \<open>a\<close>, for pages other than \<open>a\<close>.\<close>

lemma distance_next:
  assumes "aligned a" and "aligned b" and "b \<noteq> a"
  shows "unat (b - (a + PGSIZE)) = unat (b - a) - 4096" and "4096 \<le> unat (b - a)"
proof -
  have "unat (b - a) mod 4096 = 0"
    using aligned_diff [OF assms(2,1)] by (simp add: aligned_unat)
  moreover have "unat (b - a) \<noteq> 0"
    using assms(3) by (simp add: unat_eq_0)
  ultimately show le: "4096 \<le> unat (b - a)"
    by (metis mod_less not_le)
  have e: "b - (a + PGSIZE) = (b - a) - PGSIZE"
    by (simp add: algebra_simps)
  show "unat (b - (a + PGSIZE)) = unat (b - a) - 4096"
    unfolding e using unat_sub [of PGSIZE "b - a"] le by (simp add: word_le_nat_alt)
qed

text \<open>
  What \<open>mappages\<close> leaves: the pages from \<open>a\<close> to \<open>alast\<close> mapped to consecutive physical pages, every
  other entry as it was.
\<close>

definition mapped_entry :: "u32 \<Rightarrow> u32 \<Rightarrow> u32 \<Rightarrow> u32 \<Rightarrow> memory \<Rightarrow> u32 \<Rightarrow> u32 \<Rightarrow> u32" where
  "mapped_entry a alast pa perm m pgdir vb =
     (let d = PGROUNDDOWN vb - a
      in if d \<le> alast - a then (pa + d) OR perm OR PTE_P else pt_entry m pgdir vb)"

lemma mappages_loop_run:
  assumes "vm_ok s pgdir ps" and "aligned a" and "aligned alast"
    and "unat (alast - a) div 4096 < fuel"
    and "\<And>vb. PGROUNDDOWN vb - a \<le> alast - a \<Longrightarrow> pt_entry (mem s) pgdir vb AND PTE_P = 0"
  shows "\<exists>r s' ps'. mappages_loop fuel pgdir a alast pa perm s = Ret r s' \<and> vm_step s s' pgdir ps ps' \<and>
    (if r = 0 then \<forall>vb. pt_entry (mem s') pgdir vb = mapped_entry a alast pa perm (mem s) pgdir vb
     else r = - 1 \<and> ps' = [])"
  using assms
proof (induction fuel arbitrary: s ps a pa)
  case 0
  then show ?case by simp
next
  case (Suc n)
  obtain r t qs where walk: "walkpgdir pgdir a True s = Ret r t" "vm_step s t pgdir ps qs"
    and same: "\<And>vb. pt_entry (mem t) pgdir vb = pt_entry (mem s) pgdir vb"
    and r: "if r = 0 then ps = [] else pt_page (mem t) pgdir (PDX a) = Some (r - 4 * PTX a)"
    using walkpgdir_alloc [OF Suc.prems(1), of a] by blast
  show ?case
  proof (cases "r = 0")
    case True
    then have "qs = []"
      using r walk(2) by (auto simp: vm_step_def)
    with True walk show ?thesis
      by (intro exI [of _ "- 1"] exI [of _ t] exI [of _ "[]"]) (simp add: run_simps)
  next
    case False
    then have q: "pt_page (mem t) pgdir (PDX a) = Some (r - 4 * PTX a)"
      using r by simp
    have a: "PGROUNDDOWN a = a"
      using Suc.prems(2) by (simp add: aligned_def)
    have old: "load32 (mem t) r = pt_entry (mem s) pgdir a"
      using pt_entry_load [OF q] same by simp
    have absent: "load32 (mem t) r AND 1 = 0"
      using Suc.prems(5) [of a] a old by simp
    define u where "u = t\<lparr>mem := store32 (mem t) r (pa OR perm OR PTE_P)\<rparr>"
    have okt: "vm_ok t pgdir qs"
      using walk(2) by (simp add: vm_step_def)
    have u: "vm_step t u pgdir qs qs"
      "pt_entry (mem u) pgdir vb = (if a = PGROUNDDOWN vb then pa OR perm OR PTE_P else pt_entry (mem s) pgdir vb)" for vb
      using vm_set_pte [OF okt q, of "pa OR perm OR PTE_P"] same a by (simp_all add: u_def)
    have su: "vm_step s u pgdir ps qs"
      using walk(2) u(1) by (rule vm_step_trans)
    have step: "mappages_loop (Suc n) pgdir a alast pa perm s =
        (if a = alast then Ret 0 u else mappages_loop n pgdir (a + PGSIZE) alast (pa + PGSIZE) perm u)"
      using walk(1) False absent by (simp add: run_simps u_def)
    show ?thesis
    proof (cases "a = alast")
      case True
      have "pt_entry (mem u) pgdir vb = mapped_entry a alast pa perm (mem s) pgdir vb" for vb
        using True u(2) [of vb] by (auto simp: mapped_entry_def Let_def)
      with True su step show ?thesis
        by (intro exI [of _ 0] exI [of _ u] exI [of _ qs]) simp
    next
      case False
      note far_last = distance_next [OF Suc.prems(2,3) False [symmetric]]
      have dist: "PGROUNDDOWN vb - (a + PGSIZE) \<le> alast - (a + PGSIZE) \<longleftrightarrow> PGROUNDDOWN vb - a \<le> alast - a"
        if "PGROUNDDOWN vb \<noteq> a" for vb
        using distance_next [OF Suc.prems(2) aligned_PGROUNDDOWN that]
          far_last unfolding word_le_nat_alt by linarith
      have far: "\<not> a - (a + PGSIZE) \<le> alast - (a + PGSIZE)"
      proof -
        have "a - (a + PGSIZE) = 4294963200"
          by simp
        moreover have "unat (alast - (a + PGSIZE)) < 4294963200"
          using far_last unat32_less [of "alast - a"] by linarith
        ultimately show ?thesis
          by (simp add: word_le_nat_alt)
      qed
      have "\<exists>r s' ps'. mappages_loop n pgdir (a + PGSIZE) alast (pa + PGSIZE) perm u = Ret r s' \<and>
        vm_step u s' pgdir qs ps' \<and>
        (if r = 0 then \<forall>vb. pt_entry (mem s') pgdir vb =
            mapped_entry (a + PGSIZE) alast (pa + PGSIZE) perm (mem u) pgdir vb
         else r = - 1 \<and> ps' = [])"
      proof (rule Suc.IH)
        show "vm_ok u pgdir qs"
          using u(1) by (simp add: vm_step_def)
        show "aligned (a + PGSIZE)" "aligned alast"
          using Suc.prems(2,3) aligned_next by simp_all
        show "unat (alast - (a + PGSIZE)) div 4096 < n"
          using far_last Suc.prems(4) le_div_geq [of 4096 "unat (alast - a)"]
          by simp
        show "pt_entry (mem u) pgdir vb AND PTE_P = 0"
          if "PGROUNDDOWN vb - (a + PGSIZE) \<le> alast - (a + PGSIZE)" for vb
          using that far dist [of vb] u(2) [of vb] Suc.prems(5) [of vb] by auto
      qed
      then obtain r' s' ps' where rec: "mappages_loop n pgdir (a + PGSIZE) alast (pa + PGSIZE) perm u = Ret r' s'"
        "vm_step u s' pgdir qs ps'"
        "if r' = 0 then \<forall>vb. pt_entry (mem s') pgdir vb =
            mapped_entry (a + PGSIZE) alast (pa + PGSIZE) perm (mem u) pgdir vb
         else r' = - 1 \<and> ps' = []"
        by blast
      have "mapped_entry (a + PGSIZE) alast (pa + PGSIZE) perm (mem u) pgdir vb =
          mapped_entry a alast pa perm (mem s) pgdir vb" for vb
      proof (cases "PGROUNDDOWN vb = a")
        case True
        then show ?thesis
          using far u(2) [of vb] by (simp add: mapped_entry_def Let_def)
      next
        case False
        have "pa + PGSIZE + (PGROUNDDOWN vb - (a + PGSIZE)) = pa + (PGROUNDDOWN vb - a)"
          by (simp add: algebra_simps)
        then show ?thesis
          using False dist [OF False] u(2) [of vb] by (simp only: mapped_entry_def Let_def) simp
      qed
      with rec step False su vm_step_trans [OF su rec(2)] show ?thesis
        by (intro exI [of _ r'] exI [of _ s'] exI [of _ ps']) (auto split: if_splits)
    qed
  qed
qed

lemma mappages_run:
  assumes "vm_ok s pgdir ps"
    and "\<And>vb. PGROUNDDOWN vb - PGROUNDDOWN va \<le> PGROUNDDOWN (va + sz - 1) - PGROUNDDOWN va \<Longrightarrow>
      pt_entry (mem s) pgdir vb AND PTE_P = 0"
  shows "\<exists>r s' ps'. mappages pgdir va sz pa perm s = Ret r s' \<and> vm_step s s' pgdir ps ps' \<and>
    (if r = 0 then \<forall>vb. pt_entry (mem s') pgdir vb =
        mapped_entry (PGROUNDDOWN va) (PGROUNDDOWN (va + sz - 1)) pa perm (mem s) pgdir vb
     else r = - 1 \<and> ps' = [])"
  unfolding mappages_def Let_def
  using assms by (intro mappages_loop_run) (simp_all add: unat_div)

lemma PGROUNDDOWN_last:
  assumes "aligned a"
  shows "PGROUNDDOWN (a + PGSIZE - 1) = a"
proof -
  obtain k where k: "unat a = 4096 * k"
    using assms by (auto simp: aligned_unat mod_eq_0_iff_dvd elim: dvdE)
  have "k \<le> 1048575"
    using k unat32_less [of a] by simp
  then have "unat (a + 4095) = 4096 * k + 4095"
    using k by (simp add: unat_word_ariths)
  then show ?thesis
    using k by (simp add: word_unat_eq_iff unat_PGROUNDDOWN add_diff_eq [symmetric])
qed

lemma mappages_page:
  assumes "vm_ok s pgdir ps" and "aligned a" and "pt_entry (mem s) pgdir a AND PTE_P = 0"
  shows "\<exists>r s' ps'. mappages pgdir a PGSIZE pa perm s = Ret r s' \<and> vm_step s s' pgdir ps ps' \<and>
    (if r = 0 then \<forall>vb. pt_entry (mem s') pgdir vb =
        (if PGROUNDDOWN vb = a then pa OR perm OR PTE_P else pt_entry (mem s) pgdir vb)
     else r = - 1 \<and> ps' = [])"
proof -
  have a: "PGROUNDDOWN a = a"
    using assms(2) by (simp add: aligned_def)
  have l: "PGROUNDDOWN (a + PGSIZE - 1) = a"
    using assms(2) by (rule PGROUNDDOWN_last)
  have e: "pt_entry (mem s) pgdir vb = pt_entry (mem s) pgdir a" if "PGROUNDDOWN vb = a" for vb
    using same_slots [of vb a] that a by (simp add: pt_entry_def split: option.split)
  have d: "PGROUNDDOWN vb - a \<le> a - a \<longleftrightarrow> PGROUNDDOWN vb = a" for vb
    by simp
  have "pt_entry (mem s) pgdir vb AND PTE_P = 0" if "PGROUNDDOWN vb - a \<le> a - a" for vb
    using that assms(3) e [of vb] unfolding d by simp
  then show ?thesis
    using mappages_run [OF assms(1), of a PGSIZE pa perm]
    unfolding a l mapped_entry_def Let_def d by (auto cong: if_cong)
qed

section \<open>Address spaces\<close>

text \<open>What the paging hardware makes of a virtual address: a physical address and the user flag.\<close>

definition translate :: "memory \<Rightarrow> u32 \<Rightarrow> u32 \<Rightarrow> (u32 \<times> bool) option" where
  "translate m pgdir va =
     (let e = pt_entry m pgdir va
      in if e AND PTE_P \<noteq> 0 then Some (PTE_ADDR e + (va AND 0xFFF), e AND PTE_U \<noteq> 0) else None)"

lemma page_offset: "PGROUNDDOWN va + (va AND 0xFFF) = va"
  by (simp add: PGROUNDDOWN_def and_minus_4096 and_4095)

lemma PTE_ADDR_or:
  assumes "aligned p" and "f AND NOT 0xFFF = 0"
  shows "PTE_ADDR (p OR f) = p"
  using assms unfolding PTE_ADDR_def word_ao_dist by (simp add: aligned_def PGROUNDDOWN_def)

lemma aligned_add: "aligned a \<Longrightarrow> aligned b \<Longrightarrow> aligned (a + b)"
  using aligned_diff [of a "- b"] aligned_diff [of 0 b] by (simp add: aligned_mod)

lemma aligned_low:
  assumes "aligned p" and "0xFFF AND c = c"
  shows "p AND c = 0"
proof -
  have "p AND 0xFFF = 0"
    using assms(1) by (simp add: and_4095 aligned_mod)
  then have "p AND (0xFFF AND c) = 0"
    by (simp add: and.assoc [symmetric])
  with assms(2) show ?thesis by simp
qed

lemma present_or: "(x OR 1) AND 1 \<noteq> (0 :: u32)"
proof -
  have "bit ((x OR 1) AND 1) 0"
    by (simp add: bit_simps)
  then show ?thesis
    by (metis bit_0_eq bot_apply bot_bool_def)
qed

lemma translate_mapped:
  assumes "aligned pa" and "perm AND NOT 0xFFF = 0" and "aligned a"
    and "pt_entry m pgdir vb = (pa + (PGROUNDDOWN vb - a)) OR perm OR PTE_P"
  shows "translate m pgdir vb = Some (pa + (vb - a), perm AND PTE_U \<noteq> 0)"
proof -
  let ?p = "pa + (PGROUNDDOWN vb - a)"
  have p: "aligned ?p"
    using assms(1,3) by (intro aligned_add aligned_diff) simp_all
  have low: "?p AND PTE_P = 0" "?p AND PTE_U = 0"
    using aligned_low [OF p, of 1] aligned_low [OF p, of 4] by simp_all
  have "PTE_ADDR (?p OR (perm OR PTE_P)) = ?p"
    using assms(2) by (intro PTE_ADDR_or [OF p]) (simp add: word_ao_dist)
  moreover have "(?p OR (perm OR PTE_P)) AND PTE_P \<noteq> 0"
    using present_or [of "?p OR perm"] by (simp add: or.assoc)
  moreover have "(?p OR (perm OR PTE_P)) AND PTE_U = perm AND PTE_U"
    using low by (simp add: word_ao_dist)
  moreover have "?p + (vb AND 0xFFF) = pa + (vb - a)"
    using page_offset [of vb] by (simp add: algebra_simps) 
  ultimately show ?thesis
    using assms(4) by (simp add: translate_def Let_def)
qed

definition demo_vm :: kmach where
  "demo_vm = demo_kmach\<lparr>freelist := 0x80300000\<rparr>"

lemma demo_vm_ok: "vm_ok demo_vm 0x80200000 [0x80300000]"
proof -
  have m: "mem demo_vm = (\<lambda>_. 0)" and z: "load32 (\<lambda>_. 0) a = 0" for a
    by (simp_all add: demo_vm_def demo_kmach_def load32_def get32_def)
  have "pool_ok demo_vm [0x80300000]"
    using z by (simp add: pool_ok_def m) (simp add: demo_vm_def demo_kmach_def bad_page_def v2p_def cpu_ok_def)
  moreover have "pt_page (mem demo_vm) 0x80200000 i = None" for i
    by (simp add: pt_page_def m z)
  ultimately show ?thesis
    by (simp add: vm_ok_def tables_ok_def is_table_def) (simp add: demo_vm_def demo_kmach_def bad_page_def v2p_def)
qed

lemma demo_vm_empty [simp]: "pt_entry (mem demo_vm) 0x80200000 va = 0"
  by (simp add: pt_entry_def pt_page_def demo_vm_def demo_kmach_def load32_def get32_def)



lemma walkpgdir_exhausted:
  assumes "pool_ok s []" and "pt_page (mem s) pgdir (PDX va) = None"
  shows "walkpgdir pgdir va True s = Ret 0 (popped s)"
proof -
  have "load32 (mem s) (pgdir + 4 * PDX va) AND 1 = 0"
    using assms(2) by (simp add: pt_page_def Let_def split: if_splits)
  moreover have "kalloc s = Ret 0 (popped s)"
    using kalloc_run [OF pool_calm [OF assms(1)]] assms(1) by (simp add: pool_ok_def)
  ultimately show ?thesis
    by (simp add: walkpgdir_def run_simps Let_def)
qed

text \<open>
  C19: \<open>allocuvm\<close> can report success for memory it did not map. When one page is left and the page
  table of the new address does not exist yet, the page becomes the new user page, \<open>mappages\<close> then
  finds no memory for the page table and fails, the failure is ignored, and \<open>allocuvm\<close> returns the
  new size although the new address has no translation.
\<close>

theorem allocuvm_ignores_failure:
  assumes "vm_ok s pgdir [p]" and "aligned a" and "a < KERNBASE - PGSIZE"
    and "pt_page (mem s) pgdir (PDX a) = None"
  shows "\<exists>s'. allocuvm pgdir a (a + PGSIZE) s = Ret (a + PGSIZE) s' \<and> translate (mem s') pgdir a = None"
proof -
  have pool: "pool_ok s [p]" and p: "\<not> is_table (mem s) pgdir p" "\<not> bad_page (kend s) p"
    and tab: "tables_ok (kend s) (mem s) pgdir"
    using assms(1) by (auto simp: vm_ok_def pool_ok_def)
  let ?t = "(popped s)\<lparr>mem := memset p 0 PGSIZE (mem s)\<rparr>"
  have ka: "kalloc s = Ret p (popped s)" "p \<noteq> 0" "mem (popped s) = mem s"
    using kalloc_run [OF pool_calm [OF pool]] pool_head [OF pool] page_nonzero [OF p(2)]
    by (simp_all add: popped_def)
  have same: "mem ?t x = mem s x" if "is_table (mem s) pgdir q" "in_page q x" for q x
  proof -
    have "\<not> bad_page (kend s) q" "q \<noteq> p"
      using that(1) tab p(1) by (auto simp: is_table_def tables_ok_def)
    then have "\<not> in_page p x"
      using good_pages_disjoint p(2) that(2) by blast
    then show ?thesis
      by (simp add: memset_spec in_page_def)
  qed
  have "pool_ok (popped s) []"
    using pool by (rule pool_popped)
  then have "pool_ok ?t []"
    by (simp add: pool_ok_def)
  moreover have none: "pt_page (mem ?t) pgdir (PDX a) = None"
    using assms(4) tables_cong(1) [OF same PDX_less] by simp
  ultimately have "walkpgdir pgdir a True ?t = Ret 0 (popped ?t)"
    by (rule walkpgdir_exhausted)
  then have "mappages pgdir a PGSIZE (v2p p) perm ?t = Ret (- 1) (popped ?t)" for perm
    using assms(2) PGROUNDDOWN_last [OF assms(2)] unfolding mappages_def aligned_def Let_def
    by (simp add: run_simps)
  moreover have ua: "unat (a + PGSIZE) = unat a + 4096" "unat a < 2147479552"
    using assms(3) by (simp_all add: word_less_nat_alt unat_word_ariths)
  moreover have "PGROUNDUP a = a"
  proof -
    have "unat (PGROUNDUP a) = (unat a + 4095) div 4096 * 4096"
      using ua(2) by (intro unat_PGROUNDUP) simp
    moreover obtain k where "unat a = 4096 * k"
      using assms(2) by (auto simp: aligned_unat mod_eq_0_iff_dvd elim: dvdE)
    ultimately show ?thesis
      by (simp add: word_unat_eq_iff)
  qed
  ultimately have "allocuvm_loop (Suc (Suc n)) pgdir (PGROUNDUP a) a (a + PGSIZE) s =
      Ret (a + PGSIZE) (popped ?t)" for n
    using ka by (simp add: run_simps word_le_nat_alt)
  from this [of 1048575] have "allocuvm pgdir a (a + PGSIZE) s = Ret (a + PGSIZE) (popped ?t)"
    using ua unfolding allocuvm_def by (simp add: word_le_nat_alt word_less_nat_alt)
  moreover have "translate (mem (popped ?t)) pgdir a = None"
    using none by (simp add: translate_def pt_entry_def popped_def)
  ultimately show ?thesis by blast
qed

theorem allocuvm_ignores_failure_witness:
  "\<exists>s'. allocuvm 0x80200000 0x1000 0x2000 demo_vm = Ret 0x2000 s' \<and> translate (mem s') 0x80200000 0x1000 = None"
proof -
  have "pt_page (mem demo_vm) 0x80200000 i = None" for i
    by (simp add: pt_page_def demo_vm_def demo_kmach_def load32_def get32_def)
  then show ?thesis
    using allocuvm_ignores_failure [OF demo_vm_ok, of "0x1000"] by (simp add: aligned_mod)
qed

end
