(* ===== verification/ProcTable.thy ===== *)
theory ProcTable
  imports Vm
begin

text \<open>
  The process table (\<open>src/proc.c\<close>, \<open>struct proc\<close> of \<open>src/proc.h\<close>): allocation of a process, sleep
  and wakeup, killing, and the scheduler. A pointer to a process is its index in the table; a
  sleep channel is the object whose address the code passes. The routines that give up the
  processor end in the outcome \<open>Switch\<close>: \<open>sched\<close> has called \<open>swtch\<close>; what they do when they are
  scheduled again is a separate definition (\<open>sleep_wake\<close>, \<open>yield_wake\<close>, \<open>scheduler_resume\<close>).
  \<open>fork\<close>, \<open>exit\<close>, \<open>wait\<close>, \<open>growproc\<close> and \<open>userinit\<close>, which use files and inodes, are in theory
  \<open>Process\<close>.
\<close>

section \<open>State\<close>

datatype procstate = UNUSED | EMBRYO | SLEEPING | RUNNABLE | RUNNING | ZOMBIE

datatype chan =
  ProcChan nat | TicksChan | BufChan nat | InodeChan nat | LogChan | ConsChan
  | PipeReadChan u32 | PipeWriteChan u32

record proc =
  p_sz :: u32
  p_pgdir :: u32
  p_kstack :: u32
  p_state :: procstate
  p_pid :: u32
  p_parent :: "nat option"
  p_tf :: u32
  p_context :: u32
  p_chan :: "chan option"
  p_killed :: bool
  p_ofile :: "nat option list"
  p_cwd :: "nat option"
  p_name :: "u8 list"

text \<open>\<open>trapret\<close> and \<open>forkret\<close> are the addresses of code, constants of the running kernel.\<close>

record pmach = vmach +
  ptable :: "proc list"
  initproc :: "nat option"
  nextpid :: u32
  curproc :: "nat option"
  sched_trace_enabled :: bool
  sym_trapret :: u32
  sym_forkret :: u32

definition upd_proc :: "nat \<Rightarrow> (proc \<Rightarrow> proc) \<Rightarrow> ('a pmach_scheme, unit) op" where
  "upd_proc i f = modify (\<lambda>s. s\<lparr>ptable := (ptable s)[i := f (ptable s ! i)]\<rparr>)"

text \<open>The variable \<open>proc\<close>: dereferencing it while no process runs is a null pointer dereference.\<close>

definition with_proc :: "(nat \<Rightarrow> ('a pmach_scheme, 'b) op) \<Rightarrow> ('a pmach_scheme, 'b) op" where
  "with_proc f = bind (gets curproc) (\<lambda>c. case c of None \<Rightarrow> fault | Some i \<Rightarrow> f i)"

section \<open>Operations\<close>

definition pinit :: "('a pmach_scheme, unit) op" where
  "pinit = initlock PtableLock"

definition TRAPFRAME_SIZE :: u32 where [simp]: "TRAPFRAME_SIZE = 76"
definition CONTEXT_SIZE :: u32 where [simp]: "CONTEXT_SIZE = 20"

definition allocproc :: "('a pmach_scheme, nat option) op" where
  "allocproc =
     seq (acquire PtableLock)
    (bind (gets (\<lambda>s. findi (\<lambda>p. p_state p = UNUSED) (ptable s))) (\<lambda>found.
     case found of
       None \<Rightarrow> seq (release PtableLock) (ret None)
     | Some i \<Rightarrow>
       seq (upd_proc i (p_state_update (\<lambda>_. EMBRYO)))
      (bind (gets nextpid) (\<lambda>pid.
       seq (upd_proc i (p_pid_update (\<lambda>_. pid)))
      (seq (modify (\<lambda>s. s\<lparr>nextpid := pid + 1\<rparr>))
      (seq (release PtableLock)
      (bind kalloc (\<lambda>kstack.
       seq (upd_proc i (p_kstack_update (\<lambda>_. kstack)))
           (if kstack = 0 then seq (upd_proc i (p_state_update (\<lambda>_. UNUSED))) (ret None)
            else
            (let tf = kstack + KSTACKSIZE - TRAPFRAME_SIZE; sp = tf - 4; context = sp - CONTEXT_SIZE in
             seq (upd_proc i (p_tf_update (\<lambda>_. tf)))
            (seq (modify (\<lambda>s. s\<lparr>mem := store32 (mem s) sp (sym_trapret s)\<rparr>))
            (seq (upd_proc i (p_context_update (\<lambda>_. context)))
            (seq (modify (\<lambda>s. s\<lparr>mem := memset context 0 CONTEXT_SIZE (mem s)\<rparr>))
            (seq (modify (\<lambda>s. s\<lparr>mem := store32 (mem s) (context + 16) (sym_forkret s)\<rparr>))
                 (ret (Some i))))))))))))))))"

definition swtch :: "('a pmach_scheme, 'b) op" where
  "swtch s = Switch s"

definition sched :: "('a pmach_scheme, unit) op" where
  "sched =
     bind (gets (holding PtableLock)) (\<lambda>h.
     if \<not> h then panic ''sched ptable.lock''
     else bind (gets mycpu) (\<lambda>c.
     if ncli c \<noteq> 1 then panic ''sched locks''
     else with_proc (\<lambda>i.
     bind (gets (\<lambda>s. p_state (ptable s ! i))) (\<lambda>st.
     if st = RUNNING then panic ''sched running''
     else if iflag c then panic ''sched interruptible''
     else swtch))))"

text \<open>When \<open>swtch\<close> returns, \<open>sched\<close> restores the \<open>intena\<close> it kept on its stack.\<close>

definition sched_return :: "bool \<Rightarrow> ('a pmach_scheme, unit) op" where
  "sched_return intena0 = set_cpu (intena_update (\<lambda>_. intena0))"

definition yield :: "('a pmach_scheme, unit) op" where
  "yield =
     bind (gets sched_trace_enabled) (\<lambda>tr.
     seq (whenM tr (with_proc (\<lambda>i. bind (gets (\<lambda>s. p_pid (ptable s ! i))) (\<lambda>pid. cprintf ''[%d]'' [Word pid]))))
    (seq (acquire PtableLock)
    (seq (with_proc (\<lambda>i. upd_proc i (p_state_update (\<lambda>_. RUNNABLE))))
          sched)))"

definition yield_wake :: "bool \<Rightarrow> ('a pmach_scheme, unit) op" where
  "yield_wake intena0 = seq (sched_return intena0) (release PtableLock)"

definition sleep :: "chan \<Rightarrow> lockid \<Rightarrow> ('a pmach_scheme, unit) op" where
  "sleep ch lk =
     bind (gets curproc) (\<lambda>c.
     case c of
       None \<Rightarrow> panic ''sleep''
     | Some i \<Rightarrow>
       seq (whenM (lk \<noteq> PtableLock) (seq (acquire PtableLock) (release lk)))
      (seq (upd_proc i (p_chan_update (\<lambda>_. Some ch)))
      (seq (upd_proc i (p_state_update (\<lambda>_. SLEEPING)))
            sched)))"

definition sleep_wake :: "bool \<Rightarrow> lockid \<Rightarrow> ('a pmach_scheme, unit) op" where
  "sleep_wake intena0 lk =
     seq (sched_return intena0)
    (seq (with_proc (\<lambda>i. upd_proc i (p_chan_update (\<lambda>_. None))))
         (whenM (lk \<noteq> PtableLock) (seq (release PtableLock) (acquire lk))))"

definition wake_proc :: "chan \<Rightarrow> proc \<Rightarrow> proc" where
  "wake_proc ch p = (if p_state p = SLEEPING \<and> p_chan p = Some ch then p\<lparr>p_state := RUNNABLE\<rparr> else p)"

definition wakeup1 :: "chan \<Rightarrow> ('a pmach_scheme, unit) op" where
  "wakeup1 ch = modify (\<lambda>s. s\<lparr>ptable := map (wake_proc ch) (ptable s)\<rparr>)"

definition wakeup :: "chan \<Rightarrow> ('a pmach_scheme, unit) op" where
  "wakeup ch = seq (acquire PtableLock) (seq (wakeup1 ch) (release PtableLock))"

definition kill :: "u32 \<Rightarrow> ('a pmach_scheme, int) op" where
  "kill pid =
     seq (acquire PtableLock)
    (bind (gets (\<lambda>s. findi (\<lambda>p. p_pid p = pid) (ptable s))) (\<lambda>found.
     case found of
       None \<Rightarrow> seq (release PtableLock) (ret (- 1))
     | Some i \<Rightarrow>
       seq (upd_proc i (p_killed_update (\<lambda>_. True)))
      (seq (upd_proc i (\<lambda>p. if p_state p = SLEEPING then p\<lparr>p_state := RUNNABLE\<rparr> else p))
      (seq (release PtableLock)
           (ret 0)))))"

text \<open>
  The scheduler. \<open>scheduler_scan k\<close> is its \<open>for\<close> loop from slot \<open>k\<close> on: it switches to the first
  runnable process, or ends the pass. After the pass \<open>halt\<close> waits for an interrupt if nothing ran.
\<close>

definition scheduler_run :: "nat \<Rightarrow> ('a pmach_scheme, unit) op" where
  "scheduler_run i =
     seq (modify (\<lambda>s. s\<lparr>curproc := Some i\<rparr>))
    (bind (gets (\<lambda>s. ptable s ! i)) (\<lambda>p.
     seq (switchuvm (p_kstack p) (p_pgdir p))
    (seq (upd_proc i (p_state_update (\<lambda>_. RUNNING)))
          swtch)))"

definition scheduler_scan :: "nat \<Rightarrow> ('a pmach_scheme, unit) op" where
  "scheduler_scan k =
     bind (gets (\<lambda>s. findi (\<lambda>p. p_state p = RUNNABLE) (drop k (ptable s)))) (\<lambda>found.
     case found of None \<Rightarrow> release PtableLock | Some j \<Rightarrow> scheduler_run (k + j))"

definition scheduler :: "('a pmach_scheme, unit) op" where
  "scheduler = seq sti (seq (acquire PtableLock) (scheduler_scan 0))"

definition scheduler_resume :: "nat \<Rightarrow> ('a pmach_scheme, unit) op" where
  "scheduler_resume i =
     seq switchkvm
    (seq (modify (\<lambda>s. s\<lparr>curproc := None\<rparr>))
         (scheduler_scan (Suc i)))"

definition state_name :: "procstate \<Rightarrow> u8 list" where
  "state_name st =
     bytes (case st of UNUSED \<Rightarrow> ''unused'' | EMBRYO \<Rightarrow> ''embryo'' | SLEEPING \<Rightarrow> ''sleep ''
            | RUNNABLE \<Rightarrow> ''runble'' | RUNNING \<Rightarrow> ''run   '' | ZOMBIE \<Rightarrow> ''zombie'')"

definition procdump :: "('a pmach_scheme, unit) op" where
  "procdump =
     bind (gets ptable) (\<lambda>ps.
     forM ps (\<lambda>p.
       if p_state p = UNUSED then ret ()
       else
       seq (cprintf ''%d %s %s'' [Word (p_pid p), Str (Some (state_name (p_state p))), Str (Some (p_name p))])
      (seq (whenM (p_state p = SLEEPING)
             (bind (gets (\<lambda>s. load32 (mem s) (p_context p + 12))) (\<lambda>ebp.
              bind (getcallerpcs (ebp + 8)) (\<lambda>pcs.
              forM (takeWhile (\<lambda>pc. pc \<noteq> 0) pcs) (\<lambda>pc. cprintf '' %p'' [Word pc])))))
           (cprintf ''\<newline>'' []))))"

section \<open>Executing the operations\<close>

lemma wakeup_run:
  assumes "calm PtableLock s"
  shows "wakeup ch s = Ret () ((settled s)\<lparr>ptable := map (wake_proc ch) (ptable s)\<rparr>)"
  using assms
  by (simp add: wakeup_def run_simps calm_def wakeup1_def release_acquired acquired_def settled_def
      fun_upd_idem)

definition kill_proc :: "proc \<Rightarrow> proc" where
  "kill_proc p = p\<lparr>p_killed := True, p_state := (if p_state p = SLEEPING then RUNNABLE else p_state p)\<rparr>"

lemma upd_proc_run [run_simps]:
  "upd_proc i f s = Ret () (s\<lparr>ptable := (ptable s)[i := f (ptable s ! i)]\<rparr>)"
  by (simp add: upd_proc_def run_simps)

lemma kill_run:
  assumes "calm PtableLock s"
  shows "kill pid s =
    (case findi (\<lambda>p. p_pid p = pid) (ptable s) of
       None \<Rightarrow> Ret (- 1) (settled s)
     | Some i \<Rightarrow> Ret 0 ((settled s)\<lparr>ptable := (ptable s)[i := kill_proc (ptable s ! i)]\<rparr>))"
proof (cases "findi (\<lambda>p. p_pid p = pid) (ptable s)")
  case None
  then show ?thesis
    using assms
    by (simp add: kill_def run_simps calm_def release_acquired acquired_def settled_def fun_upd_idem)
next
  case (Some i)
  then have "i < length (ptable s)"
    by (rule findi_SomeD)
  then show ?thesis
    using assms Some
    by (simp add: kill_def run_simps calm_def release_acquired acquired_def settled_def fun_upd_idem
        kill_proc_def)
qed

text \<open>\<open>sleep\<close> up to the context switch: the process sleeps, the lock is free, \<open>ptable.lock\<close> is held.\<close>

definition asleep :: "chan \<Rightarrow> proc \<Rightarrow> proc" where
  "asleep ch p = p\<lparr>p_chan := Some ch, p_state := SLEEPING\<rparr>"

lemma sleep_run:
  assumes "curproc s = Some i" and "i < length (ptable s)" and "lk \<noteq> PtableLock"
    and "locks s lk = locked_by (cpu_id (mycpu s))" and "locks s PtableLock = unlocked"
    and "ncli (mycpu s) = 1" and "\<not> iflag (mycpu s)"
  shows "sleep ch lk s = Switch (s\<lparr>
    locks := (locks s)(PtableLock := locked_by (cpu_id (mycpu s)), lk := unlocked),
    ptable := (ptable s)[i := asleep ch (ptable s ! i)]\<rparr>)"
proof -
  have "cpu_pop (cpu_push (mycpu s)) = mycpu s"
    using assms(6,7) by (simp add: cpu_pop_push cpu_ok_def settle_def)
  then show ?thesis
    using assms
    by (simp add: sleep_def run_simps acquired_def released_def sched_def with_proc_def holding_def
        locked_by_def swtch_def asleep_def)
qed

section \<open>The invariant of the table\<close>

definition used :: "proc \<Rightarrow> bool" where
  "used p \<longleftrightarrow> p_state p \<noteq> UNUSED"

definition proc_ok :: "proc \<Rightarrow> bool" where
  "proc_ok p \<longleftrightarrow> (p_state p = SLEEPING \<longrightarrow> p_chan p \<noteq> None) \<and> length (p_ofile p) = NOFILE"

definition table_ok :: "proc list \<Rightarrow> u32 \<Rightarrow> bool" where
  "table_ok ps next \<longleftrightarrow>
     length ps = NPROC \<and> (\<forall>p \<in> set ps. proc_ok p) \<and>
     (\<forall>i < length ps. used (ps ! i) \<longrightarrow> 0 < p_pid (ps ! i) \<and> p_pid (ps ! i) < next) \<and>
     (\<forall>i < length ps. \<forall>j < length ps. used (ps ! i) \<longrightarrow> used (ps ! j) \<longrightarrow>
        p_pid (ps ! i) = p_pid (ps ! j) \<longrightarrow> i = j)"

text \<open>The process that runs, if any, is in use.\<close>

definition current_ok :: "nat option \<Rightarrow> proc list \<Rightarrow> bool" where
  "current_ok c ps \<longleftrightarrow> (case c of None \<Rightarrow> True | Some i \<Rightarrow> i < length ps \<and> used (ps ! i))"

definition pt_inv :: "'a pmach_scheme \<Rightarrow> bool" where
  "pt_inv s \<longleftrightarrow> table_ok (ptable s) (nextpid s) \<and> current_ok (curproc s) (ptable s)"

interpretation pt: upper_layer pt_inv
  by unfold_locales (simp_all add: pt_inv_def)

text \<open>Updates that neither bring an unused slot to life nor change a process id.\<close>

definition mild :: "(proc \<Rightarrow> proc) \<Rightarrow> bool" where
  "mild f \<longleftrightarrow> (\<forall>p. proc_ok p \<longrightarrow> proc_ok (f p)) \<and> (\<forall>p. p_pid (f p) = p_pid p) \<and>
     (\<forall>p. used (f p) \<longleftrightarrow> used p)"

lemma table_ok_mild:
  assumes "table_ok ps n" and "mild f"
  shows "table_ok (ps[i := f (ps ! i)]) n"
proof (cases "i < length ps")
  case False
  then show ?thesis
    using assms(1) by (simp add: list_update_beyond)
next
  case True
  have nth: "(ps[i := f (ps ! i)]) ! k = (if k = i then f (ps ! i) else ps ! k)" if "k < length ps" for k
    using True by simp
  have pid: "p_pid ((ps[i := f (ps ! i)]) ! k) = p_pid (ps ! k)"
    and use: "used ((ps[i := f (ps ! i)]) ! k) \<Longrightarrow> used (ps ! k)" if "k < length ps" for k
    using nth [OF that] assms(2) by (auto simp: mild_def split: if_splits)
  have "proc_ok (f (ps ! i))" and "\<forall>p \<in> set ps. proc_ok p"
    using assms nth_mem [OF True] by (auto simp: table_ok_def mild_def)
  then have "\<forall>p \<in> set (ps[i := f (ps ! i)]). proc_ok p"
    using set_update_subset_insert [of ps i "f (ps ! i)"] by blast
  then show ?thesis
    using assms(1) pid use unfolding table_ok_def by (metis length_list_update)
qed

lemma current_ok_mild: "mild f \<Longrightarrow> current_ok c ps \<Longrightarrow> current_ok c (ps[i := f (ps ! i)])"
  by (cases c) (auto simp: current_ok_def mild_def nth_update_at)

lemma keeps_upd_proc: "mild f \<Longrightarrow> keeps pt_inv (upd_proc i f)"
  unfolding upd_proc_def
  by (rule keeps_modify) (simp add: pt_inv_def table_ok_mild current_ok_mild)

lemma table_ok_map:
  assumes "table_ok ps n" and "mild f"
  shows "table_ok (map f ps) n"
  using assms unfolding table_ok_def mild_def by (auto simp: nth_map) 

lemma mild_updates [simp]:
  "mild (p_killed_update g)" "mild (p_kstack_update h)" "mild (p_context_update h)" "mild (p_tf_update h)"
  "mild (p_sz_update h)" "mild (p_pgdir_update h)" "mild (wake_proc ch)" "mild kill_proc"
  by (auto simp: mild_def proc_ok_def used_def wake_proc_def kill_proc_def)

lemma keeps_wakeup1 [keeps_intros]: "keeps pt_inv (wakeup1 ch)"
  unfolding wakeup1_def
proof (rule keeps_modify)
  fix s :: "'a pmach_scheme"
  assume inv: "pt_inv s"
  have "current_ok (curproc s) (map (wake_proc ch) (ptable s))"
    using inv by (auto simp: pt_inv_def current_ok_def used_def wake_proc_def split: option.splits)
  with inv show "pt_inv (s\<lparr>ptable := map (wake_proc ch) (ptable s)\<rparr>)"
    by (simp add: pt_inv_def table_ok_map)
qed

lemma keeps_wakeup [keeps_intros]: "keeps pt_inv (wakeup ch)"
  unfolding wakeup_def by (intro keeps_intros)

lemma mild_wake_state: "mild (\<lambda>p. if p_state p = SLEEPING then p\<lparr>p_state := RUNNABLE\<rparr> else p)"
  by (auto simp: mild_def proc_ok_def used_def)

lemma keeps_kill [keeps_intros]: "keeps pt_inv (kill pid)"
  unfolding kill_def by (intro keeps_intros keeps_upd_proc mild_updates mild_wake_state)

lemma keeps_swtch [keeps_intros]: "keeps pt_inv swtch"
  by (simp add: keeps_def swtch_def)

lemma keeps_with_proc [keeps_intros]: "(\<And>i. keeps pt_inv (f i)) \<Longrightarrow> keeps pt_inv (with_proc f)"
  unfolding with_proc_def by (intro keeps_intros)

lemma keeps_sched [keeps_intros]: "keeps pt_inv sched"
  unfolding sched_def by (intro keeps_intros)

text \<open>
  Operations on the running process, whose slot is known to be in use: the invariant together
  with the identity of the running process.
\<close>

definition running_inv :: "nat \<Rightarrow> 'a pmach_scheme \<Rightarrow> bool" where
  "running_inv i s \<longleftrightarrow> pt_inv s \<and> curproc s = Some i"

interpretation run: upper_layer "running_inv i" for i
  by unfold_locales (simp_all add: running_inv_def)

lemma keeps_curproc:
  assumes "keeps pt_inv m" and "\<And>i. keeps (running_inv i) (f i)"
  shows "keeps pt_inv (bind (gets curproc) (\<lambda>c. case c of None \<Rightarrow> m | Some i \<Rightarrow> f i))"
  unfolding keeps_def
proof (intro allI impI)
  fix s :: "'a pmach_scheme"
  assume inv: "pt_inv s"
  show "case bind (gets curproc) (\<lambda>c. case c of None \<Rightarrow> m | Some i \<Rightarrow> f i) s of
      Ret _ s' \<Rightarrow> pt_inv s' | Panic _ \<Rightarrow> True | Switch s' \<Rightarrow> pt_inv s' | Spin _ s' \<Rightarrow> pt_inv s' | Fault \<Rightarrow> True"
  proof (cases "curproc s")
    case None
    with inv assms(1) show ?thesis
      by (simp add: keeps_def run_simps)
  next
    case (Some i)
    with inv have "running_inv i s"
      by (simp add: running_inv_def)
    then show ?thesis
      using keeps_case [OF assms(2) [of i], of s pt_inv] Some by (simp add: run_simps running_inv_def)
  qed
qed

lemma keeps_upd_current:
  assumes "\<And>p. used p \<Longrightarrow> proc_ok p \<Longrightarrow> proc_ok (f p)" and "\<And>p. p_pid (f p) = p_pid p"
    and "\<And>p. used p \<Longrightarrow> used (f p)"
  shows "keeps (running_inv i) (upd_proc i f)"
  unfolding upd_proc_def
proof (rule keeps_modify)
  fix s :: "'a pmach_scheme"
  assume "running_inv i s"
  then have inv: "pt_inv s" and c: "curproc s = Some i"
    by (simp_all add: running_inv_def)
  let ?g = "\<lambda>p. if used p then f p else p"
  have "used (ptable s ! i)"
    using inv c by (simp add: pt_inv_def current_ok_def)
  then have g: "(ptable s)[i := f (ptable s ! i)] = (ptable s)[i := ?g (ptable s ! i)]"
    by simp
  have "mild ?g"
    using assms by (auto simp: mild_def)
  then show "running_inv i (s\<lparr>ptable := (ptable s)[i := f (ptable s ! i)]\<rparr>)"
    using inv c table_ok_mild [of "ptable s" "nextpid s" ?g i] current_ok_mild [of ?g "curproc s" "ptable s" i]
    unfolding g by (simp only: running_inv_def pt_inv_def) simp
qed

lemma upd_proc_upd: "seq (upd_proc i f) (seq (upd_proc i g) m) = seq (upd_proc i (\<lambda>p. g (f p))) m"
proof
  fix s :: "'a pmach_scheme"
  show "seq (upd_proc i f) (seq (upd_proc i g) m) s = seq (upd_proc i (\<lambda>p. g (f p))) m s"
    by (cases "i < length (ptable s)") (simp_all add: run_simps list_update_beyond)
qed

lemma keeps_running_sched [keeps_intros]: "keeps (running_inv i) sched" "keeps (running_inv i) swtch"
proof -
  show sw: "keeps (running_inv i) swtch"
    by (simp add: keeps_def swtch_def)
  show "keeps (running_inv i) sched"
    unfolding sched_def with_proc_def by (intro keeps_intros sw)
qed

lemma keeps_yield [keeps_intros]: "keeps pt_inv yield"
proof -
  have runnable: "keeps pt_inv (with_proc (\<lambda>i. upd_proc i (p_state_update (\<lambda>_. RUNNABLE))))"
  proof -
    have "keeps (running_inv i) (upd_proc i (p_state_update (\<lambda>_. RUNNABLE)))" for i
      by (rule keeps_upd_current) (simp_all add: proc_ok_def used_def)
    then show ?thesis
      unfolding with_proc_def by (intro keeps_curproc keeps_intros)
  qed
  show ?thesis
    unfolding yield_def by (rule runnable keeps_intros)+
qed

lemma keeps_sleep [keeps_intros]: "keeps pt_inv (sleep ch lk)"
proof -
  have "keeps (running_inv i) (upd_proc i (\<lambda>p. p\<lparr>p_chan := Some ch, p_state := SLEEPING\<rparr>))" for i
    by (rule keeps_upd_current) (simp_all add: proc_ok_def used_def)
  then show ?thesis
    unfolding sleep_def upd_proc_upd by (intro keeps_curproc keeps_intros)
qed

lemma keeps_switch_to: "keeps pt_inv (modify (\<lambda>s. s\<lparr>curproc := None\<rparr>))"
  by (rule keeps_modify) (simp add: pt_inv_def current_ok_def)

text \<open>A runnable process found by the scan is in use, so that running it keeps the invariant.\<close>

lemma scheduler_scan_keeps: "keeps pt_inv (scheduler_scan k)"
  unfolding keeps_def
proof (intro allI impI)
  fix s :: "'a pmach_scheme"
  assume inv: "pt_inv s"
  show "case scheduler_scan k s of
      Ret _ s' \<Rightarrow> pt_inv s' | Panic _ \<Rightarrow> True | Switch s' \<Rightarrow> pt_inv s' | Spin _ s' \<Rightarrow> pt_inv s' | Fault \<Rightarrow> True"
  proof (cases "findi (\<lambda>p. p_state p = RUNNABLE) (drop k (ptable s))")
    case None
    then have "scheduler_scan k s = release PtableLock s"
      by (simp add: scheduler_scan_def run_simps)
    then show ?thesis
      using keeps_case [OF pt.keeps_locking(7) [of PtableLock] inv, of pt_inv] by simp
  next
    case (Some j)
    then have j: "k + j < length (ptable s)" "p_state (ptable s ! (k + j)) = RUNNABLE"
      using findi_SomeD [OF Some] by simp_all
    let ?t = "s\<lparr>curproc := Some (k + j)\<rparr>"
    have t: "running_inv (k + j) ?t"
      using inv j by (simp add: running_inv_def pt_inv_def current_ok_def used_def)
    let ?m = "seq (switchuvm (p_kstack (ptable s ! (k + j))) (p_pgdir (ptable s ! (k + j))))
      (seq (upd_proc (k + j) (p_state_update (\<lambda>_. RUNNING))) swtch)"
    have "keeps (running_inv (k + j)) (upd_proc (k + j) (p_state_update (\<lambda>_. RUNNING)))"
      by (rule keeps_upd_current) (simp_all add: proc_ok_def used_def)
    then have m: "keeps (running_inv (k + j)) ?m"
      by (intro keeps_intros)
    have "scheduler_scan k s = ?m ?t"
      by (simp add: scheduler_scan_def scheduler_run_def run_simps Some)
    then show ?thesis
      using keeps_case [OF m t, of pt_inv] by (simp add: running_inv_def)
  qed
qed

lemma keeps_scheduler [keeps_intros]: "keeps pt_inv scheduler" "keeps pt_inv (scheduler_resume i)"
  unfolding scheduler_def scheduler_resume_def
  by (intro keeps_intros scheduler_scan_keeps keeps_switch_to)+

text \<open>
  \<open>allocproc\<close>, split at the two places where it can fail.
\<close>

definition reserved :: "nat \<Rightarrow> 'a pmach_scheme \<Rightarrow> 'a pmach_scheme" where
  "reserved i s = s\<lparr>
     ptable := (ptable s)[i := (ptable s ! i)\<lparr>p_state := EMBRYO, p_pid := nextpid s\<rparr>],
     nextpid := nextpid s + 1, mycpu := settle (mycpu s)\<rparr>"

definition kstack_frame :: "u32 \<Rightarrow> proc \<Rightarrow> proc" where
  "kstack_frame k p = p\<lparr>p_kstack := k, p_tf := k + KSTACKSIZE - TRAPFRAME_SIZE,
     p_context := k + KSTACKSIZE - TRAPFRAME_SIZE - 4 - CONTEXT_SIZE\<rparr>"

lemma allocproc_run:
  assumes "calm PtableLock s" and "locks s KmemLock = unlocked"
  shows "allocproc s =
    (case findi (\<lambda>p. p_state p = UNUSED) (ptable s) of
       None \<Rightarrow> Ret None (settled s)
     | Some i \<Rightarrow>
       (let k = freelist s; t = popped (reserved i s); tf = k + KSTACKSIZE - TRAPFRAME_SIZE; c = tf - 4 - CONTEXT_SIZE in
        if k = 0 then Ret None (t\<lparr>ptable := (ptable t)[i := (ptable t ! i)\<lparr>p_kstack := 0, p_state := UNUSED\<rparr>]\<rparr>)
        else Ret (Some i) (t\<lparr>
          mem := store32 (memset c 0 CONTEXT_SIZE (store32 (mem s) (tf - 4) (sym_trapret s))) (c + 16) (sym_forkret s),
          ptable := (ptable t)[i := kstack_frame k (ptable t ! i)]\<rparr>)))"
proof (cases "findi (\<lambda>p. p_state p = UNUSED) (ptable s)")
  case None
  then show ?thesis
    using assms
    by (simp add: allocproc_def run_simps calm_def release_acquired acquired_def settled_def fun_upd_idem)
next
  case (Some i)
  then have i: "i < length (ptable s)"
    by (rule findi_SomeD)
  have calm: "calm KmemLock (reserved i s)" and fl: "freelist (reserved i s) = freelist s"
    using assms by (simp_all add: calm_def reserved_def settled_def)
  have sel: "ptable (popped u) = ptable u" "mem (popped u) = mem u" "sym_trapret (popped u) = sym_trapret u"
    "sym_forkret (popped u) = sym_forkret u" for u :: "'a pmach_scheme"
    by (simp_all add: popped_def ksettled_def settled_def)
  have rsel: "mem (reserved i s) = mem s" "sym_trapret (reserved i s) = sym_trapret s"
    "sym_forkret (reserved i s) = sym_forkret s" "length (ptable (reserved i s)) = length (ptable s)"
    by (simp_all add: reserved_def settled_def)
  have "allocproc s = (bind kalloc (\<lambda>kstack.
       seq (upd_proc i (p_kstack_update (\<lambda>_. kstack)))
           (if kstack = 0 then seq (upd_proc i (p_state_update (\<lambda>_. UNUSED))) (ret None)
            else
            (let tf = kstack + KSTACKSIZE - TRAPFRAME_SIZE; sp = tf - 4; context = sp - CONTEXT_SIZE in
             seq (upd_proc i (p_tf_update (\<lambda>_. tf)))
            (seq (modify (\<lambda>s. s\<lparr>mem := store32 (mem s) sp (sym_trapret s)\<rparr>))
            (seq (upd_proc i (p_context_update (\<lambda>_. context)))
            (seq (modify (\<lambda>s. s\<lparr>mem := memset context 0 CONTEXT_SIZE (mem s)\<rparr>))
            (seq (modify (\<lambda>s. s\<lparr>mem := store32 (mem s) (context + 16) (sym_forkret s)\<rparr>))
                 (ret (Some i)))))))))) (reserved i s)"
    using assms i Some
    by (simp add: allocproc_def run_simps calm_def release_acquired acquired_def settled_def fun_upd_idem
        reserved_def)
  then show ?thesis
    using i Some by (simp add: run_simps kalloc_run [OF calm] fl sel rsel Let_def kstack_frame_def)
qed

section \<open>What the process table guarantees\<close>

lemma table_ok_reserve:
  assumes "table_ok ps n" and "i < length ps" and "\<not> used (ps ! i)" and "0 < n" and "n \<noteq> - 1"
  shows "table_ok (ps[i := (ps ! i)\<lparr>p_state := EMBRYO, p_pid := n\<rparr>]) (n + 1)"
proof -
  let ?qs = "ps[i := (ps ! i)\<lparr>p_state := EMBRYO, p_pid := n\<rparr>]"
  have up: "n < n + 1"
    using unat_succ_word [OF assms(5)] by (simp add: word_less_nat_alt)
  have "proc_ok (ps ! i)"
    using assms(1,2) by (simp add: table_ok_def)
  then have "\<forall>p \<in> set ?qs. proc_ok p"
    using assms(1) set_update_subset_insert [of ps i] by (fastforce simp: table_ok_def proc_ok_def)
  moreover have "0 < p_pid (?qs ! k) \<and> p_pid (?qs ! k) < n + 1" if "k < length ps" "used (?qs ! k)" for k
    using assms(1,4) that up by (cases "k = i") (auto simp: table_ok_def nth_update_at intro: less_trans)
  moreover have "j = k"
    if "j < length ps" "k < length ps" "used (?qs ! j)" "used (?qs ! k)" "p_pid (?qs ! j) = p_pid (?qs ! k)" for j k
    using assms(1) that by (auto simp: table_ok_def nth_update_at split: if_splits)
  ultimately show ?thesis
    using assms(1) by (auto simp: table_ok_def)
qed

lemma table_ok_free:
  assumes "table_ok ps n" and "\<not> used p" and "proc_ok p"
  shows "table_ok (ps[i := p]) n"
proof -
  have "\<forall>q \<in> set (ps[i := p]). proc_ok q"
    using assms(1,3) set_update_subset_insert [of ps i p] by (auto simp: table_ok_def)
  then show ?thesis
    using assms(1,2) by (auto simp: table_ok_def nth_update_at split: if_splits)
qed

lemma current_ok_other: "current_ok c ps \<Longrightarrow> \<not> used (ps ! i) \<Longrightarrow> current_ok c (ps[i := p])"
  by (cases c) (auto simp: current_ok_def nth_update_at)

definition fresh_proc :: proc where
  "fresh_proc = \<lparr>p_sz = 0, p_pgdir = 0, p_kstack = 0, p_state = UNUSED, p_pid = 0, p_parent = None,
     p_tf = 0, p_context = 0, p_chan = None, p_killed = False, p_ofile = replicate NOFILE None,
     p_cwd = None, p_name = []\<rparr>"

definition demo_pmach :: pmach where
  "demo_pmach = \<lparr>mem = (\<lambda>_. 0), locks = (\<lambda>_. unlocked),
     mycpu = \<lparr>cpu_id = 0, ncli = 0, intena = False, iflag = False\<rparr>,
     uart = True, uart_out = [], crt = (\<lambda>_. 0), crtc_pos = 0, cons_locking = True, panicked = False,
     kend = 0x80100000, use_lock = True, freelist = 0x80300000, kdata = 0x80108000, kpgdir = 0, cr3 = 0,
     ts_ss0 = 0, ts_esp0 = 0, ptable = replicate NPROC fresh_proc, initproc = None, nextpid = 1,
     curproc = None, sched_trace_enabled = False, sym_trapret = 0x80101000, sym_forkret = 0x80102000\<rparr>"

lemma demo_pt_inv: "pt_inv demo_pmach"
  by (simp add: pt_inv_def table_ok_def current_ok_def demo_pmach_def fresh_proc_def proc_ok_def used_def)

lemma demo_calm: "calm PtableLock demo_pmach" "locks demo_pmach KmemLock = unlocked"
  by (simp_all add: calm_def demo_pmach_def cpu_ok_def)

text \<open>
  C14: The invariant of the process table. The table has \<open>NPROC\<close> slots, processes in use have
  different positive process ids below \<open>nextpid\<close>, a sleeping process has a channel, the running
  process is in use: sleeping, waking, killing, yielding and every pass of the scheduler preserve
  this, whether they return, switch to another process or spin on a lock.
\<close>

theorem ptable_invariant:
  "keeps pt_inv (sleep ch lk) \<and> keeps pt_inv (wakeup ch) \<and> keeps pt_inv (kill pid) \<and> keeps pt_inv yield \<and>
   keeps pt_inv scheduler \<and> keeps pt_inv (scheduler_resume i)"
  by (intro conjI keeps_intros)

text \<open>
  C15: \<open>allocproc\<close> reserves a free slot. It returns null only if the table is full or no page is left
  for the kernel stack; otherwise it returns a slot that was unused, now an embryo with the next
  process id, which no process in use has, and a stack laid out to return through \<open>forkret\<close> and
  \<open>trapret\<close>. The invariant of the table holds afterwards and no other slot changed.
\<close>

theorem allocproc_reserves:
  assumes "pt_inv s" and "calm PtableLock s" and "locks s KmemLock = unlocked"
    and "0 < nextpid s" and "nextpid s \<noteq> - 1"
  shows "\<exists>r s'. allocproc s = Ret r s' \<and> pt_inv s' \<and>
    (case r of
       None \<Rightarrow> freelist s = 0 \<or> (\<forall>p \<in> set (ptable s). used p)
     | Some i \<Rightarrow> i < NPROC \<and> \<not> used (ptable s ! i) \<and> p_state (ptable s' ! i) = EMBRYO \<and>
         p_pid (ptable s' ! i) = nextpid s \<and> (\<forall>j < NPROC. j = i \<or> ptable s' ! j = ptable s ! j) \<and>
         load32 (mem s') (p_context (ptable s' ! i) + 16) = sym_forkret s)"
proof (cases "findi (\<lambda>p. p_state p = UNUSED) (ptable s)")
  case None
  then have "\<forall>p \<in> set (ptable s). used p"
    by (simp add: findi_None used_def)
  moreover have "pt_inv (settled s)"
    using assms(1) by (simp add: settled_def)
  ultimately show ?thesis
    using None allocproc_run [OF assms(2,3)] by (intro exI [of _ None] exI [of _ "settled s"]) simp
next
  case (Some i)
  have i: "i < length (ptable s)" "\<not> used (ptable s ! i)"
    using findi_SomeD [OF Some] by (simp_all add: used_def)
  have len: "length (ptable s) = NPROC"
    using assms(1) by (simp add: pt_inv_def table_ok_def)
  define t where "t = popped (reserved i s)"
  have pt: "ptable t = (ptable s)[i := (ptable s ! i)\<lparr>p_state := EMBRYO, p_pid := nextpid s\<rparr>]"
    "nextpid t = nextpid s + 1" "curproc t = curproc s"
    by (simp_all add: t_def popped_def ksettled_def settled_def reserved_def)
  have inv: "table_ok (ptable t) (nextpid t)"
    unfolding pt using table_ok_reserve [OF _ i assms(4,5)] assms(1) by (simp add: pt_inv_def)
  have cur: "current_ok (curproc s) ((ptable s)[i := p])" for p
    using assms(1) i(2) current_ok_other by (auto simp: pt_inv_def)
  let ?k = "freelist s"
  show ?thesis
  proof (cases "?k = 0")
    case True
    let ?s' = "t\<lparr>ptable := (ptable t)[i := (ptable t ! i)\<lparr>p_kstack := 0, p_state := UNUSED\<rparr>]\<rparr>"
    have "allocproc s = Ret None ?s'"
      using Some True allocproc_run [OF assms(2,3)] by (simp add: Let_def t_def)
    moreover have "i < length (ptable t)"
      using i pt by simp
    then have "proc_ok (ptable t ! i)"
      using inv by (auto simp: table_ok_def)
    then have "proc_ok ((ptable t ! i)\<lparr>p_kstack := 0, p_state := UNUSED\<rparr>)"
      by (simp add: proc_ok_def)
    then have "table_ok (ptable ?s') (nextpid ?s')"
      using table_ok_free [OF inv, of "(ptable t ! i)\<lparr>p_kstack := 0, p_state := UNUSED\<rparr>" i]
      by (simp add: used_def)
    then have "pt_inv ?s'"
      using cur pt by (simp add: pt_inv_def)
    ultimately show ?thesis
      using True by (intro exI [of _ None] exI [of _ ?s']) simp
  next
    case False
    let ?tf = "?k + KSTACKSIZE - TRAPFRAME_SIZE"
    let ?c = "?tf - 4 - CONTEXT_SIZE"
    let ?s' = "t\<lparr>mem := store32 (memset ?c 0 CONTEXT_SIZE (store32 (mem s) (?tf - 4) (sym_trapret s)))
        (?c + 16) (sym_forkret s), ptable := (ptable t)[i := kstack_frame ?k (ptable t ! i)]\<rparr>"
    have "allocproc s = Ret (Some i) ?s'"
      using Some False allocproc_run [OF assms(2,3)] by (simp only: t_def Let_def) simp
    moreover have "mild (kstack_frame ?k)"
      by (simp add: mild_def kstack_frame_def proc_ok_def used_def)
    then have "table_ok (ptable ?s') (nextpid ?s')"
      using table_ok_mild [OF inv] by simp
    then have "pt_inv ?s'"
      using cur pt by (simp add: pt_inv_def)
    ultimately show ?thesis
      using i len pt
      by (intro exI [of _ "Some i"] exI [of _ ?s']) (auto simp: kstack_frame_def nth_update_at)
  qed
qed

theorem allocproc_reserves_witness:
  "\<exists>s'. allocproc demo_pmach = Ret (Some 0) s' \<and> pt_inv s' \<and> p_state (ptable s' ! 0) = EMBRYO \<and> p_pid (ptable s' ! 0) = 1"
proof -
  have d: "0 < nextpid demo_pmach" "nextpid demo_pmach \<noteq> - 1" "freelist demo_pmach \<noteq> 0" "nextpid demo_pmach = 1"
    "\<not> (\<forall>p \<in> set (ptable demo_pmach). used p)"
    by (simp_all add: demo_pmach_def used_def fresh_proc_def)
  have "findi (\<lambda>p. p_state p = UNUSED) (ptable demo_pmach) = Some 0"
    by (simp add: demo_pmach_def fresh_proc_def numeral_eq_Suc)
  then obtain s' where "allocproc demo_pmach = Ret (Some 0) s'"
    using allocproc_run [OF demo_calm] d(3) by (auto simp: Let_def)
  with allocproc_reserves [OF demo_pt_inv demo_calm d(1,2)] d(4) show ?thesis
    by auto
qed


definition demo_sleeper :: pmach where
  "demo_sleeper = demo_pmach\<lparr>
     locks := (\<lambda>_. unlocked)(TicksLock := locked_by 0),
     mycpu := \<lparr>cpu_id = 0, ncli = 1, intena = True, iflag = False\<rparr>,
     ptable := (replicate NPROC fresh_proc)[3 := fresh_proc\<lparr>p_state := RUNNING, p_pid := 1\<rparr>], curproc := Some 3\<rparr>"


text \<open>
  C20: \<open>kill\<close> and unused slots. \<open>kill(0)\<close> succeeds whenever the table has a slot whose process id is
  0, although no process has that id, and marks the slot as killed; \<open>allocproc\<close> does not clear the
  mark, so that the next process to get the slot is born killed.
\<close>

theorem kill_marks_free_slot:
  assumes "calm PtableLock s" and "locks s KmemLock = unlocked" and "freelist s \<noteq> 0"
    and "findi (\<lambda>p. p_pid p = 0) (ptable s) = Some i" and "findi (\<lambda>p. p_state p = UNUSED) (ptable s) = Some i"
  shows "\<exists>s1 s2. kill 0 s = Ret 0 s1 \<and> allocproc s1 = Ret (Some i) s2 \<and> p_killed (ptable s2 ! i)"
proof -
  have i: "i < length (ptable s)" "p_state (ptable s ! i) = UNUSED"
    using findi_SomeD [OF assms(5)] by simp_all
  let ?s1 = "(settled s)\<lparr>ptable := (ptable s)[i := kill_proc (ptable s ! i)]\<rparr>"
  have k: "kill 0 s = Ret 0 ?s1"
    using kill_run [OF assms(1)] assms(4) by simp
  have calm: "calm PtableLock ?s1" "locks ?s1 KmemLock = unlocked" "freelist ?s1 \<noteq> 0"
    using assms by (simp_all add: calm_def settled_def)
  have "findi (\<lambda>p. p_state p = UNUSED) (ptable ?s1) = Some i"
    using assms(5) i by (auto simp: findi_Some nth_update_at kill_proc_def)
  then have "\<exists>s2. allocproc ?s1 = Ret (Some i) s2 \<and> p_killed (ptable s2 ! i)"
    using allocproc_run [OF calm(1,2)] calm(3) i
    by (simp add: Let_def kstack_frame_def popped_def ksettled_def settled_def reserved_def kill_proc_def)
  with k show ?thesis
    by blast
qed

theorem kill_marks_free_slot_witness:
  "\<exists>s1 s2. kill 0 demo_pmach = Ret 0 s1 \<and> allocproc s1 = Ret (Some 0) s2 \<and> p_killed (ptable s2 ! 0)"
proof -
  have "findi (\<lambda>p. p_state p = UNUSED) (ptable demo_pmach) = Some 0"
    "findi (\<lambda>p. p_pid p = 0) (ptable demo_pmach) = Some 0"
    by (simp_all add: demo_pmach_def fresh_proc_def numeral_eq_Suc)
  moreover have "freelist demo_pmach \<noteq> 0"
    by (simp add: demo_pmach_def)
  ultimately show ?thesis
    using kill_marks_free_slot [OF demo_calm] by blast
qed

end
