(* ===== verification/BlockStore.thy ===== *)
theory BlockStore
  imports Params
begin

text \<open>
  What the log and the file system rely on from the buffer cache (\<open>src/bio.c\<close>): the abstract state of a store
  of blocks, the effect of each operation on it, and the contract that an implementation fulfils. The patterns in
  which the clients use the operations (read a block, rewrite a block, copy one block over another) are
  verified here once, against the contract.
\<close>

text \<open>
  What a client of the cache knows: the contents of the blocks, what the disk holds, the disk writes so far, the
  buffers it holds, the blocks that must not be evicted (\<open>B_DIRTY\<close>), and the number of buffers not available.
\<close>

record bstore =
  st_view :: "u32 \<Rightarrow> u8 list"
  st_disk :: "u32 \<Rightarrow> u8 list"
  st_writes :: "(u32 \<times> u8 list) list"
  st_hold :: "nat \<Rightarrow> u32 option"
  st_pins :: "u32 set"
  st_used :: nat

definition spec_read :: "u32 \<Rightarrow> nat \<Rightarrow> bstore \<Rightarrow> bstore" where
  "spec_read n i a = a\<lparr>st_hold := (st_hold a)(i \<mapsto> n),
     st_used := (if n \<in> st_pins a then st_used a else Suc (st_used a))\<rparr>"

definition spec_edit :: "u32 \<Rightarrow> u8 list \<Rightarrow> bstore \<Rightarrow> bstore" where
  "spec_edit n d a = a\<lparr>st_view := (st_view a)(n := d)\<rparr>"

definition spec_pin :: "u32 \<Rightarrow> bstore \<Rightarrow> bstore" where
  "spec_pin n a = a\<lparr>st_pins := insert n (st_pins a)\<rparr>"

definition spec_write :: "u32 \<Rightarrow> bstore \<Rightarrow> bstore" where
  "spec_write n a = a\<lparr>st_disk := (st_disk a)(n := st_view a n), st_writes := st_writes a @ [(n, st_view a n)],
     st_pins := st_pins a - {n}\<rparr>"

definition spec_release :: "nat \<Rightarrow> u32 \<Rightarrow> bstore \<Rightarrow> bstore" where
  "spec_release i n a = a\<lparr>st_hold := (st_hold a)(i := None),
     st_used := (if n \<in> st_pins a then st_used a else st_used a - 1)\<rparr>"

definition spec_rewrite :: "u32 \<Rightarrow> u8 list \<Rightarrow> bstore \<Rightarrow> bstore" where
  "spec_rewrite n d a = a\<lparr>st_view := (st_view a)(n := d), st_disk := (st_disk a)(n := d),
     st_writes := st_writes a @ [(n, d)], st_pins := st_pins a - {n},
     st_used := (if n \<in> st_pins a then st_used a - 1 else st_used a)\<rparr>"

text \<open>A sequence of such rewrites, and its effect on a map from block numbers to blocks.\<close>

definition run_writes :: "(u32 \<times> u8 list) list \<Rightarrow> bstore \<Rightarrow> bstore" where
  "run_writes ws a = fold (\<lambda>w. spec_rewrite (fst w) (snd w)) ws a"

definition apply_writes :: "(u32 \<times> u8 list) list \<Rightarrow> (u32 \<Rightarrow> u8 list) \<Rightarrow> u32 \<Rightarrow> u8 list" where
  "apply_writes ws f = fold (\<lambda>w f. f(fst w := snd w)) ws f"

lemma apply_writes_simps [simp]:
  "apply_writes [] f = f" "apply_writes (w # ws) f = apply_writes ws (f(fst w := snd w))"
  "apply_writes (us @ vs) f = apply_writes vs (apply_writes us f)"
  by (simp_all add: apply_writes_def)

lemma apply_writes_other: "n \<notin> fst ` set ws \<Longrightarrow> apply_writes ws f n = f n"
  by (induction ws arbitrary: f) auto

lemma apply_writes_at:
  assumes "distinct (map fst ws)" and "(n, d) \<in> set ws"
  shows "apply_writes ws f n = d"
  using assms
proof (induction ws arbitrary: f)
  case (Cons w ws)
  then show ?case
    using apply_writes_other [of n ws] by (cases "w = (n, d)") (auto simp: rev_image_eqI)
qed simp

lemma run_writes_sel [simp]:
  "st_view (run_writes ws a) = apply_writes ws (st_view a)" "st_disk (run_writes ws a) = apply_writes ws (st_disk a)"
  "st_writes (run_writes ws a) = st_writes a @ ws" "st_hold (run_writes ws a) = st_hold a"
  "st_pins (run_writes ws a) = st_pins a - fst ` set ws"
  by (induction ws arbitrary: a) (auto simp: run_writes_def spec_rewrite_def)

lemma run_writes_used: "st_used (run_writes ws a) \<le> st_used a"
proof (induction ws arbitrary: a)
  case (Cons w ws)
  have "run_writes (w # ws) a = run_writes ws (spec_rewrite (fst w) (snd w) a)"
    by (simp add: run_writes_def)
  moreover have "st_used (spec_rewrite (fst w) (snd w) a) \<le> st_used a"
    by (simp add: spec_rewrite_def)
  ultimately show ?case
    using Cons.IH le_trans by metis
qed (simp add: run_writes_def)

lemma run_writes_append: "run_writes (us @ vs) a = run_writes vs (run_writes us a)"
  by (simp add: run_writes_def)

lemma run_writes_single: "run_writes [(n, d)] a = spec_rewrite n d a"
  by (simp add: run_writes_def)

text \<open>
  \<open>rd\<close> reads a block into a buffer that the caller holds from then on, \<open>put\<close> replaces the data of a held buffer,
  \<open>pin\<close> marks it dirty, \<open>wr\<close> writes it to the disk and \<open>rel\<close> gives it back.
\<close>

locale block_store =
  fixes rd :: "u32 \<Rightarrow> ('s, nat) op"
    and dat :: "'s \<Rightarrow> nat \<Rightarrow> u8 list"
    and put :: "nat \<Rightarrow> u8 list \<Rightarrow> ('s, unit) op"
    and pin :: "nat \<Rightarrow> ('s, unit) op"
    and wr :: "nat \<Rightarrow> ('s, unit) op"
    and rel :: "nat \<Rightarrow> ('s, unit) op"
    and inv :: "'s \<Rightarrow> bool"
    and abs :: "'s \<Rightarrow> bstore"
    and cap :: "'s \<Rightarrow> u32"
    and frame :: "'s \<Rightarrow> 's \<Rightarrow> bool"
  assumes rd_ok: "inv s \<Longrightarrow> n < cap s \<Longrightarrow> n \<notin> ran (st_hold (abs s)) \<Longrightarrow>
      n \<in> st_pins (abs s) \<or> st_used (abs s) < NBUF \<Longrightarrow>
      \<exists>i s'. rd n s = Ret i s' \<and> inv s' \<and> frame s s' \<and> st_hold (abs s) i = None \<and> abs s' = spec_read n i (abs s)"
    and dat_ok: "inv s \<Longrightarrow> st_hold (abs s) i = Some n \<Longrightarrow> dat s i = st_view (abs s) n"
    and put_ok: "inv s \<Longrightarrow> st_hold (abs s) i = Some n \<Longrightarrow> length d = BSIZE \<Longrightarrow>
      \<exists>s'. put i d s = Ret () s' \<and> inv s' \<and> frame s s' \<and> abs s' = spec_edit n d (abs s)"
    and pin_ok: "inv s \<Longrightarrow> st_hold (abs s) i = Some n \<Longrightarrow>
      \<exists>s'. pin i s = Ret () s' \<and> inv s' \<and> frame s s' \<and> abs s' = spec_pin n (abs s)"
    and wr_ok: "inv s \<Longrightarrow> st_hold (abs s) i = Some n \<Longrightarrow>
      \<exists>s'. wr i s = Ret () s' \<and> inv s' \<and> frame s s' \<and> abs s' = spec_write n (abs s)"
    and rel_ok: "inv s \<Longrightarrow> st_hold (abs s) i = Some n \<Longrightarrow> n \<in> st_pins (abs s) \<or> st_view (abs s) n = st_disk (abs s) n \<Longrightarrow>
      \<exists>s'. rel i s = Ret () s' \<and> inv s' \<and> frame s s' \<and> abs s' = spec_release i n (abs s)"
    and coherent: "inv s \<Longrightarrow> n \<notin> ran (st_hold (abs s)) \<Longrightarrow> n \<notin> st_pins (abs s) \<Longrightarrow> st_view (abs s) n = st_disk (abs s) n"
    and view_length: "inv s \<Longrightarrow> length (st_view (abs s) n) = BSIZE"
    and frame_refl: "frame s s"
    and frame_trans: "frame s t \<Longrightarrow> frame t u \<Longrightarrow> frame s u"
    and frame_cap: "frame s t \<Longrightarrow> cap t = cap s"
begin

text \<open>Reading a block and giving it back at once changes nothing.\<close>

lemma read_block:
  assumes "inv s" and "n < cap s" and "n \<notin> ran (st_hold (abs s))" and "n \<in> st_pins (abs s) \<or> st_used (abs s) < NBUF"
  shows "\<exists>s'. bind (rd n) (\<lambda>i. bind (gets (\<lambda>s. g (dat s i))) (\<lambda>x. seq (rel i) (ret x))) s = Ret (g (st_view (abs s) n)) s' \<and>
    inv s' \<and> frame s s' \<and> abs s' = abs s"
proof -
  obtain i s1 where 1: "rd n s = Ret i s1" "inv s1" "frame s s1" "st_hold (abs s) i = None" "abs s1 = spec_read n i (abs s)"
    using rd_ok [OF assms] by blast
  have h: "st_hold (abs s1) i = Some n"
    using 1(5) by (simp add: spec_read_def)
  have "n \<in> st_pins (abs s1) \<or> st_view (abs s1) n = st_disk (abs s1) n"
    using coherent [OF assms(1,3)] 1(5) by (auto simp: spec_read_def)
  then obtain s2 where 2: "rel i s1 = Ret () s2" "inv s2" "frame s1 s2" "abs s2 = spec_release i n (abs s1)"
    using rel_ok [OF 1(2) h] by blast
  have "abs s2 = abs s"
    using 1(4,5) 2(4) by (simp add: spec_read_def spec_release_def fun_upd_idem)
  then show ?thesis
    using 1 2 dat_ok [OF 1(2) h] frame_trans [OF 1(3) 2(3)] by (simp add: run_simps spec_read_def)
qed

text \<open>Rewriting a held block and giving it back.\<close>

lemma write_back:
  assumes "inv s" and "st_hold (abs s) i = Some n" and "length d = BSIZE"
  shows "\<exists>s'. seq (put i d) (seq (wr i) (rel i)) s = Ret () s' \<and> inv s' \<and> frame s s' \<and>
    abs s' = spec_release i n (spec_write n (spec_edit n d (abs s)))"
proof -
  obtain s1 where 1: "put i d s = Ret () s1" "inv s1" "frame s s1" "abs s1 = spec_edit n d (abs s)"
    using put_ok [OF assms] by blast
  have "st_hold (abs s1) i = Some n"
    using 1(4) assms(2) by (simp add: spec_edit_def)
  then obtain s2 where 2: "wr i s1 = Ret () s2" "inv s2" "frame s1 s2" "abs s2 = spec_write n (abs s1)"
    using wr_ok [OF 1(2)] by blast
  have "st_hold (abs s2) i = Some n" "st_view (abs s2) n = st_disk (abs s2) n"
    using 2(4) 1(4) assms(2) by (simp_all add: spec_edit_def spec_write_def)
  then obtain s3 where 3: "rel i s2 = Ret () s3" "inv s3" "frame s2 s3" "abs s3 = spec_release i n (abs s2)"
    using rel_ok [OF 2(2)] by blast
  show ?thesis
    using 1 2 3 frame_trans [OF frame_trans [OF 1(3) 2(3)] 3(3)] by (simp add: run_simps)
qed

text \<open>Rewriting a block in place: read, modify, write to the disk, give back.\<close>

lemma update_block:
  assumes "inv s" and "n < cap s" and "n \<notin> ran (st_hold (abs s))" and "n \<in> st_pins (abs s) \<or> st_used (abs s) < NBUF"
    and f: "\<And>d. length d = BSIZE \<Longrightarrow> length (f d) = BSIZE"
  shows "\<exists>s'. bind (rd n) (\<lambda>i. bind (gets (\<lambda>s. f (dat s i))) (\<lambda>d. seq (put i d) (seq (wr i) (rel i)))) s = Ret () s' \<and>
    inv s' \<and> frame s s' \<and> abs s' = spec_rewrite n (f (st_view (abs s) n)) (abs s)"
proof -
  obtain i s1 where 1: "rd n s = Ret i s1" "inv s1" "frame s s1" "st_hold (abs s) i = None" "abs s1 = spec_read n i (abs s)"
    using rd_ok [OF assms(1-4)] by blast
  have h: "st_hold (abs s1) i = Some n"
    using 1(5) by (simp add: spec_read_def)
  have d: "dat s1 i = st_view (abs s) n"
    using dat_ok [OF 1(2) h] 1(5) by (simp add: spec_read_def)
  obtain s2 where 2: "seq (put i (f (dat s1 i))) (seq (wr i) (rel i)) s1 = Ret () s2" "inv s2" "frame s1 s2"
    "abs s2 = spec_release i n (spec_write n (spec_edit n (f (dat s1 i)) (abs s1)))"
    using write_back [OF 1(2) h] f [OF view_length [OF assms(1)]] d by (metis (no_types))
  have "abs s2 = spec_rewrite n (f (st_view (abs s) n)) (abs s)"
    using 1(4,5) 2(4) d
    by (simp add: spec_read_def spec_edit_def spec_write_def spec_release_def spec_rewrite_def fun_upd_idem)
  then show ?thesis
    using 1 2 frame_trans [OF 1(3) 2(3)] by (simp add: bind_run gets_run)
qed

text \<open>Copying block \<open>a\<close> over block \<open>b\<close>, once both are held by buffers \<open>i\<close> and \<open>j\<close>.\<close>

lemma copy_held:
  assumes "inv s" and hi: "st_hold (abs s) i = Some a" and hj: "st_hold (abs s) j = Some b" and "i \<noteq> j" and "a \<noteq> b"
    and c: "a \<in> st_pins (abs s) \<or> st_view (abs s) a = st_disk (abs s) a"
  shows "\<exists>s'. bind (gets (\<lambda>s. dat s i)) (\<lambda>d. seq (put j d) (seq (wr j) (seq (rel i) (rel j)))) s = Ret () s' \<and>
    inv s' \<and> frame s s' \<and>
    abs s' = spec_release j b (spec_release i a (spec_write b (spec_edit b (st_view (abs s) a) (abs s))))"
proof -
  let ?d = "st_view (abs s) a"
  obtain s1 where 1: "put j ?d s = Ret () s1" "inv s1" "frame s s1" "abs s1 = spec_edit b ?d (abs s)"
    using put_ok [OF assms(1) hj view_length [OF assms(1)]] by blast
  have "st_hold (abs s1) j = Some b"
    using 1(4) hj by (simp add: spec_edit_def)
  then obtain s2 where 2: "wr j s1 = Ret () s2" "inv s2" "frame s1 s2" "abs s2 = spec_write b (abs s1)"
    using wr_ok [OF 1(2)] by blast
  have "st_hold (abs s2) i = Some a" "a \<in> st_pins (abs s2) \<or> st_view (abs s2) a = st_disk (abs s2) a"
    using 2(4) 1(4) hi c assms(5) by (auto simp: spec_edit_def spec_write_def)
  then obtain s3 where 3: "rel i s2 = Ret () s3" "inv s3" "frame s2 s3" "abs s3 = spec_release i a (abs s2)"
    using rel_ok [OF 2(2)] by blast
  have "st_hold (abs s3) j = Some b" "b \<in> st_pins (abs s3) \<or> st_view (abs s3) b = st_disk (abs s3) b"
    using 3(4) 2(4) 1(4) hj assms(4) by (auto simp: spec_edit_def spec_write_def spec_release_def)
  then obtain s4 where 4: "rel j s3 = Ret () s4" "inv s4" "frame s3 s4" "abs s4 = spec_release j b (abs s3)"
    using rel_ok [OF 3(2)] by blast
  show ?thesis
    using 1 2 3 4 frame_trans [OF frame_trans [OF 1(3) 2(3)] frame_trans [OF 3(3) 4(3)]] dat_ok [OF assms(1) hi]
    by (simp add: run_simps)
qed

lemma read_two:
  assumes "inv s" and "a < cap s" and "b < cap s" and "a \<noteq> b"
    and "a \<notin> ran (st_hold (abs s))" and "b \<notin> ran (st_hold (abs s))"
    and "a \<in> st_pins (abs s) \<or> st_used (abs s) < NBUF" and "b \<in> st_pins (abs s) \<or> Suc (st_used (abs s)) < NBUF"
  shows "\<exists>i j s1 s2. rd a s = Ret i s1 \<and> rd b s1 = Ret j s2 \<and> inv s2 \<and> frame s s2 \<and> i \<noteq> j \<and>
    st_hold (abs s) i = None \<and> st_hold (abs s) j = None \<and> abs s2 = spec_read b j (spec_read a i (abs s))"
proof -
  obtain i s1 where 1: "rd a s = Ret i s1" "inv s1" "frame s s1" "st_hold (abs s) i = None" "abs s1 = spec_read a i (abs s)"
    using rd_ok [OF assms(1,2,5,7)] by blast
  have "b < cap s1" "b \<notin> ran (st_hold (abs s1))" "b \<in> st_pins (abs s1) \<or> st_used (abs s1) < NBUF"
    using assms(3,4,6,8) frame_cap [OF 1(3)] 1(4,5) by (auto simp: spec_read_def)
  then obtain j s2 where 2: "rd b s1 = Ret j s2" "inv s2" "frame s1 s2" "st_hold (abs s1) j = None"
    "abs s2 = spec_read b j (abs s1)"
    using rd_ok [OF 1(2)] by blast
  have "i \<noteq> j" "st_hold (abs s) j = None"
    using 1(5) 2(4) by (auto simp: spec_read_def split: if_splits)
  then show ?thesis
    using 1 2 frame_trans [OF 1(3) 2(3)] by metis
qed

lemma copied:
  assumes "st_hold a0 i = None" and "st_hold a0 j = None" and "i \<noteq> j" and "a \<noteq> b"
    and "a1 = spec_read b j (spec_read a i a0) \<or> a1 = spec_read a i (spec_read b j a0)"
  shows "spec_release j b (spec_release i a (spec_write b (spec_edit b d a1))) = spec_rewrite b d a0"
proof -
  have "(st_hold a0)(i := None, j := None) = st_hold a0" "(st_hold a0)(j := None, i := None) = st_hold a0"
    using assms(1,2) by (simp_all add: fun_upd_idem)
  then show ?thesis
    using assms(3-5)
    by (auto simp: spec_read_def spec_edit_def spec_write_def spec_release_def spec_rewrite_def fun_upd_twist)
qed

text \<open>The two orders in which the log reads the source and the destination of a copy.\<close>

lemma copy_block:
  assumes "inv s" and "a < cap s" and "b < cap s" and "a \<noteq> b"
    and na: "a \<notin> ran (st_hold (abs s))" and nb: "b \<notin> ran (st_hold (abs s))"
  shows "a \<in> st_pins (abs s) \<or> st_used (abs s) < NBUF \<Longrightarrow> b \<in> st_pins (abs s) \<or> Suc (st_used (abs s)) < NBUF \<Longrightarrow>
      \<exists>s'. bind (rd a) (\<lambda>i. bind (rd b) (\<lambda>j. bind (gets (\<lambda>s. dat s i)) (\<lambda>d.
        seq (put j d) (seq (wr j) (seq (rel i) (rel j)))))) s = Ret () s' \<and>
      inv s' \<and> frame s s' \<and> abs s' = spec_rewrite b (st_view (abs s) a) (abs s)"
    and "b \<in> st_pins (abs s) \<or> st_used (abs s) < NBUF \<Longrightarrow> a \<in> st_pins (abs s) \<or> Suc (st_used (abs s)) < NBUF \<Longrightarrow>
      \<exists>s'. bind (rd b) (\<lambda>j. bind (rd a) (\<lambda>i. bind (gets (\<lambda>s. dat s i)) (\<lambda>d.
        seq (put j d) (seq (wr j) (seq (rel i) (rel j)))))) s = Ret () s' \<and>
      inv s' \<and> frame s s' \<and> abs s' = spec_rewrite b (st_view (abs s) a) (abs s)"
proof -
  let ?copy = "\<lambda>i j. bind (gets (\<lambda>s. dat s i)) (\<lambda>d. seq (put j d) (seq (wr j) (seq (rel i) (rel j))))"
  have co: "a \<in> st_pins (abs s) \<or> st_view (abs s) a = st_disk (abs s) a"
    using coherent [OF assms(1) na] by blast
  have held: "\<exists>s'. ?copy i j s2 = Ret () s' \<and> inv s' \<and> frame s s' \<and> abs s' = spec_rewrite b (st_view (abs s) a) (abs s)"
    if hs: "inv s2" "frame s s2" "st_hold (abs s) i = None" "st_hold (abs s) j = None" "i \<noteq> j"
      and a2: "abs s2 = spec_read b j (spec_read a i (abs s)) \<or> abs s2 = spec_read a i (spec_read b j (abs s))" for i j s2
  proof -
    have "st_hold (abs s2) i = Some a" "st_hold (abs s2) j = Some b" "st_view (abs s2) = st_view (abs s)"
      "a \<in> st_pins (abs s2) \<or> st_view (abs s2) a = st_disk (abs s2) a"
      using a2 hs(5) co by (auto simp: spec_read_def)
    then obtain s3 where "?copy i j s2 = Ret () s3" "inv s3" "frame s2 s3"
      "abs s3 = spec_release j b (spec_release i a (spec_write b (spec_edit b (st_view (abs s) a) (abs s2))))"
      using copy_held [OF hs(1) _ _ hs(5) assms(4)] by metis
    then show ?thesis
      using copied [OF hs(3,4,5) assms(4) a2] frame_trans [OF hs(2)] by metis
  qed
  show "\<exists>s'. bind (rd a) (\<lambda>i. bind (rd b) (?copy i)) s = Ret () s' \<and> inv s' \<and> frame s s' \<and>
      abs s' = spec_rewrite b (st_view (abs s) a) (abs s)"
    if room: "a \<in> st_pins (abs s) \<or> st_used (abs s) < NBUF" "b \<in> st_pins (abs s) \<or> Suc (st_used (abs s)) < NBUF"
  proof -
    obtain i j s1 s2 where 1: "rd a s = Ret i s1" "rd b s1 = Ret j s2" "inv s2" "frame s s2" "i \<noteq> j"
      "st_hold (abs s) i = None" "st_hold (abs s) j = None" "abs s2 = spec_read b j (spec_read a i (abs s))"
      using read_two [OF assms(1-4) na nb room] by blast
    then show ?thesis
      using held [OF 1(3,4,6,7,5)] by (simp add: bind_run)
  qed
  show "\<exists>s'. bind (rd b) (\<lambda>j. bind (rd a) (\<lambda>i. ?copy i j)) s = Ret () s' \<and> inv s' \<and> frame s s' \<and>
      abs s' = spec_rewrite b (st_view (abs s) a) (abs s)"
    if room: "b \<in> st_pins (abs s) \<or> st_used (abs s) < NBUF" "a \<in> st_pins (abs s) \<or> Suc (st_used (abs s)) < NBUF"
  proof -
    obtain j i s1 s2 where 1: "rd b s = Ret j s1" "rd a s1 = Ret i s2" "inv s2" "frame s s2" "j \<noteq> i"
      "st_hold (abs s) j = None" "st_hold (abs s) i = None" "abs s2 = spec_read a i (spec_read b j (abs s))"
      using read_two [OF assms(1,3,2) assms(4) [symmetric] nb na room] by blast
    then show ?thesis
      using held [OF 1(3,4,7,6) 1(5) [symmetric]] by (simp add: bind_run)
  qed
qed

text \<open>A loop each of whose iterations rewrites one block.\<close>

lemma forM_rewrite:
  assumes "inv s"
    and step: "\<And>us t vs s'. ts = us @ t # vs \<Longrightarrow> inv s' \<Longrightarrow> frame s s' \<Longrightarrow> abs s' = run_writes (map w us) (abs s) \<Longrightarrow>
      \<exists>s''. f t s' = Ret () s'' \<and> inv s'' \<and> frame s' s'' \<and> abs s'' = spec_rewrite (fst (w t)) (snd (w t)) (abs s')"
  shows "\<exists>s'. forM ts f s = Ret () s' \<and> inv s' \<and> frame s s' \<and> abs s' = run_writes (map w ts) (abs s)"
  using step
proof (induction ts rule: rev_induct)
  case Nil
  then show ?case
    using assms(1) frame_refl by (simp add: run_simps run_writes_def)
next
  case (snoc t ts)
  obtain s1 where 1: "forM ts f s = Ret () s1" "inv s1" "frame s s1" "abs s1 = run_writes (map w ts) (abs s)"
  proof (atomize_elim, rule snoc.IH)
    fix us t' vs s'
    assume "ts = us @ t' # vs" "inv s'" "frame s s'" "abs s' = run_writes (map w us) (abs s)"
    then show "\<exists>s''. f t' s' = Ret () s'' \<and> inv s'' \<and> frame s' s'' \<and>
        abs s'' = spec_rewrite (fst (w t')) (snd (w t')) (abs s')"
      using snoc.prems [of us t' "vs @ [t]" s'] by simp
  qed
  obtain s2 where 2: "f t s1 = Ret () s2" "inv s2" "frame s1 s2" "abs s2 = spec_rewrite (fst (w t)) (snd (w t)) (abs s1)"
    using snoc.prems [of ts t "[]" s1] 1 by auto
  have "abs s2 = run_writes (map w (ts @ [t])) (abs s)"
    using 1(4) 2(4) by (simp add: run_writes_def)
  then show ?case
    using 1 2 frame_trans [OF 1(3) 2(3)] by (simp add: forM_append run_simps)
qed

end

end
