(* ===== verification/Bio.thy ===== *)
theory Bio
  imports ProcTable BlockStore
begin

text \<open>
  The disk and the buffer cache (\<open>src/bio.c\<close>, \<open>src/buf.h\<close>, and the memory disk driver
  \<open>src/memide.c\<close>, whose \<open>iderw\<close> is synchronous). A pointer to a buffer is its index in the cache,
  the list head being the last entry; the flag bits are three booleans. Beside the code's state
  the history of disk writes is kept, to speak of crashes between two writes. The doubly linked
  list is proved to represent a list of buffers, most recently used first: \<open>brelse\<close> moves a buffer to its
  front and \<open>bget\<close> recycles from its back.
\<close>

section \<open>State\<close>

record buf =
  b_busy :: bool
  b_valid :: bool
  b_dirty :: bool
  b_dev :: u32
  b_blockno :: u32
  b_prev :: nat
  b_next :: nat
  b_data :: "u8 list"

record bmach = pmach +
  disksize :: u32
  disk :: "u32 \<Rightarrow> u8 list"
  dwrites :: "(u32 \<times> u8 list) list"
  bufs :: "buf list"

definition HEAD :: nat where "HEAD = NBUF"

text \<open>The list never has more than \<open>NBUF\<close> buffers besides its head, so a walk along it ends within this many steps.\<close>

definition WALK :: nat where "WALK = Suc NBUF"

definition upd_buf :: "nat \<Rightarrow> (buf \<Rightarrow> buf) \<Rightarrow> ('a bmach_scheme, unit) op" where
  "upd_buf b f = modify (\<lambda>s. s\<lparr>bufs := (bufs s)[b := f (bufs s ! b)]\<rparr>)"

definition get_buf :: "nat \<Rightarrow> ('a bmach_scheme, buf) op" where
  "get_buf b = gets (\<lambda>s. bufs s ! b)"

section \<open>The disk\<close>

definition iderw :: "nat \<Rightarrow> ('a bmach_scheme, unit) op" where
  "iderw b =
     bind (get_buf b) (\<lambda>bp.
     if \<not> b_busy bp then panic ''iderw: buf not busy''
     else if b_valid bp \<and> \<not> b_dirty bp then panic ''iderw: nothing to do''
     else if b_dev bp \<noteq> 1 then panic ''iderw: request not for disk 1''
     else bind (gets disksize) (\<lambda>n.
     if b_blockno bp \<ge> n then panic ''iderw: block out of range''
     else
     seq (if b_dirty bp
          then seq (upd_buf b (b_dirty_update (\<lambda>_. False)))
                   (modify (\<lambda>s. s\<lparr>disk := (disk s)(b_blockno bp := b_data bp),
                                    dwrites := dwrites s @ [(b_blockno bp, b_data bp)]\<rparr>))
          else bind (gets (\<lambda>s. disk s (b_blockno bp))) (\<lambda>d. upd_buf b (b_data_update (\<lambda>_. d))))
         (upd_buf b (b_valid_update (\<lambda>_. True)))))"

section \<open>The cache\<close>

fun binit_loop :: "nat list \<Rightarrow> ('a bmach_scheme, unit) op" where
  "binit_loop [] = ret ()"
| "binit_loop (b # bs) =
     bind (gets (\<lambda>s. b_next (bufs s ! HEAD))) (\<lambda>first.
     seq (upd_buf b (b_next_update (\<lambda>_. first)))
    (seq (upd_buf b (b_prev_update (\<lambda>_. HEAD)))
    (seq (upd_buf b (b_dev_update (\<lambda>_. - 1)))
    (seq (upd_buf first (b_prev_update (\<lambda>_. b)))
    (seq (upd_buf HEAD (b_next_update (\<lambda>_. b)))
         (binit_loop bs))))))"

definition binit :: "('a bmach_scheme, unit) op" where
  "binit =
     seq (initlock BcacheLock)
    (seq (upd_buf HEAD (b_prev_update (\<lambda>_. HEAD)))
    (seq (upd_buf HEAD (b_next_update (\<lambda>_. HEAD)))
         (binit_loop [0..<NBUF])))"

text \<open>
  A walk along the list from \<open>b\<close> to the head, stopping at the first buffer with property \<open>P\<close>;
  \<open>None\<close> if the head is not reached within the fuel.
\<close>

fun scan :: "(buf \<Rightarrow> nat) \<Rightarrow> (buf \<Rightarrow> bool) \<Rightarrow> buf list \<Rightarrow> nat \<Rightarrow> nat \<Rightarrow> nat option option" where
  "scan step P bs 0 b = None"
| "scan step P bs (Suc n) b =
     (if b = HEAD then Some None
      else if P (bs ! b) then Some (Some b)
      else scan step P bs n (step (bs ! b)))"

definition caches :: "u32 \<Rightarrow> u32 \<Rightarrow> buf \<Rightarrow> bool" where
  "caches dev blockno b \<longleftrightarrow> b_dev b = dev \<and> b_blockno b = blockno"

definition recyclable :: "buf \<Rightarrow> bool" where
  "recyclable b \<longleftrightarrow> \<not> b_busy b \<and> \<not> b_dirty b"

text \<open>
  \<open>bget\<close> after the label \<open>loop\<close>, entered with \<open>bcache.lock\<close> held. A process that has to wait for a
  busy buffer sleeps and, when it runs again, starts over at the label.
\<close>

definition bget_loop :: "u32 \<Rightarrow> u32 \<Rightarrow> ('a bmach_scheme, nat) op" where
  "bget_loop dev blockno =
     bind (gets (\<lambda>s. scan b_next (caches dev blockno) (bufs s) WALK (b_next (bufs s ! HEAD)))) (\<lambda>found.
     case found of
       None \<Rightarrow> fault
     | Some (Some b) \<Rightarrow>
       bind (get_buf b) (\<lambda>bp.
       if \<not> b_busy bp then
         seq (upd_buf b (b_busy_update (\<lambda>_. True)))
        (seq (release BcacheLock)
             (ret b))
       else seq (sleep (BufChan b) BcacheLock) swtch)
     | Some None \<Rightarrow>
       bind (gets (\<lambda>s. scan b_prev recyclable (bufs s) WALK (b_prev (bufs s ! HEAD)))) (\<lambda>free.
       case free of
         None \<Rightarrow> fault
       | Some None \<Rightarrow> panic ''bget: no buffers''
       | Some (Some b) \<Rightarrow>
         seq (upd_buf b (\<lambda>bp. bp\<lparr>b_dev := dev, b_blockno := blockno, b_busy := True, b_valid := False,
                                    b_dirty := False\<rparr>))
        (seq (release BcacheLock)
             (ret b))))"

definition bget :: "u32 \<Rightarrow> u32 \<Rightarrow> ('a bmach_scheme, nat) op" where
  "bget dev blockno = seq (acquire BcacheLock) (bget_loop dev blockno)"

definition bread :: "u32 \<Rightarrow> u32 \<Rightarrow> ('a bmach_scheme, nat) op" where
  "bread dev blockno =
     bind (bget dev blockno) (\<lambda>b.
     bind (get_buf b) (\<lambda>bp.
     seq (whenM (\<not> b_valid bp) (iderw b))
         (ret b)))"

definition bwrite :: "nat \<Rightarrow> ('a bmach_scheme, unit) op" where
  "bwrite b =
     bind (get_buf b) (\<lambda>bp.
     if \<not> b_busy bp then panic ''bwrite''
     else seq (upd_buf b (b_dirty_update (\<lambda>_. True))) (iderw b))"

text \<open>
  \<open>b->next = v\<close> and \<open>b->prev = v\<close>, and the six such assignments of \<open>brelse\<close> that unlink a buffer and put it in
  front.
\<close>

definition set_next :: "nat \<Rightarrow> nat \<Rightarrow> buf list \<Rightarrow> buf list" where
  "set_next b v bs = bs[b := (bs ! b)\<lparr>b_next := v\<rparr>]"

definition set_prev :: "nat \<Rightarrow> nat \<Rightarrow> buf list \<Rightarrow> buf list" where
  "set_prev b v bs = bs[b := (bs ! b)\<lparr>b_prev := v\<rparr>]"

definition to_front :: "nat \<Rightarrow> buf list \<Rightarrow> buf list" where
  "to_front b bs0 =
     (let bs1 = set_prev (b_next (bs0 ! b)) (b_prev (bs0 ! b)) bs0;
          bs2 = set_next (b_prev (bs1 ! b)) (b_next (bs1 ! b)) bs1;
          bs3 = set_next b (b_next (bs2 ! HEAD)) bs2;
          bs4 = set_prev b HEAD bs3;
          bs5 = set_prev (b_next (bs4 ! HEAD)) b bs4
      in set_next HEAD b bs5)"

definition brelse :: "nat \<Rightarrow> ('a bmach_scheme, unit) op" where
  "brelse b =
     bind (get_buf b) (\<lambda>bp.
     if \<not> b_busy bp then panic ''brelse''
     else
     seq (acquire BcacheLock)
    (seq (modify (\<lambda>s. s\<lparr>bufs := to_front b (bufs s)\<rparr>))
    (seq (upd_buf b (b_busy_update (\<lambda>_. False)))
    (seq (wakeup (BufChan b))
         (release BcacheLock)))))"

section \<open>The list of buffers\<close>

text \<open>\<open>linked f xs\<close>: following the pointer \<open>f\<close> visits the nodes \<open>xs\<close> one after the other.\<close>

fun linked :: "(nat \<Rightarrow> nat) \<Rightarrow> nat list \<Rightarrow> bool" where
  "linked f (x # y # zs) \<longleftrightarrow> f x = y \<and> linked f (y # zs)"
| "linked f xs \<longleftrightarrow> True"

lemma linked_append: "linked f (xs @ y # zs) \<longleftrightarrow> linked f (xs @ [y]) \<and> linked f (y # zs)"
proof (induction xs)
  case (Cons x xs)
  then show ?case
    by (cases xs) auto
qed simp

lemma linked_upd: "x \<notin> set (butlast xs) \<Longrightarrow> linked (f(x := v)) xs = linked f xs"
  by (induction f xs rule: linked.induct) auto

lemma linked_cong: "(\<And>x. x \<in> set xs \<Longrightarrow> f x = g x) \<Longrightarrow> linked f xs = linked g xs"
  by (induction f xs rule: linked.induct) auto

definition nexts :: "buf list \<Rightarrow> nat \<Rightarrow> nat" where
  "nexts bs i = b_next (bs ! i)"

definition prevs :: "buf list \<Rightarrow> nat \<Rightarrow> nat" where
  "prevs bs i = b_prev (bs ! i)"

text \<open>The cache's buffers in the order of the list, from the most to the least recently used.\<close>

definition ring :: "buf list \<Rightarrow> nat list \<Rightarrow> bool" where
  "ring bs xs \<longleftrightarrow> length bs = Suc NBUF \<and> distinct xs \<and> set xs = {..<NBUF} \<and>
     linked (nexts bs) (HEAD # xs @ [HEAD]) \<and> linked (prevs bs) (HEAD # rev xs @ [HEAD])"

lemma ring_length: "ring bs xs \<Longrightarrow> length xs = NBUF"
  unfolding ring_def using distinct_card[of xs] by simp

lemma scan_path:
  assumes "linked (\<lambda>i. step (bs ! i)) (xs @ [HEAD])" and "HEAD \<notin> set xs" and "length xs \<le> n"
  shows "scan step P bs (Suc n) (hd (xs @ [HEAD])) = Some (find (\<lambda>i. P (bs ! i)) xs)"
  using assms
proof (induction xs arbitrary: n)
  case (Cons x xs)
  obtain m where m: "n = Suc m"
    using Cons.prems(3) by (cases n) auto
  have "step (bs ! x) = hd (xs @ [HEAD])" "linked (\<lambda>i. step (bs ! i)) (xs @ [HEAD])"
    using Cons.prems(1) by (cases xs; simp)+
  then show ?case
    using Cons m by auto
qed simp

lemma linked_hd: "linked f (x # xs @ [h]) \<Longrightarrow> f x = hd (xs @ [h])"
  by (cases xs) auto

lemma linked_tl: "linked f (x # xs) \<Longrightarrow> linked f xs"
  by (cases xs) auto

lemma scan_ring:
  assumes "ring bs xs"
  shows "scan b_next P bs WALK (b_next (bs ! HEAD)) = Some (find (\<lambda>i. P (bs ! i)) xs)"
    and "scan b_prev P bs WALK (b_prev (bs ! HEAD)) = Some (find (\<lambda>i. P (bs ! i)) (rev xs))"
proof -
  have n: "linked (\<lambda>i. b_next (bs ! i)) (HEAD # xs @ [HEAD])"
    and p: "linked (\<lambda>i. b_prev (bs ! i)) (HEAD # rev xs @ [HEAD])"
    and h: "HEAD \<notin> set xs"
    using assms by (auto simp: ring_def nexts_def [abs_def] prevs_def [abs_def] HEAD_def)
  have l: "length xs = NBUF"
    by (rule ring_length [OF assms])
  have "b_next (bs ! HEAD) = hd (xs @ [HEAD])"
    using linked_hd [OF n] .
  then show "scan b_next P bs WALK (b_next (bs ! HEAD)) = Some (find (\<lambda>i. P (bs ! i)) xs)"
    using scan_path [OF linked_tl [OF n] h, of NBUF P] l unfolding WALK_def by (metis order_refl)
  have "b_prev (bs ! HEAD) = hd (rev xs @ [HEAD])"
    using linked_hd [OF p] .
  then show "scan b_prev P bs WALK (b_prev (bs ! HEAD)) = Some (find (\<lambda>i. P (bs ! i)) (rev xs))"
    using scan_path [OF linked_tl [OF p], of NBUF P] h l unfolding WALK_def by (metis length_rev order_refl set_rev)
qed

text \<open>What a change of the list keeps of a buffer: everything but its links.\<close>

definition core :: "buf \<Rightarrow> buf" where
  "core b = b\<lparr>b_prev := 0, b_next := 0\<rparr>"

lemma core_eqD:
  assumes "core b = core c"
  shows "b_busy b = b_busy c" "b_valid b = b_valid c" "b_dirty b = b_dirty c" "b_dev b = b_dev c"
    "b_blockno b = b_blockno c" "b_data b = b_data c"
  using assms by (cases b; cases c; simp add: core_def)+

lemma links_upd [simp]:
  "k < length bs \<Longrightarrow> nexts (set_next k v bs) = (nexts bs)(k := v)"
  "nexts (set_prev k v bs) = nexts bs"
  "k < length bs \<Longrightarrow> prevs (set_prev k v bs) = (prevs bs)(k := v)"
  "prevs (set_next k v bs) = prevs bs"
  by (cases "k < length bs"; auto simp: nexts_def prevs_def set_next_def set_prev_def fun_eq_iff nth_list_update
      list_update_beyond)+

lemma length_links [simp]: "length (set_next k v bs) = length bs" "length (set_prev k v bs) = length bs"
  by (simp_all add: set_next_def set_prev_def)

lemma linked_unlink:
  assumes "linked f (us @ p # b # n # vs)" and "distinct (butlast (us @ p # b # n # vs))"
  shows "linked (f(p := n)) (us @ p # n # vs)"
proof -
  have "p \<notin> set us" "p \<notin> set (butlast (n # vs))"
    using assms(2) by (auto simp: butlast_append split: if_splits)
  then have "linked (f(p := n)) (us @ [p])" "linked (f(p := n)) (n # vs)"
    using assms(1) linked_append [of f us p "b # n # vs"] by (simp_all add: linked_upd)
  then show ?thesis
    using linked_append [of "f(p := n)" us p "n # vs"] by simp
qed

lemma linked_link:
  assumes "linked f (us @ p # n # vs)" and "distinct (butlast (us @ p # n # vs))"
    and "b \<notin> set (us @ p # n # vs)"
  shows "linked (f(b := n, p := b)) (us @ p # b # n # vs)"
proof -
  have "p \<notin> set us" "p \<notin> set (butlast (n # vs))" "b \<noteq> p" "b \<notin> set us" "b \<notin> set (butlast (n # vs))"
    using assms(2,3) by (auto simp: butlast_append dest: in_set_butlastD split: if_splits)
  then have "linked (f(b := n, p := b)) (us @ [p])" "linked (f(b := n, p := b)) (n # vs)"
    using assms(1) linked_append [of f us p "n # vs"] by (simp_all add: linked_upd)
  then show ?thesis
    using \<open>b \<noteq> p\<close> linked_append [of "f(b := n, p := b)" us p "b # n # vs"] by simp
qed

lemma core_upd [simp]: "map core (set_next k v bs) = map core bs" "map core (set_prev k v bs) = map core bs"
  by (cases "k < length bs"; simp add: map_update list_update_beyond core_def list_update_same_conv
      set_next_def set_prev_def)+

lemma core_Let: "(\<And>x. map core x = map core e \<Longrightarrow> map core (f x) = c) \<Longrightarrow> map core (let x = e in f x) = c"
  by simp

lemma core_to_front [simp]: "map core (to_front b bs) = map core bs"
  unfolding to_front_def by (intro core_Let) simp

lemma length_to_front [simp]: "length (to_front b bs) = length bs"
  using arg_cong [OF core_to_front [of b bs], of length] by (simp only: length_map)

lemma to_front_links:
  assumes "length bs = Suc NBUF" and "b < NBUF" and "nexts bs b \<le> NBUF" and "prevs bs b \<le> NBUF"
    and first: "first = ((nexts bs)(prevs bs b := nexts bs b)) HEAD" and "first \<le> NBUF"
  shows "nexts (to_front b bs) = (nexts bs)(prevs bs b := nexts bs b, b := first, HEAD := b)"
    and "prevs (to_front b bs) = (prevs bs)(nexts bs b := prevs bs b, b := HEAD, first := b)"
proof -
  define bs1 where "bs1 = set_prev (nexts bs b) (prevs bs b) bs"
  have bs1: "nexts bs1 = nexts bs" "prevs bs1 = (prevs bs)(nexts bs b := prevs bs b)" "length bs1 = Suc NBUF"
    using assms(1,3) unfolding bs1_def by simp_all
  then have b1: "prevs bs1 b = prevs bs b" "nexts bs1 b = nexts bs b"
    by simp_all
  define bs2 where "bs2 = set_next (prevs bs1 b) (nexts bs1 b) bs1"
  have bs2: "nexts bs2 = (nexts bs)(prevs bs b := nexts bs b)" "prevs bs2 = prevs bs1" "length bs2 = Suc NBUF"
    using assms(4) bs1 unfolding bs2_def b1 by simp_all
  then have f2: "nexts bs2 HEAD = first"
    using first by simp
  define bs3 where "bs3 = set_next b (nexts bs2 HEAD) bs2"
  define bs4 where "bs4 = set_prev b HEAD bs3"
  have bs4: "nexts bs4 = (nexts bs2)(b := first)" "prevs bs4 = (prevs bs2)(b := HEAD)" "length bs4 = Suc NBUF"
    using assms(2) bs2(3) unfolding bs4_def bs3_def f2 by simp_all
  then have f4: "nexts bs4 HEAD = first"
    using f2 assms(2) by (simp add: HEAD_def)
  define bs5 where "bs5 = set_prev (nexts bs4 HEAD) b bs4"
  have bs5: "nexts bs5 = nexts bs4" "prevs bs5 = (prevs bs4)(first := b)" "length bs5 = Suc NBUF"
    using assms(6) bs4(3) unfolding bs5_def f4 by simp_all
  have tf: "to_front b bs = set_next HEAD b bs5"
    unfolding to_front_def bs5_def bs4_def bs3_def bs2_def bs1_def by (simp only: Let_def nexts_def prevs_def)
  show "nexts (to_front b bs) = (nexts bs)(prevs bs b := nexts bs b, b := first, HEAD := b)"
    unfolding tf using bs5 bs4(1) bs2(1) by (simp add: HEAD_def)
  show "prevs (to_front b bs) = (prevs bs)(nexts bs b := prevs bs b, b := HEAD, first := b)"
    unfolding tf using bs5 bs4(2) bs2(2) bs1(2) by simp
qed

text \<open>A circular doubly linked list through the head, and its two changes: taking a node out, and putting one in front.\<close>

definition chain :: "(nat \<Rightarrow> nat) \<Rightarrow> (nat \<Rightarrow> nat) \<Rightarrow> nat list \<Rightarrow> bool" where
  "chain f g xs \<longleftrightarrow> linked f (HEAD # xs @ [HEAD]) \<and> linked g (HEAD # rev xs @ [HEAD]) \<and> distinct (HEAD # xs)"

lemma ring_chain: "ring bs xs \<longleftrightarrow> length bs = Suc NBUF \<and> set xs = {..<NBUF} \<and> chain (nexts bs) (prevs bs) xs"
  by (auto simp: ring_def chain_def HEAD_def)

lemma chain_unlink:
  assumes c: "chain f g (us @ b # vs)"
  shows "chain (f(g b := f b)) (g(f b := g b)) (us @ vs)" "f b \<in> set (HEAD # vs)" "g b \<in> set (HEAD # us)"
proof -
  define p where "p = last (HEAD # us)"
  define n where "n = hd (vs @ [HEAD])"
  obtain us' where us': "HEAD # us = us' @ [p]"
    unfolding p_def by (metis append_butlast_last_id list.distinct(1))
  obtain vs' where vs': "vs @ [HEAD] = n # vs'"
    unfolding n_def by (cases vs) auto
  have rvs: "HEAD # rev vs = rev vs' @ [n]" and rus: "rev us @ [HEAD] = p # rev us'"
    using arg_cong [OF vs', of rev] arg_cong [OF us', of rev] by simp_all
  have a1: "us' @ p # x = HEAD # us @ x" and a2: "rev vs' @ n # x = HEAD # rev vs @ x" for x
    using arg_cong [OF us' [symmetric], of "\<lambda>l. l @ x"] arg_cong [OF rvs [symmetric], of "\<lambda>l. l @ x"]
    by (simp_all only: append_Cons append_Nil append.assoc)
  note e = a1 a2 vs' [symmetric] rus [symmetric]
  have d: "distinct (HEAD # us @ b # vs)"
    and pn: "linked f (us' @ p # b # n # vs')" and pp: "linked g (rev vs' @ n # b # p # rev us')"
    using c by (simp_all add: chain_def e del: set_append)
  have nb: "f b = n" and pb: "g b = p"
    using pn pp linked_append [of f us' p "b # n # vs'"] linked_append [of g "rev vs'" n "b # p # rev us'"] by simp_all
  have "linked (f(p := n)) (HEAD # us @ vs @ [HEAD])" "linked (g(n := p)) (HEAD # rev vs @ rev us @ [HEAD])"
    using linked_unlink [OF pn] linked_unlink [OF pp] d by (simp_all add: e butlast_append Int_commute)
  then show "chain (f(g b := f b)) (g(f b := g b)) (us @ vs)"
    using d by (simp add: chain_def nb pb)
  have "n \<in> set (vs @ [HEAD])" "p \<in> set (HEAD # us)"
    by (simp_all only: vs' us' set_append) simp_all
  then show "f b \<in> set (HEAD # vs)" "g b \<in> set (HEAD # us)"
    by (simp_all add: nb pb)
qed

lemma chain_link:
  assumes c: "chain f g xs" and b: "b \<notin> set (HEAD # xs)"
  shows "chain (f(b := f HEAD, HEAD := b)) (g(b := HEAD, f HEAD := b)) (b # xs)" "f HEAD \<in> set (HEAD # xs)"
proof -
  obtain first cs where fc: "xs @ [HEAD] = first # cs"
    by (cases xs) auto
  have rfc: "HEAD # rev xs = rev cs @ [first]"
    using arg_cong [OF fc, of rev] by simp
  have e: "rev cs @ first # x = HEAD # rev xs @ x" for x
    using arg_cong [OF rfc [symmetric], of "\<lambda>l. l @ x"] by (simp only: append_Cons append_Nil append.assoc)
  have N1: "linked f ([] @ HEAD # first # cs)" and P1: "linked g (rev cs @ first # HEAD # [])" and d: "distinct (HEAD # xs)"
    using c by (simp_all add: chain_def fc e)
  then have first: "f HEAD = first"
    by simp
  have fx: "first \<in> set (xs @ [HEAD])"
    unfolding fc by simp
  have bn: "b \<notin> set (first # cs)"
    using b unfolding fc [symmetric] by simp
  have "linked (f(b := first, HEAD := b)) (HEAD # b # xs @ [HEAD])"
    using linked_link [OF N1, of b] bn b d by (simp add: fc [symmetric] butlast_append del: distinct.simps(2))
  moreover have "linked (g(b := HEAD, first := b)) (HEAD # rev (b # xs) @ [HEAD])"
    using linked_link [OF P1, of b] bn b d by (simp add: e butlast_append)
  ultimately show "chain (f(b := f HEAD, HEAD := b)) (g(b := HEAD, f HEAD := b)) (b # xs)"
    using d b by (simp add: chain_def first)
  show "f HEAD \<in> set (HEAD # xs)"
    using fx by (simp add: first)
qed

text \<open>Releasing a buffer moves it to the front of the list.\<close>

lemma ring_to_front:
  assumes "ring bs (us @ b # vs)"
  shows "ring (to_front b bs) (b # us @ vs)"
proof -
  have len: "length bs = Suc NBUF" and st: "set (us @ b # vs) = {..<NBUF}"
    and c: "chain (nexts bs) (prevs bs) (us @ b # vs)"
    using assms by (simp_all add: ring_chain)
  have "x < NBUF" if "x \<in> set (us @ b # vs)" for x
    using that unfolding st by simp
  then have in_ring: "x \<le> NBUF" if "x \<in> set (HEAD # us @ b # vs)" for x
    using that less_imp_le unfolding HEAD_def by fastforce
  have "b \<in> {..<NBUF}"
    unfolding st [symmetric] by simp
  then have b: "b < NBUF" "b \<notin> set (HEAD # us @ vs)"
    using c by (simp_all add: chain_def)
  note u = chain_unlink [OF c] and l = chain_link [OF chain_unlink(1) [OF c] b(2)]
  define first where "first = ((nexts bs)(prevs bs b := nexts bs b)) HEAD"
  have "nexts bs b \<le> NBUF" "prevs bs b \<le> NBUF" "first \<le> NBUF"
    using u(2,3) l(2) in_ring unfolding first_def by (auto simp del: fun_upd_apply)
  note tl = to_front_links [OF len b(1) this(1,2) first_def this(3)]
  have "set (b # us @ vs) = {..<NBUF}"
    using st by auto
  then show ?thesis
    using l(1) len unfolding ring_chain tl length_to_front first_def by simp
qed

section \<open>The cache as a store of blocks\<close>

text \<open>The content of block \<open>n\<close> as \<open>bread\<close> delivers it: from the cache if it is there, otherwise from the disk.\<close>

definition blk :: "'a bmach_scheme \<Rightarrow> u32 \<Rightarrow> u8 list" where
  "blk s n =
     (case find (\<lambda>i. caches 1 n (bufs s ! i) \<and> b_valid (bufs s ! i)) [0..<NBUF] of
        None \<Rightarrow> disk s n
      | Some i \<Rightarrow> b_data (bufs s ! i))"

definition buf_ok :: "(u32 \<Rightarrow> u8 list) \<Rightarrow> buf \<Rightarrow> bool" where
  "buf_ok d b \<longleftrightarrow> length (b_data b) = BSIZE \<and> (b_valid b \<longrightarrow> b_dev b = 1) \<and> (b_dirty b \<longrightarrow> b_valid b) \<and>
     (b_valid b \<longrightarrow> b_dirty b \<or> b_busy b \<or> b_data b = d (b_blockno b))"

text \<open>
  The invariant of the cache: the list is well linked, no block has two buffers, and a buffer that is neither in use
  nor waiting to be written holds what the disk holds.
\<close>

definition cache_ok :: "'a bmach_scheme \<Rightarrow> bool" where
  "cache_ok s \<longleftrightarrow> (\<exists>xs. ring (bufs s) xs) \<and> (\<forall>n. length (disk s n) = BSIZE) \<and>
     (\<forall>i < NBUF. buf_ok (disk s) (bufs s ! i)) \<and>
     (\<forall>i < NBUF. \<forall>j < NBUF. caches (b_dev (bufs s ! i)) (b_blockno (bufs s ! i)) (bufs s ! j) \<longrightarrow>
        b_dev (bufs s ! i) \<noteq> - 1 \<longrightarrow> i = j)"

lemma cache_uniq:
  "cache_ok s \<Longrightarrow> i < NBUF \<Longrightarrow> j < NBUF \<Longrightarrow> caches 1 n (bufs s ! i) \<Longrightarrow> caches 1 n (bufs s ! j) \<Longrightarrow> i = j"
  unfolding cache_ok_def caches_def by force

lemma cache_okD:
  assumes "cache_ok s"
  shows "length (bufs s) = Suc NBUF" "length (disk s n) = BSIZE" "i < NBUF \<Longrightarrow> buf_ok (disk s) (bufs s ! i)"
  using assms by (auto simp: cache_ok_def ring_def)

lemma find_None: "find P xs = None \<longleftrightarrow> (\<forall>x \<in> set xs. \<not> P x)"
  by (induction xs) auto

lemma find_SomeD: "find P xs = Some x \<Longrightarrow> x \<in> set xs \<and> P x"
  by (induction xs) (auto split: if_splits)

lemma blk_cached:
  assumes "cache_ok s" and "i < NBUF" and "caches 1 n (bufs s ! i)" and "b_valid (bufs s ! i)"
  shows "blk s n = b_data (bufs s ! i)"
proof (cases "find (\<lambda>i. caches 1 n (bufs s ! i) \<and> b_valid (bufs s ! i)) [0..<NBUF]")
  case None
  then show ?thesis
    using assms by (auto simp: find_None)
next
  case (Some j)
  then show ?thesis
    using find_SomeD [OF Some] cache_uniq [OF assms(1,2) _ assms(3)] by (auto simp: blk_def)
qed

lemma blk_uncached:
  "(\<And>i. i < NBUF \<Longrightarrow> caches 1 n (bufs s ! i) \<Longrightarrow> \<not> b_valid (bufs s ! i)) \<Longrightarrow> blk s n = disk s n"
  by (auto simp: blk_def find_None split: option.split dest!: find_SomeD)

lemma buf_dirty_valid: "buf_ok d b \<Longrightarrow> b_dirty b \<Longrightarrow> b_valid b"
  by (simp add: buf_ok_def)

text \<open>The buffer that \<open>bget\<close> picks for block \<open>n\<close>, and the state once \<open>bread\<close> has filled it.\<close>

definition slot :: "'a bmach_scheme \<Rightarrow> u32 \<Rightarrow> nat \<Rightarrow> bool" where
  "slot s n i \<longleftrightarrow> i < NBUF \<and> \<not> b_busy (bufs s ! i) \<and>
     (caches 1 n (bufs s ! i) \<or> (\<not> b_dirty (bufs s ! i) \<and> (\<forall>j < NBUF. \<not> caches 1 n (bufs s ! j))))"

definition loaded :: "u32 \<Rightarrow> nat \<Rightarrow> 'a bmach_scheme \<Rightarrow> 'a bmach_scheme" where
  "loaded n i s = settled (s\<lparr>bufs := (bufs s)[i := (bufs s ! i)\<lparr>b_busy := True, b_valid := True, b_dev := 1,
     b_blockno := n, b_data := blk s n\<rparr>]\<rparr>)"

definition no_waiters :: "'a bmach_scheme \<Rightarrow> u32 \<Rightarrow> bool" where
  "no_waiters s n \<longleftrightarrow> (\<forall>i < NBUF. caches 1 n (bufs s ! i) \<longrightarrow> \<not> b_busy (bufs s ! i))"

definition in_use :: "'a bmach_scheme \<Rightarrow> nat set" where
  "in_use s = {i. i < NBUF \<and> (b_busy (bufs s ! i) \<or> b_dirty (bufs s ! i))}"

definition pinned :: "'a bmach_scheme \<Rightarrow> u32 set" where
  "pinned s = {n. \<exists>i < NBUF. caches 1 n (bufs s ! i) \<and> b_dirty (bufs s ! i)}"

lemma upd_buf_run [run_simps]: "upd_buf b f s = Ret () (s\<lparr>bufs := (bufs s)[b := f (bufs s ! b)]\<rparr>)"
  by (simp add: upd_buf_def run_simps)

lemma get_buf_run [run_simps]: "get_buf b s = Ret (bufs s ! b) s"
  by (simp add: get_buf_def run_simps)

lemmas cs_simps = run_simps calm_def release_acquired acquired_def settled_def fun_upd_idem

lemma settled_bio [simp]:
  "bufs (settled s) = bufs s" "disk (settled s) = disk s" "dwrites (settled s) = dwrites s"
  "disksize (settled s) = disksize s" "ptable (settled s) = ptable s"
  by (simp_all add: settled_def)

lemma settled_bio_upd [simp]:
  "(settled s)\<lparr>bufs := x\<rparr> = settled (s\<lparr>bufs := x\<rparr>)"
  "(settled s)\<lparr>disk := d, dwrites := w\<rparr> = settled (s\<lparr>disk := d, dwrites := w\<rparr>)"
  "(settled s)\<lparr>ptable := p\<rparr> = settled (s\<lparr>ptable := p\<rparr>)"
  by (cases s, simp add: settled_def)+

lemma bget_cached:
  assumes ok: "cache_ok s" and "calm BcacheLock s" and i: "i < NBUF" and c: "caches 1 n (bufs s ! i)"
    and "\<not> b_busy (bufs s ! i)"
  shows "bget 1 n s = Ret i (settled (s\<lparr>bufs := (bufs s)[i := (bufs s ! i)\<lparr>b_busy := True\<rparr>]\<rparr>))"
proof -
  obtain xs where xs: "ring (bufs s) xs"
    using ok by (auto simp: cache_ok_def)
  have "find (\<lambda>j. caches 1 n (bufs s ! j)) xs = Some i"
  proof (cases "find (\<lambda>j. caches 1 n (bufs s ! j)) xs")
    case None
    then show ?thesis
      using xs i c by (auto simp: find_None ring_def)
  next
    case (Some j)
    then show ?thesis
      using find_SomeD [OF Some] xs cache_uniq [OF ok _ i _ c, of j] by (auto simp: ring_def)
  qed
  then show ?thesis
    using assms(2,5) by (simp add: bget_def bget_loop_def cs_simps scan_ring [OF xs])
qed

lemma bget_fresh:
  assumes ok: "cache_ok s" and "calm BcacheLock s" and c: "\<And>i. i < NBUF \<Longrightarrow> \<not> caches dev n (bufs s ! i)"
    and xs: "ring (bufs s) xs"
  shows "bget dev n s = (case find (\<lambda>i. recyclable (bufs s ! i)) (rev xs) of
      None \<Rightarrow> Panic ''bget: no buffers''
    | Some i \<Rightarrow> Ret i (settled (s\<lparr>bufs := (bufs s)[i := (bufs s ! i)\<lparr>b_dev := dev, b_blockno := n, b_busy := True,
        b_valid := False, b_dirty := False\<rparr>]\<rparr>)))"
proof -
  have "find (\<lambda>j. caches dev n (bufs s ! j)) xs = None"
    using c xs by (auto simp: find_None ring_def)
  then show ?thesis
    using assms(2) by (simp add: bget_def bget_loop_def cs_simps scan_ring [OF xs] split: option.split)
qed

lemma loaded_sel [simp]:
  "disk (loaded n i s) = disk s" "dwrites (loaded n i s) = dwrites s" "disksize (loaded n i s) = disksize s"
  "calm l (loaded n i s) = calm l s"
  "bufs (loaded n i s) = (bufs s)[i := (bufs s ! i)\<lparr>b_busy := True, b_valid := True, b_dev := 1,
     b_blockno := n, b_data := blk s n\<rparr>]"
  by (simp_all add: loaded_def settled_def calm_def)

lemma ring_upd:
  assumes "ring bs xs" and "nexts bs' = nexts bs" and "prevs bs' = prevs bs" and "length bs' = length bs"
  shows "ring bs' xs"
  using assms by (simp add: ring_def)

lemma links_same:
  assumes "b_next b = b_next (bs ! i)" and "b_prev b = b_prev (bs ! i)"
  shows "nexts (bs[i := b]) = nexts bs" "prevs (bs[i := b]) = prevs bs"
  by (rule ext, cases "i < length bs"; simp add: nexts_def prevs_def nth_list_update list_update_beyond not_less assms)+

lemma length_blk: "cache_ok s \<Longrightarrow> length (blk s n) = BSIZE"
  using cache_okD(2,3) [of s] by (auto simp: blk_def buf_ok_def split: option.split dest!: find_SomeD)

lemma buf_refill:
  assumes "b_valid b" and "b_dev b = 1" and "b_blockno b = n" and "b_data b = d"
  shows "b\<lparr>b_busy := True, b_valid := True, b_dev := 1, b_blockno := n, b_data := d\<rparr> = b\<lparr>b_busy := True\<rparr>"
  using assms by (cases b) simp

lemma buf_reread:
  assumes "b_dev b = 1" and "b_blockno b = n"
  shows "b\<lparr>b_busy := True, b_valid := True, b_dev := 1, b_blockno := n, b_data := d\<rparr> =
    b\<lparr>b_busy := True, b_data := d, b_valid := True\<rparr>"
  using assms by (cases b) simp

lemma buf_recycle:
  assumes "\<not> b_dirty b"
  shows "b\<lparr>b_dev := 1, b_blockno := n, b_busy := True, b_valid := False, b_dirty := False, b_data := d, b_valid := True\<rparr> =
    b\<lparr>b_busy := True, b_valid := True, b_dev := 1, b_blockno := n, b_data := d\<rparr>"
  using assms by (cases b) simp

lemma bread_run:
  assumes ok: "cache_ok s" and calm: "calm BcacheLock s" and n: "n < disksize s"
    and free: "no_waiters s n" and room: "n \<in> pinned s \<or> card (in_use s) < NBUF"
  shows "\<exists>i. slot s n i \<and> bread 1 n s = Ret i (loaded n i s)"
proof (cases "\<exists>i < NBUF. caches 1 n (bufs s ! i)")
  case True
  then obtain i where i: "i < NBUF" "caches 1 n (bufs s ! i)"
    by blast
  then have nb: "\<not> b_busy (bufs s ! i)"
    using free by (auto simp: no_waiters_def)
  have l: "i < length (bufs s)" and bok: "buf_ok (disk s) (bufs s ! i)"
    using cache_okD [OF ok] i by auto
  have eq: "b_dev (bufs s ! i) = 1" "b_blockno (bufs s ! i) = n"
    using i(2) by (auto simp: caches_def)
  have "bread 1 n s = Ret i (loaded n i s)"
  proof (cases "b_valid (bufs s ! i)")
    case True
    then have "b_data (bufs s ! i) = blk s n"
      using blk_cached [OF ok i] by simp
    then show ?thesis
      using True l eq by (simp add: bread_def bget_cached [OF ok calm i nb] run_simps loaded_def buf_refill)
  next
    case False
    then have "\<not> b_dirty (bufs s ! i)" "blk s n = disk s n"
      using bok cache_uniq [OF ok i(1) _ i(2)] by (auto intro!: blk_uncached simp: buf_ok_def)
    then show ?thesis
      using False l eq n
      by (simp add: bread_def bget_cached [OF ok calm i nb] run_simps loaded_def iderw_def not_le buf_reread)
  qed
  then show ?thesis
    using i nb by (auto simp: slot_def)
next
  case False
  obtain xs where xs: "ring (bufs s) xs"
    using ok by (auto simp: cache_ok_def)
  have "\<not> {..<NBUF} \<subseteq> in_use s"
    using room False card_mono [of "in_use s" "{..<NBUF}"] by (auto simp: in_use_def pinned_def)
  then have "find (\<lambda>i. recyclable (bufs s ! i)) (rev xs) \<noteq> None"
    using xs by (auto simp: find_None ring_def recyclable_def in_use_def)
  then obtain i where i: "find (\<lambda>i. recyclable (bufs s ! i)) (rev xs) = Some i"
    by blast
  then have ib: "i < NBUF" and r: "recyclable (bufs s ! i)"
    using xs find_SomeD [OF i] by (auto simp: ring_def)
  have l: "i < length (bufs s)"
    using ib cache_okD(1) [OF ok] by simp
  have g: "bget 1 n s = Ret i (settled (s\<lparr>bufs := (bufs s)[i := (bufs s ! i)\<lparr>b_dev := 1, b_blockno := n,
      b_busy := True, b_valid := False, b_dirty := False\<rparr>]\<rparr>))"
    using bget_fresh [OF ok calm _ xs, of 1 n] False by (simp add: i)
  have "blk s n = disk s n"
    using False by (auto intro!: blk_uncached)
  then have "bread 1 n s = Ret i (loaded n i s)"
    using l n r
    by (simp add: bread_def g run_simps loaded_def iderw_def recyclable_def not_le buf_recycle)
  then show ?thesis
    using ib r False by (auto simp: slot_def recyclable_def)
qed

lemma cache_ok_upd:
  assumes ok: "cache_ok s" and i: "i < NBUF" and t: "bufs t = (bufs s)[i := b]"
    and lk: "b_next b = b_next (bufs s ! i)" "b_prev b = b_prev (bufs s ! i)"
    and b: "buf_ok (disk t) b" and d: "\<And>n. length (disk t n) = BSIZE"
    and other: "\<And>j. j < NBUF \<Longrightarrow> j \<noteq> i \<Longrightarrow> buf_ok (disk t) (bufs s ! j)"
    and uniq: "\<And>j. j < NBUF \<Longrightarrow> j \<noteq> i \<Longrightarrow> b_dev b \<noteq> - 1 \<Longrightarrow> \<not> caches (b_dev b) (b_blockno b) (bufs s ! j)"
  shows "cache_ok t"
proof -
  have l: "length (bufs s) = Suc NBUF"
    using cache_okD [OF ok] by simp
  obtain xs where xs: "ring (bufs s) xs"
    using ok by (auto simp: cache_ok_def)
  have "ring (bufs t) xs"
    by (rule ring_upd [OF xs]) (simp_all add: t links_same [OF lk])
  moreover have "buf_ok (disk t) (bufs t ! j)" if "j < NBUF" for j
    using that b other l by (cases "j = i") (simp_all add: t)
  moreover have "j = k" if "j < NBUF" "k < NBUF" and c: "caches (b_dev (bufs t ! j)) (b_blockno (bufs t ! j)) (bufs t ! k)"
    and "b_dev (bufs t ! j) \<noteq> - 1" for j k
  proof (rule ccontr)
    assume "j \<noteq> k"
    then consider "j = i" "k \<noteq> i" | "j \<noteq> i" "k = i" | "j \<noteq> i" "k \<noteq> i"
      by blast
    then show False
    proof cases
      case 1
      then show False
        using uniq [of k] that l i by (simp add: t)
    next
      case 2
      then show False
        using uniq [of j] that l i by (simp add: t caches_def)
    next
      case 3
      then show False
        using ok that \<open>j \<noteq> k\<close> l by (auto simp: t cache_ok_def)
    qed
  qed
  ultimately show ?thesis
    unfolding cache_ok_def using d by blast
qed

lemma slot_uniq:
  assumes "cache_ok s" and "slot s n i" and "j < NBUF" and "j \<noteq> i"
  shows "\<not> caches 1 n (bufs s ! j)"
  using assms cache_uniq [OF assms(1,3), of i n] by (auto simp: slot_def)

lemma cache_ok_loaded:
  assumes ok: "cache_ok s" and sl: "slot s n i"
  shows "cache_ok (loaded n i s)"
proof (rule cache_ok_upd [OF ok _ loaded_sel(5)])
  show "i < NBUF"
    using sl by (simp add: slot_def)
  show "buf_ok (disk (loaded n i s)) ((bufs s ! i)\<lparr>b_busy := True, b_valid := True, b_dev := 1,
     b_blockno := n, b_data := blk s n\<rparr>)"
    using length_blk [OF ok] by (simp add: buf_ok_def)
  show "length (disk (loaded n i s) m) = BSIZE" for m
    using cache_okD(2) [OF ok] by simp
  show "buf_ok (disk (loaded n i s)) (bufs s ! j)" if "j < NBUF" for j
    using cache_okD(3) [OF ok that] by simp
qed (simp_all add: slot_uniq [OF ok sl])

lemma blk_loaded:
  assumes ok: "cache_ok s" and sl: "slot s n i"
  shows "blk (loaded n i s) = blk s"
proof
  fix m
  have i: "i < NBUF" and l: "length (bufs s) = Suc NBUF"
    using sl cache_okD(1) [OF ok] by (simp_all add: slot_def)
  note ok' = cache_ok_loaded [OF ok sl]
  show "blk (loaded n i s) m = blk s m"
  proof (cases "m = n")
    case True
    then show ?thesis
      using blk_cached [OF ok' i, of n] i l by (simp add: caches_def)
  next
    case False
    show ?thesis
    proof (cases "\<exists>j < NBUF. j \<noteq> i \<and> caches 1 m (bufs s ! j) \<and> b_valid (bufs s ! j)")
      case True
      then obtain j where j: "j < NBUF" "j \<noteq> i" "caches 1 m (bufs s ! j)" "b_valid (bufs s ! j)"
        by blast
      then show ?thesis
        using blk_cached [OF ok' j(1), of m] blk_cached [OF ok j(1), of m] by simp
    next
      case no: False
      have "\<not> b_valid (bufs (loaded n i s) ! k)" if "k < NBUF" "caches 1 m (bufs (loaded n i s) ! k)" for k
        using that no \<open>m \<noteq> n\<close> l i by (cases "k = i") (auto simp: caches_def)
      then have "blk (loaded n i s) m = disk s m"
        using blk_uncached [of m "loaded n i s"] by simp
      moreover have "blk s m = disk s m"
      proof (cases "caches 1 m (bufs s ! i) \<and> b_valid (bufs s ! i)")
        case True
        then have "b_data (bufs s ! i) = disk s m"
          using sl cache_okD(3) [OF ok i] \<open>m \<noteq> n\<close> by (auto simp: slot_def buf_ok_def caches_def)
        then show ?thesis
          using True blk_cached [OF ok i, of m] by simp
      next
        case False
        then show ?thesis
          using no by (intro blk_uncached) blast
      qed
      ultimately show ?thesis
        by simp
    qed
  qed
qed

text \<open>Storing new data in a buffer one holds, writing it to the disk, and giving it back.\<close>

definition set_data :: "nat \<Rightarrow> u8 list \<Rightarrow> ('a bmach_scheme, unit) op" where
  "set_data i d = upd_buf i (b_data_update (\<lambda>_. d))"

definition held :: "'a bmach_scheme \<Rightarrow> nat \<Rightarrow> u32 option" where
  "held s i = (if i < NBUF \<and> b_busy (bufs s ! i) then Some (b_blockno (bufs s ! i)) else None)"

definition bio_inv :: "'a bmach_scheme \<Rightarrow> bool" where
  "bio_inv s \<longleftrightarrow> cache_ok s \<and> calm BcacheLock s \<and> calm PtableLock s \<and>
     (\<forall>i < NBUF. b_busy (bufs s ! i) \<longrightarrow> b_valid (bufs s ! i) \<and> b_blockno (bufs s ! i) < disksize s)"

definition edited :: "nat \<Rightarrow> u8 list \<Rightarrow> 'a bmach_scheme \<Rightarrow> 'a bmach_scheme" where
  "edited i d s = s\<lparr>bufs := (bufs s)[i := (bufs s ! i)\<lparr>b_data := d\<rparr>]\<rparr>"

definition flushed :: "nat \<Rightarrow> 'a bmach_scheme \<Rightarrow> 'a bmach_scheme" where
  "flushed i s = s\<lparr>bufs := (bufs s)[i := (bufs s ! i)\<lparr>b_dirty := False, b_valid := True\<rparr>],
     disk := (disk s)(b_blockno (bufs s ! i) := b_data (bufs s ! i)),
     dwrites := dwrites s @ [(b_blockno (bufs s ! i), b_data (bufs s ! i))]\<rparr>"

definition unheld :: "nat \<Rightarrow> 'a bmach_scheme \<Rightarrow> 'a bmach_scheme" where
  "unheld i s = settled (s\<lparr>ptable := map (wake_proc (BufChan i)) (ptable s),
     bufs := (to_front i (bufs s))[i := (to_front i (bufs s) ! i)\<lparr>b_busy := False\<rparr>]\<rparr>)"

lemma set_data_run: "set_data i d s = Ret () (edited i d s)"
  by (simp add: set_data_def run_simps edited_def)

lemma held_SomeD:
  assumes "bio_inv s" and "held s i = Some n"
  shows "i < NBUF" "b_busy (bufs s ! i)" "b_valid (bufs s ! i)" "b_dev (bufs s ! i) = 1" "b_blockno (bufs s ! i) = n"
    "n < disksize s" "caches 1 n (bufs s ! i)" "blk s n = b_data (bufs s ! i)"
proof -
  show *: "i < NBUF" "b_busy (bufs s ! i)" "b_blockno (bufs s ! i) = n"
    using assms(2) by (simp_all add: held_def split: if_splits)
  then show v: "b_valid (bufs s ! i)" "n < disksize s"
    using assms(1) by (auto simp: bio_inv_def)
  have ok: "cache_ok s"
    using assms(1) by (simp add: bio_inv_def)
  show d: "b_dev (bufs s ! i) = 1"
    using cache_okD(3) [OF ok *(1)] v(1) by (simp add: buf_ok_def)
  show c: "caches 1 n (bufs s ! i)"
    using d *(3) by (simp add: caches_def)
  show "blk s n = b_data (bufs s ! i)"
    by (rule blk_cached [OF ok *(1) c v(1)])
qed

lemma bwrite_run:
  assumes "bio_inv s" and "held s i = Some n"
  shows "bwrite i s = Ret () (flushed i s)"
proof -
  note h = held_SomeD [OF assms]
  have "i < length (bufs s)"
    using h(1) assms(1) cache_okD(1) [of s] by (simp add: bio_inv_def)
  then show ?thesis
    using h by (simp add: bwrite_def iderw_def run_simps flushed_def not_le)
qed

lemma acquired_bio [simp]:
  "bufs (acquired l s) = bufs s" "disk (acquired l s) = disk s" "dwrites (acquired l s) = dwrites s"
  "disksize (acquired l s) = disksize s" "ptable (acquired l s) = ptable s"
  by (simp_all add: acquired_def)

lemma brelse_run:
  assumes "bio_inv s" and "held s i = Some n"
  shows "brelse i s = Ret () (unheld i s)"
proof -
  have c: "locks s BcacheLock = unlocked" "locks s PtableLock = unlocked" "cpu_ok (mycpu s)"
    using assms(1) by (simp_all add: bio_inv_def calm_def)
  let ?bs = "(to_front i (bufs s))[i := (to_front i (bufs s) ! i)\<lparr>b_busy := False\<rparr>]"
  let ?t = "(acquired BcacheLock s)\<lparr>bufs := ?bs\<rparr>"
  let ?u = "settled (?t\<lparr>ptable := map (wake_proc (BufChan i)) (ptable s)\<rparr>)"
  have w: "wakeup (BufChan i) ?t = Ret () ?u"
    using wakeup_run [of ?t "BufChan i"] c by (simp add: calm_def)
  have "release BcacheLock ?u = Ret () (?u\<lparr>locks := (locks ?u)(BcacheLock := unlocked), mycpu := settle (mycpu s)\<rparr>)"
    by (rule release_acquired) (use c(3) in \<open>simp_all add: cpu_ok_def\<close>)
  also have "?u\<lparr>locks := (locks ?u)(BcacheLock := unlocked), mycpu := settle (mycpu s)\<rparr> = unheld i s"
    using c by (cases s) (simp add: unheld_def settled_def acquired_def fun_upd_idem)
  finally show ?thesis
    using held_SomeD(2) [OF assms] c w by (simp add: brelse_def run_simps)
qed

text \<open>
  \<open>t\<close> differs from \<open>s\<close> only in buffer \<open>i\<close>, which caches block \<open>n\<close> in both, in the disk's copy of \<open>n\<close>, and in
  the order of the list.
\<close>

definition same_but :: "nat \<Rightarrow> u32 \<Rightarrow> 'a bmach_scheme \<Rightarrow> 'a bmach_scheme \<Rightarrow> bool" where
  "same_but i n s t \<longleftrightarrow> i < NBUF \<and> caches 1 n (bufs s ! i) \<and> caches 1 n (bufs t ! i) \<and> b_valid (bufs s ! i) \<and>
     b_valid (bufs t ! i) \<and> (\<forall>j < NBUF. j \<noteq> i \<longrightarrow> core (bufs t ! j) = core (bufs s ! j)) \<and>
     (\<forall>m. m \<noteq> n \<longrightarrow> disk t m = disk s m) \<and> (\<exists>xs. ring (bufs t) xs)"

lemma same_but_sel:
  assumes "same_but i n s t" and "j < NBUF" and "j \<noteq> i"
  shows "b_busy (bufs t ! j) = b_busy (bufs s ! j)" "b_valid (bufs t ! j) = b_valid (bufs s ! j)"
    "b_dirty (bufs t ! j) = b_dirty (bufs s ! j)" "b_data (bufs t ! j) = b_data (bufs s ! j)"
    "b_blockno (bufs t ! j) = b_blockno (bufs s ! j)" "b_dev (bufs t ! j) = b_dev (bufs s ! j)"
    "caches d m (bufs t ! j) = caches d m (bufs s ! j)"
proof -
  have "core (bufs t ! j) = core (bufs s ! j)"
    using assms by (simp add: same_but_def)
  note c = core_eqD [OF this]
  show "b_busy (bufs t ! j) = b_busy (bufs s ! j)" "b_valid (bufs t ! j) = b_valid (bufs s ! j)"
    "b_dirty (bufs t ! j) = b_dirty (bufs s ! j)" "b_data (bufs t ! j) = b_data (bufs s ! j)"
    "b_blockno (bufs t ! j) = b_blockno (bufs s ! j)" "b_dev (bufs t ! j) = b_dev (bufs s ! j)"
    "caches d m (bufs t ! j) = caches d m (bufs s ! j)"
    by (simp_all add: c caches_def)
qed

lemma cache_ok_same:
  assumes ok: "cache_ok s" and same: "same_but i n s t" and b: "buf_ok (disk t) (bufs t ! i)"
    and l: "length (disk t n) = BSIZE"
  shows "cache_ok t"
proof -
  note sel = same_but_sel [OF same]
  have i: "i < NBUF" and ci: "caches 1 n (bufs s ! i)" "caches 1 n (bufs t ! i)"
    using same by (simp_all add: same_but_def)
  have dm: "disk t m = disk s m" if "m \<noteq> n" for m
    using same that by (simp add: same_but_def)
  have "buf_ok (disk t) (bufs t ! j)" if j: "j < NBUF" for j
  proof (cases "j = i")
    case False
    have "buf_ok (disk s) (bufs s ! j)" "\<not> caches 1 n (bufs s ! j)"
      using cache_okD(3) [OF ok j] cache_uniq [OF ok i j ci(1)] False by auto
    then show ?thesis
      using sel [OF j False] dm by (auto simp: buf_ok_def caches_def)
  qed (simp add: b)
  moreover have "length (disk t m) = BSIZE" for m
    using dm [of m] l cache_okD(2) [OF ok, of m] by (cases "m = n") simp_all
  moreover have "j = k" if "j < NBUF" "k < NBUF" and c: "caches (b_dev (bufs t ! j)) (b_blockno (bufs t ! j)) (bufs t ! k)"
    and d: "b_dev (bufs t ! j) \<noteq> - 1" for j k
  proof -
    have eq: "b_dev (bufs t ! m) = b_dev (bufs s ! m) \<and> b_blockno (bufs t ! m) = b_blockno (bufs s ! m)"
      if "m < NBUF" for m
      using sel(5,6) [OF that] ci by (cases "m = i") (simp_all add: caches_def)
    then show ?thesis
      using ok that by (simp add: cache_ok_def caches_def)
  qed
  moreover have "\<exists>xs. ring (bufs t) xs"
    using same by (simp add: same_but_def)
  ultimately show ?thesis
    unfolding cache_ok_def by blast
qed

lemma blk_same:
  assumes ok: "cache_ok s" "cache_ok t" and same: "same_but i n s t"
  shows "blk t = (blk s)(n := b_data (bufs t ! i))"
proof
  fix m
  note sel = same_but_sel [OF same]
  have i: "i < NBUF" and ci: "caches 1 n (bufs s ! i)" "caches 1 n (bufs t ! i)"
    and v: "b_valid (bufs t ! i)" "b_valid (bufs s ! i)"
    using same by (simp_all add: same_but_def)
  show "blk t m = ((blk s)(n := b_data (bufs t ! i))) m"
  proof (cases "m = n")
    case True
    then show ?thesis
      using blk_cached [OF ok(2) i ci(2) v(1)] by simp
  next
    case False
    then have ni: "\<not> caches 1 m (bufs s ! i)" "\<not> caches 1 m (bufs t ! i)"
      using ci by (auto simp: caches_def)
    show ?thesis
    proof (cases "\<exists>j < NBUF. caches 1 m (bufs s ! j) \<and> b_valid (bufs s ! j)")
      case True
      then obtain j where j: "j < NBUF" "j \<noteq> i" "caches 1 m (bufs s ! j)" "b_valid (bufs s ! j)"
        using ni by blast
      then show ?thesis
        using blk_cached [OF ok(2) j(1), of m] blk_cached [OF ok(1) j(1), of m] sel [OF j(1,2)] False by simp
    next
      case no: False
      have "\<not> b_valid (bufs t ! k)" if "k < NBUF" "caches 1 m (bufs t ! k)" for k
        using that no ni sel [of k] by (cases "k = i") auto
      then have "blk t m = disk t m" "blk s m = disk s m"
        using no by (auto intro!: blk_uncached)
      then show ?thesis
        using same False by (simp add: same_but_def)
    qed
  qed
qed

lemma sets_same:
  assumes ok: "cache_ok s" and same: "same_but i n s t"
  shows "held t = (held s)(i := if b_busy (bufs t ! i) then Some n else None)"
    and "pinned t = (if b_dirty (bufs t ! i) then insert n (pinned s) else pinned s - {n})"
    and "in_use t = (if b_busy (bufs t ! i) \<or> b_dirty (bufs t ! i) then insert i (in_use s) else in_use s - {i})"
proof -
  note sel = same_but_sel [OF same]
  have i: "i < NBUF" and ci: "caches 1 n (bufs s ! i)" "caches 1 n (bufs t ! i)"
    using same by (simp_all add: same_but_def)
  have "held t j = ((held s)(i := if b_busy (bufs t ! i) then Some n else None)) j" for j
    using sel [of j] ci i by (cases "j = i") (auto simp: held_def caches_def)
  then show "held t = (held s)(i := if b_busy (bufs t ! i) then Some n else None)"
    by blast
  have n: "m \<in> pinned t \<longleftrightarrow> m \<in> pinned s" if "m \<noteq> n" for m
  proof -
    have "caches 1 m (bufs t ! j) \<and> b_dirty (bufs t ! j) \<longleftrightarrow> caches 1 m (bufs s ! j) \<and> b_dirty (bufs s ! j)"
      if "j < NBUF" for j
      using sel [OF that] ci \<open>m \<noteq> n\<close> by (cases "j = i") (auto simp: caches_def)
    then show ?thesis
      unfolding pinned_def by auto
  qed
  have "n \<in> pinned t \<longleftrightarrow> b_dirty (bufs t ! i)"
  proof -
    have "\<not> caches 1 n (bufs t ! j)" if "j < NBUF" "j \<noteq> i" for j
      using sel(7) [OF that] cache_uniq [OF ok i that(1) ci(1)] that(2) by blast
    then show ?thesis
      using i ci by (auto simp: pinned_def)
  qed
  then have "m \<in> pinned t \<longleftrightarrow> m \<in> (if b_dirty (bufs t ! i) then insert n (pinned s) else pinned s - {n})" for m
    using n [of m] by (cases "m = n") simp_all
  then show "pinned t = (if b_dirty (bufs t ! i) then insert n (pinned s) else pinned s - {n})"
    by blast
  have "j \<in> in_use t \<longleftrightarrow> j \<in> (if b_busy (bufs t ! i) \<or> b_dirty (bufs t ! i) then insert i (in_use s) else in_use s - {i})"
    for j
    using sel [of j] i by (cases "j = i") (auto simp: in_use_def)
  then show "in_use t = (if b_busy (bufs t ! i) \<or> b_dirty (bufs t ! i) then insert i (in_use s) else in_use s - {i})"
    by blast
qed

lemma to_front_sel [simp]:
  assumes "j < length bs"
  shows "b_busy (to_front b bs ! j) = b_busy (bs ! j)" "b_valid (to_front b bs ! j) = b_valid (bs ! j)"
    "b_dirty (to_front b bs ! j) = b_dirty (bs ! j)" "b_dev (to_front b bs ! j) = b_dev (bs ! j)"
    "b_blockno (to_front b bs ! j) = b_blockno (bs ! j)" "b_data (to_front b bs ! j) = b_data (bs ! j)"
proof -
  have "core (to_front b bs ! j) = core (bs ! j)"
    using assms core_to_front [of b bs] by (metis length_to_front nth_map)
  note c = core_eqD [OF this]
  show "b_busy (to_front b bs ! j) = b_busy (bs ! j)" "b_valid (to_front b bs ! j) = b_valid (bs ! j)"
    "b_dirty (to_front b bs ! j) = b_dirty (bs ! j)" "b_dev (to_front b bs ! j) = b_dev (bs ! j)"
    "b_blockno (to_front b bs ! j) = b_blockno (bs ! j)" "b_data (to_front b bs ! j) = b_data (bs ! j)"
    by (simp_all add: c)
qed

lemma effect_sel [simp]:
  "bufs (edited i d s) = (bufs s)[i := (bufs s ! i)\<lparr>b_data := d\<rparr>]"
  "disk (edited i d s) = disk s" "dwrites (edited i d s) = dwrites s" "disksize (edited i d s) = disksize s"
  "calm l (edited i d s) = calm l s"
  "bufs (flushed i s) = (bufs s)[i := (bufs s ! i)\<lparr>b_dirty := False, b_valid := True\<rparr>]"
  "disk (flushed i s) = (disk s)(b_blockno (bufs s ! i) := b_data (bufs s ! i))"
  "dwrites (flushed i s) = dwrites s @ [(b_blockno (bufs s ! i), b_data (bufs s ! i))]"
  "disksize (flushed i s) = disksize s" "calm l (flushed i s) = calm l s"
  "bufs (unheld i s) = (to_front i (bufs s))[i := (to_front i (bufs s) ! i)\<lparr>b_busy := False\<rparr>]"
  "disk (unheld i s) = disk s" "dwrites (unheld i s) = dwrites s" "disksize (unheld i s) = disksize s"
  "calm l (unheld i s) = calm l s"
  by (simp_all add: edited_def flushed_def unheld_def calm_def)

lemma ring_unheld:
  assumes xs: "ring (bufs s) xs" and i: "i < NBUF"
  shows "\<exists>ys. ring (bufs (unheld i s)) ys"
proof -
  obtain us vs where "xs = us @ i # vs"
    using xs i split_list [of i xs] by (auto simp: ring_def)
  then have "ring (to_front i (bufs s)) (i # us @ vs)"
    using ring_to_front xs by simp
  then have "ring (bufs (unheld i s)) (i # us @ vs)"
    by (rule ring_upd) (simp_all add: links_same)
  then show ?thesis
    by blast
qed

lemma same_butI:
  assumes "bio_inv s" and "held s i = Some n" and "ring (bufs t) xs"
    and "b_dev (bufs t ! i) = 1" and "b_blockno (bufs t ! i) = n" and "b_valid (bufs t ! i)"
    and "\<And>j. j < NBUF \<Longrightarrow> j \<noteq> i \<Longrightarrow> core (bufs t ! j) = core (bufs s ! j)"
    and "\<And>m. m \<noteq> n \<Longrightarrow> disk t m = disk s m"
  shows "same_but i n s t"
  unfolding same_but_def caches_def
  using held_SomeD(1,3,4,5) [OF assms(1,2)] assms(3-8) by blast

lemma core_nth_to_front: "j < length bs \<Longrightarrow> core (to_front b bs ! j) = core (bs ! j)"
  using core_to_front [of b bs] by (metis length_to_front nth_map)

lemma bio_inv_ok: "bio_inv s \<Longrightarrow> cache_ok s" "bio_inv s \<Longrightarrow> length (bufs s) = Suc NBUF"
  using cache_okD(1) [of s] by (simp_all add: bio_inv_def)

lemma same_effects:
  assumes inv: "bio_inv s" and h: "held s i = Some n"
  shows "same_but i n s (edited i d s)" "same_but i n s (flushed i s)" "same_but i n s (unheld i s)"
proof -
  note hd = held_SomeD [OF assms] and l = bio_inv_ok(2) [OF inv]
  obtain xs where xs: "ring (bufs s) xs"
    using bio_inv_ok(1) [OF inv] unfolding cache_ok_def by blast
  have r: "ring (bufs (edited i d s)) xs" "ring (bufs (flushed i s)) xs"
    by (rule ring_upd [OF xs]; simp add: links_same)+
  show "same_but i n s (edited i d s)"
    by (rule same_butI [OF assms r(1)]) (use hd l in simp_all)
  show "same_but i n s (flushed i s)"
    by (rule same_butI [OF assms r(2)]) (use hd l in simp_all)
  obtain ys where "ring (bufs (unheld i s)) ys"
    using ring_unheld [OF xs hd(1)] by blast
  then show "same_but i n s (unheld i s)"
    by (rule same_butI [OF assms]) (use hd l in \<open>simp_all add: core_nth_to_front\<close>)
qed

lemma pinned_iff:
  assumes "bio_inv s" and "held s i = Some n"
  shows "n \<in> pinned s \<longleftrightarrow> b_dirty (bufs s ! i)"
proof -
  note hd = held_SomeD [OF assms]
  have "j = i" if "j < NBUF" "caches 1 n (bufs s ! j)" for j
    using cache_uniq [OF bio_inv_ok(1) [OF assms(1)] that(1) hd(1) that(2) hd(7)] .
  then show ?thesis
    using hd(1,7) unfolding pinned_def by blast
qed

lemma edited_spec:
  assumes inv: "bio_inv s" and h: "held s i = Some n" and d: "length d = BSIZE"
  shows "bio_inv (edited i d s)" "blk (edited i d s) = (blk s)(n := d)" "held (edited i d s) = held s"
    "pinned (edited i d s) = pinned s" "in_use (edited i d s) = in_use s"
proof -
  note hd = held_SomeD [OF inv h] and ok = bio_inv_ok(1) [OF inv] and l = bio_inv_ok(2) [OF inv]
  note same = same_effects(1) [OF inv h, of d]
  have ok': "cache_ok (edited i d s)"
    by (rule cache_ok_same [OF ok same]) (use hd l d cache_okD(2) [OF ok] in \<open>simp_all add: buf_ok_def\<close>)
  show "blk (edited i d s) = (blk s)(n := d)"
    using blk_same [OF ok ok' same] hd(1) l by simp
  show "held (edited i d s) = held s"
    using sets_same(1) [OF ok same] hd(1,2) l h by (simp add: fun_upd_idem)
  show "pinned (edited i d s) = pinned s"
    using sets_same(2) [OF ok same] pinned_iff [OF inv h] hd(1) l by (auto simp: insert_absorb)
  have "i \<in> in_use s"
    using hd(1,2) by (simp add: in_use_def)
  then show "in_use (edited i d s) = in_use s"
    using sets_same(3) [OF ok same] hd(1,2) l by (simp add: insert_absorb)
  show "bio_inv (edited i d s)"
    using inv ok' hd(1) l by (simp add: bio_inv_def nth_list_update)
qed

lemma flushed_spec:
  assumes inv: "bio_inv s" and h: "held s i = Some n"
  shows "bio_inv (flushed i s)" "blk (flushed i s) = blk s" "held (flushed i s) = held s"
    "pinned (flushed i s) = pinned s - {n}" "in_use (flushed i s) = in_use s"
    "disk (flushed i s) = (disk s)(n := blk s n)" "dwrites (flushed i s) = dwrites s @ [(n, blk s n)]"
proof -
  note hd = held_SomeD [OF inv h] and ok = bio_inv_ok(1) [OF inv] and l = bio_inv_ok(2) [OF inv]
  note same = same_effects(2) [OF inv h]
  show d: "disk (flushed i s) = (disk s)(n := blk s n)" "dwrites (flushed i s) = dwrites s @ [(n, blk s n)]"
    using hd(5,8) by simp_all
  have "length (b_data (bufs s ! i)) = BSIZE"
    using cache_okD(3) [OF ok hd(1)] by (simp add: buf_ok_def)
  then have ok': "cache_ok (flushed i s)"
    by (intro cache_ok_same [OF ok same]) (use hd l in \<open>simp_all add: buf_ok_def\<close>)
  show "blk (flushed i s) = blk s"
    using blk_same [OF ok ok' same] hd(1,8) l by (simp add: fun_upd_idem)
  show "held (flushed i s) = held s"
    using sets_same(1) [OF ok same] hd(1,2) l h by (simp add: fun_upd_idem)
  show "pinned (flushed i s) = pinned s - {n}"
    using sets_same(2) [OF ok same] hd(1) l by simp
  have "i \<in> in_use s"
    using hd(1,2) by (simp add: in_use_def)
  then show "in_use (flushed i s) = in_use s"
    using sets_same(3) [OF ok same] hd(1,2) l by (simp add: insert_absorb)
  show "bio_inv (flushed i s)"
    using inv ok' hd(1) l by (simp add: bio_inv_def nth_list_update)
qed

lemma unheld_spec:
  assumes inv: "bio_inv s" and h: "held s i = Some n" and c: "n \<in> pinned s \<or> blk s n = disk s n"
  shows "bio_inv (unheld i s)" "blk (unheld i s) = blk s" "held (unheld i s) = (held s)(i := None)"
    "pinned (unheld i s) = pinned s" "in_use (unheld i s) = (if n \<in> pinned s then in_use s else in_use s - {i})"
proof -
  note hd = held_SomeD [OF inv h] and ok = bio_inv_ok(1) [OF inv] and l = bio_inv_ok(2) [OF inv]
  note same = same_effects(3) [OF inv h]
  note p = pinned_iff [OF inv h]
  have "length (b_data (bufs s ! i)) = BSIZE"
    using cache_okD(3) [OF ok hd(1)] by (simp add: buf_ok_def)
  then have "buf_ok (disk (unheld i s)) (bufs (unheld i s) ! i)"
    using c hd l p by (auto simp: buf_ok_def)
  then have ok': "cache_ok (unheld i s)"
    by (rule cache_ok_same [OF ok same]) (simp add: cache_okD(2) [OF ok, simplified])
  show "blk (unheld i s) = blk s"
    using blk_same [OF ok ok' same] hd(1,8) l by (simp add: fun_upd_idem)
  show "held (unheld i s) = (held s)(i := None)"
    using sets_same(1) [OF ok same] hd(1) l by simp
  show "pinned (unheld i s) = pinned s"
    using sets_same(2) [OF ok same] hd(1) l p by (auto simp: insert_absorb)
  have "i \<in> in_use s"
    using hd(1,2) by (simp add: in_use_def)
  then show "in_use (unheld i s) = (if n \<in> pinned s then in_use s else in_use s - {i})"
    using sets_same(3) [OF ok same] hd(1) l p by (simp add: insert_absorb)
  show "bio_inv (unheld i s)"
    using inv ok' hd(1) l by (simp add: bio_inv_def nth_list_update)
qed

lemma loaded_spec:
  assumes inv: "bio_inv s" and n: "n < disksize s" and sl: "slot s n i"
  shows "bio_inv (loaded n i s)" "held (loaded n i s) = (held s)(i \<mapsto> n)" "held s i = None"
    "pinned (loaded n i s) = pinned s" "in_use (loaded n i s) = insert i (in_use s)"
    "i \<in> in_use s \<Longrightarrow> n \<in> pinned s"
proof -
  note ok = bio_inv_ok(1) [OF inv] and l = bio_inv_ok(2) [OF inv]
  have i: "i < NBUF" "\<not> b_busy (bufs s ! i)"
    using sl by (simp_all add: slot_def)
  show "bio_inv (loaded n i s)"
    using inv cache_ok_loaded [OF ok sl] i(1) l n by (simp add: bio_inv_def nth_list_update)
  have "held (loaded n i s) j = ((held s)(i \<mapsto> n)) j" for j
    using i l by (cases "j = i") (simp_all add: held_def)
  then show "held (loaded n i s) = (held s)(i \<mapsto> n)"
    by blast
  show "held s i = None"
    using i by (simp add: held_def)
  have "i \<notin> in_use s \<or> (caches 1 n (bufs s ! i) \<and> b_dirty (bufs s ! i))"
    using sl by (auto simp: slot_def in_use_def)
  then show "n \<in> pinned s" if "i \<in> in_use s"
    using that i(1) unfolding pinned_def by blast
  have "j \<in> in_use (loaded n i s) \<longleftrightarrow> j \<in> insert i (in_use s)" for j
    using i l by (cases "j = i") (simp_all add: in_use_def)
  then show "in_use (loaded n i s) = insert i (in_use s)"
    by blast
  have "(caches 1 m (bufs (loaded n i s) ! j) \<and> b_dirty (bufs (loaded n i s) ! j)) \<longleftrightarrow>
      (caches 1 m (bufs s ! j) \<and> b_dirty (bufs s ! j))" if "j < NBUF" for j m
    using sl l that by (cases "j = i") (auto simp: slot_def caches_def)
  then show "pinned (loaded n i s) = pinned s"
    unfolding pinned_def by blast
qed

section \<open>The contract of the cache\<close>

definition cache_abs :: "'a bmach_scheme \<Rightarrow> bstore" where
  "cache_abs s = \<lparr>st_view = blk s, st_disk = disk s, st_writes = dwrites s, st_hold = held s, st_pins = pinned s,
     st_used = card (in_use s)\<rparr>"

definition set_dirty :: "nat \<Rightarrow> ('a bmach_scheme, unit) op" where
  "set_dirty i = upd_buf i (b_dirty_update (\<lambda>_. True))"

text \<open>
  The parts of the machine that operations on the cache touch: beside the cache and the disk, the processes they
  wake and the saved interrupt flag.
\<close>

definition bio_frame :: "'a bmach_scheme \<Rightarrow> 'a bmach_scheme \<Rightarrow> bool" where
  "bio_frame s t \<longleftrightarrow> (\<exists>c p dk dw bf. settle c = settle (mycpu s) \<and>
     t = s\<lparr>mycpu := c, ptable := p, disk := dk, dwrites := dw, bufs := bf\<rparr>)"

lemma bio_frameE:
  assumes "bio_frame s t"
  obtains c p dk dw bf where "settle c = settle (mycpu s)"
    "t = s\<lparr>mycpu := c, ptable := p, disk := dk, dwrites := dw, bufs := bf\<rparr>"
  using assms by (auto simp: bio_frame_def)

lemma bio_frame_refl: "bio_frame s s"
  unfolding bio_frame_def by (rule exI [of _ "mycpu s"], rule exI [of _ "ptable s"], rule exI [of _ "disk s"],
      rule exI [of _ "dwrites s"], rule exI [of _ "bufs s"]) simp

lemma bio_frame_upd:
  "settle c = settle (mycpu s) \<Longrightarrow> bio_frame s (s\<lparr>mycpu := c, ptable := p, disk := dk, dwrites := dw, bufs := bf\<rparr>)"
  unfolding bio_frame_def by blast

lemma bio_frame_trans:
  assumes "bio_frame s t" and "bio_frame t u"
  shows "bio_frame s u"
proof -
  obtain c p dk dw bf where 1: "settle c = settle (mycpu s)"
    "t = s\<lparr>mycpu := c, ptable := p, disk := dk, dwrites := dw, bufs := bf\<rparr>"
    using assms(1) by (rule bio_frameE)
  obtain c' p' dk' dw' bf' where 2: "settle c' = settle (mycpu t)"
    "u = t\<lparr>mycpu := c', ptable := p', disk := dk', dwrites := dw', bufs := bf'\<rparr>"
    using assms(2) by (rule bio_frameE)
  have "u = s\<lparr>mycpu := c', ptable := p', disk := dk', dwrites := dw', bufs := bf'\<rparr>"
    using 1 2 by (cases s) simp
  then show ?thesis
    using 1 2 bio_frame_upd [of c' s] by simp
qed

lemma bio_frame_effects:
  "bio_frame s (loaded n i s)" "bio_frame s (edited i d s)" "bio_frame s (flushed i s)" "bio_frame s (unheld i s)"
  "bio_frame s (s\<lparr>bufs := x\<rparr>)"
proof -
  show "bio_frame s (loaded n i s)"
    using bio_frame_upd [where c = "settle (mycpu s)" and s = s and p = "ptable s" and dk = "disk s" and dw = "dwrites s"] by (cases s) (simp add: loaded_def settled_def)
  show "bio_frame s (edited i d s)"
    using bio_frame_upd [where c = "mycpu s" and s = s and p = "ptable s" and dk = "disk s" and dw = "dwrites s"] by (simp add: edited_def)
  show "bio_frame s (flushed i s)"
    using bio_frame_upd [where c = "mycpu s" and s = s and p = "ptable s"] by (cases s) (simp add: flushed_def)
  show "bio_frame s (unheld i s)"
    using bio_frame_upd [where c = "settle (mycpu s)" and s = s and dk = "disk s" and dw = "dwrites s"] by (cases s) (simp add: unheld_def settled_def)
  show "bio_frame s (s\<lparr>bufs := x\<rparr>)"
    using bio_frame_upd [where c = "mycpu s" and s = s and p = "ptable s" and dk = "disk s" and dw = "dwrites s"] by simp
qed

definition bio_pinned :: "nat \<Rightarrow> 'a bmach_scheme \<Rightarrow> 'a bmach_scheme" where
  "bio_pinned i s = s\<lparr>bufs := (bufs s)[i := (bufs s ! i)\<lparr>b_dirty := True\<rparr>]\<rparr>"

lemma bio_pinned_spec:
  assumes inv: "bio_inv s" and h: "held s i = Some n"
  shows "bio_inv (bio_pinned i s)" "blk (bio_pinned i s) = blk s" "held (bio_pinned i s) = held s"
    "pinned (bio_pinned i s) = insert n (pinned s)" "in_use (bio_pinned i s) = in_use s"
proof -
  note hd = held_SomeD [OF inv h] and ok = bio_inv_ok(1) [OF inv] and l = bio_inv_ok(2) [OF inv]
  let ?t = "bio_pinned i s"
  have b: "bufs ?t = (bufs s)[i := (bufs s ! i)\<lparr>b_dirty := True\<rparr>]" "disk ?t = disk s" "disksize ?t = disksize s"
    "\<And>l. calm l ?t = calm l s"
    by (simp_all add: bio_pinned_def calm_def)
  obtain xs where xs: "ring (bufs s) xs"
    using ok unfolding cache_ok_def by blast
  have "ring (bufs ?t) xs"
    by (rule ring_upd [OF xs]; simp add: b links_same)
  then have same: "same_but i n s ?t"
    by (rule same_butI [OF inv h]) (use hd l in \<open>simp_all add: b\<close>)
  have ok': "cache_ok ?t"
    by (rule cache_ok_same [OF ok same])
       (use cache_okD(2) [OF ok] cache_okD(3) [OF ok hd(1)] hd l in \<open>simp_all add: b buf_ok_def\<close>)
  show "blk ?t = blk s"
    using blk_same [OF ok ok' same] hd(1,8) l by (simp add: b fun_upd_idem)
  show "held ?t = held s"
    using sets_same(1) [OF ok same] hd(1,2) l h by (simp add: b fun_upd_idem)
  show "pinned ?t = insert n (pinned s)"
    using sets_same(2) [OF ok same] hd(1) l by (simp add: b)
  have "i \<in> in_use s"
    using hd(1,2) by (simp add: in_use_def)
  then show "in_use ?t = in_use s"
    using sets_same(3) [OF ok same] hd(1,2) l by (simp add: b insert_absorb)
  show "bio_inv ?t"
    using inv ok' hd(1) l by (simp add: bio_inv_def b nth_list_update)
qed

lemma finite_in_use: "finite (in_use s)"
  by (simp add: in_use_def)

lemma bread_spec:
  assumes inv: "bio_inv s" and n: "n < disksize s" and nh: "n \<notin> ran (held s)"
    and room: "n \<in> pinned s \<or> card (in_use s) < NBUF"
  shows "\<exists>i s'. bread 1 n s = Ret i s' \<and> bio_inv s' \<and> bio_frame s s' \<and> held s i = None \<and>
    cache_abs s' = spec_read n i (cache_abs s)"
proof -
  have "calm BcacheLock s"
    using inv by (simp add: bio_inv_def)
  moreover have "no_waiters s n"
    unfolding no_waiters_def
  proof (intro allI impI notI)
    fix i assume i: "i < NBUF" "caches 1 n (bufs s ! i)" "b_busy (bufs s ! i)"
    then have "held s i = Some n"
      by (simp add: held_def caches_def)
    then show False
      using nh by (auto simp: ran_def)
  qed
  ultimately obtain i where sl: "slot s n i" and r: "bread 1 n s = Ret i (loaded n i s)"
    using bread_run [OF bio_inv_ok(1) [OF inv] _ n _ room] by blast
  note sp = loaded_spec [OF inv n sl]
  have "i \<in> in_use s" if pn: "n \<in> pinned s"
  proof -
    obtain j where j: "j < NBUF" "caches 1 n (bufs s ! j)" "b_dirty (bufs s ! j)"
      using pn by (auto simp: pinned_def)
    then have "j = i"
      using slot_uniq [OF bio_inv_ok(1) [OF inv] sl j(1)] by blast
    then show ?thesis
      using j by (simp add: in_use_def)
  qed
  then have "card (in_use (loaded n i s)) = (if n \<in> pinned s then card (in_use s) else Suc (card (in_use s)))"
    using sp(5,6) finite_in_use [of s] by (cases "i \<in> in_use s") (auto simp: insert_absorb)
  then have "cache_abs (loaded n i s) = spec_read n i (cache_abs s)"
    using sp blk_loaded [OF bio_inv_ok(1) [OF inv] sl] by (simp add: cache_abs_def spec_read_def)
  then show ?thesis
    using r sp bio_frame_effects(1) by blast
qed

lemma brelse_spec:
  assumes inv: "bio_inv s" and h: "held s i = Some n" and c: "n \<in> pinned s \<or> blk s n = disk s n"
  shows "brelse i s = Ret () (unheld i s)" "bio_inv (unheld i s)"
    "cache_abs (unheld i s) = spec_release i n (cache_abs s)"
proof -
  show "brelse i s = Ret () (unheld i s)"
    by (rule brelse_run [OF inv h])
  note sp = unheld_spec [OF inv h c]
  show "bio_inv (unheld i s)"
    by (rule sp)
  have "i \<in> in_use s"
    using held_SomeD [OF inv h] by (simp add: in_use_def)
  then show "cache_abs (unheld i s) = spec_release i n (cache_abs s)"
    using sp finite_in_use [of s] by (simp add: cache_abs_def spec_release_def)
qed

text \<open>The buffer cache keeps the contract.\<close>

interpretation bc: block_store "bread 1" "\<lambda>s i. b_data (bufs s ! i)" set_data set_dirty bwrite brelse bio_inv
    cache_abs disksize bio_frame
proof unfold_locales
  fix s :: "'a bmach_scheme" and t u :: "'a bmach_scheme" and n i d
  show "bio_frame s s"
    by (rule bio_frame_refl)
  show "bio_frame s t \<Longrightarrow> bio_frame t u \<Longrightarrow> bio_frame s u"
    by (rule bio_frame_trans)
  show "bio_frame s t \<Longrightarrow> disksize t = disksize s"
    by (auto elim: bio_frameE)
  show "bio_inv s \<Longrightarrow> length (st_view (cache_abs s) n) = BSIZE"
    unfolding cache_abs_def by (simp add: length_blk [OF bio_inv_ok(1), simplified])
  assume inv: "bio_inv s"
  show "\<exists>i s'. bread 1 n s = Ret i s' \<and> bio_inv s' \<and> bio_frame s s' \<and> st_hold (cache_abs s) i = None \<and>
      cache_abs s' = spec_read n i (cache_abs s)"
    if "n < disksize s" "n \<notin> ran (st_hold (cache_abs s))" "n \<in> st_pins (cache_abs s) \<or> st_used (cache_abs s) < NBUF"
    using bread_spec [OF inv that(1)] that(2,3) by (simp add: cache_abs_def)
  show "st_view (cache_abs s) n = st_disk (cache_abs s) n"
    if nh: "n \<notin> ran (st_hold (cache_abs s))" and np: "n \<notin> st_pins (cache_abs s)"
  proof -
    have "blk s n = disk s n"
    proof (cases "\<exists>j < NBUF. caches 1 n (bufs s ! j) \<and> b_valid (bufs s ! j)")
      case True
      then obtain j where j: "j < NBUF" "caches 1 n (bufs s ! j)" "b_valid (bufs s ! j)"
        by blast
      have "\<not> b_dirty (bufs s ! j)"
        using j np by (auto simp: cache_abs_def pinned_def)
      moreover have "held s j \<noteq> Some n"
        using nh by (auto simp: cache_abs_def ran_def)
      then have "\<not> b_busy (bufs s ! j)"
        using j by (auto simp: held_def caches_def)
      ultimately have "\<not> b_dirty (bufs s ! j)" "\<not> b_busy (bufs s ! j)"
        by auto
      then show ?thesis
        using cache_okD(3) [OF bio_inv_ok(1) [OF inv] j(1)] j blk_cached [OF bio_inv_ok(1) [OF inv] j]
        by (simp add: buf_ok_def caches_def)
    qed (auto intro!: blk_uncached)
    then show ?thesis
      by (simp add: cache_abs_def)
  qed
  assume "st_hold (cache_abs s) i = Some n"
  then have h: "held s i = Some n"
    by (simp add: cache_abs_def)
  show "b_data (bufs s ! i) = st_view (cache_abs s) n"
    using held_SomeD(8) [OF inv h] by (simp add: cache_abs_def)
  show "\<exists>s'. set_data i d s = Ret () s' \<and> bio_inv s' \<and> bio_frame s s' \<and> cache_abs s' = spec_edit n d (cache_abs s)"
    if "length d = BSIZE"
    using edited_spec [OF inv h that] bio_frame_effects(2) [of s i d]
    by (simp add: set_data_run cache_abs_def spec_edit_def)
  show "\<exists>s'. set_dirty i s = Ret () s' \<and> bio_inv s' \<and> bio_frame s s' \<and> cache_abs s' = spec_pin n (cache_abs s)"
    using bio_pinned_spec [OF inv h] bio_frame_effects(5) [of s]
    by (simp add: set_dirty_def run_simps bio_pinned_def cache_abs_def spec_pin_def)
  show "\<exists>s'. bwrite i s = Ret () s' \<and> bio_inv s' \<and> bio_frame s s' \<and> cache_abs s' = spec_write n (cache_abs s)"
    using flushed_spec [OF inv h] bio_frame_effects(3) [of s i] bwrite_run [OF inv h]
    by (simp add: cache_abs_def spec_write_def)
  show "\<exists>s'. brelse i s = Ret () s' \<and> bio_inv s' \<and> bio_frame s s' \<and> cache_abs s' = spec_release i n (cache_abs s)"
    if "n \<in> st_pins (cache_abs s) \<or> st_view (cache_abs s) n = st_disk (cache_abs s) n"
    using brelse_spec [OF inv h] that bio_frame_effects(4) [of s i] by (simp add: cache_abs_def)
qed

section \<open>Initialization\<close>

definition flags :: "buf \<Rightarrow> bool \<times> bool \<times> bool \<times> u8 list" where
  "flags b = (b_busy b, b_valid b, b_dirty b, b_data b)"

lemma flags_upd [simp]:
  "map flags (set_next k v bs) = map flags bs" "map flags (set_prev k v bs) = map flags bs"
  "map flags (bs[k := (bs ! k)\<lparr>b_dev := d\<rparr>]) = map flags bs"
  by (cases "k < length bs"; simp add: map_update list_update_beyond flags_def list_update_same_conv
      set_next_def set_prev_def)+

lemma dev_upd [simp]:
  "j < length bs \<Longrightarrow> b_dev (set_next k v bs ! j) = b_dev (bs ! j)"
  "j < length bs \<Longrightarrow> b_dev (set_prev k v bs ! j) = b_dev (bs ! j)"
  by (simp_all add: set_next_def set_prev_def nth_update_at)

lemma binit_step:
  assumes c: "chain (nexts bs) (prevs bs) xs" and l: "length bs = Suc NBUF" and xs: "set xs \<subseteq> {..<NBUF}"
    and b: "b < NBUF" "b \<notin> set xs" and "first = b_next (bs ! HEAD)"
    and bf: "bf = set_next HEAD b (set_prev first b ((set_prev b HEAD (set_next b first bs))
      [b := (set_prev b HEAD (set_next b first bs) ! b)\<lparr>b_dev := - 1\<rparr>]))"
  shows "chain (nexts bf) (prevs bf) (b # xs)" "length bf = Suc NBUF" "map flags bf = map flags bs"
    "j < NBUF \<Longrightarrow> b_dev (bf ! j) = (if j = b then - 1 else b_dev (bs ! j))"
proof -
  have first: "first = nexts bs HEAD"
    using assms(6) by (simp add: nexts_def)
  have bx: "b \<notin> set (HEAD # xs)"
    using b by (simp add: HEAD_def)
  note lk = chain_link [OF c bx]
  have fl: "first < Suc NBUF"
    using lk(2) xs unfolding first by (auto simp: HEAD_def)
  show "length bf = Suc NBUF" "map flags bf = map flags bs"
    using l by (simp_all add: bf)
  show "b_dev (bf ! j) = (if j = b then - 1 else b_dev (bs ! j))" if "j < NBUF"
    using that l b by (simp add: bf nth_list_update)
  define bs1 where "bs1 = set_prev b HEAD (set_next b first bs)"
  define bs2 where "bs2 = bs1[b := (bs1 ! b)\<lparr>b_dev := - 1\<rparr>]"
  have "nexts bs2 = nexts bs1" "prevs bs2 = prevs bs1" "length bs2 = length bs1"
    unfolding bs2_def by (simp_all add: links_same)
  moreover have "nexts bs1 = (nexts bs)(b := first)" "prevs bs1 = (prevs bs)(b := HEAD)" "length bs1 = Suc NBUF"
    using l b unfolding bs1_def by simp_all
  moreover have "bf = set_next HEAD b (set_prev first b bs2)"
    by (simp only: bf bs1_def bs2_def)
  ultimately have "nexts bf = (nexts bs)(b := first, HEAD := b)" "prevs bf = (prevs bs)(b := HEAD, first := b)"
    using fl by (simp_all add: HEAD_def)
  then show "chain (nexts bf) (prevs bf) (b # xs)"
    using lk(1) unfolding first by simp
qed

lemma binit_loop_run:
  assumes "chain (nexts (bufs s)) (prevs (bufs s)) xs" and "length (bufs s) = Suc NBUF" and "set xs \<subseteq> {..<NBUF}"
    and "distinct bs" and "set bs \<subseteq> {..<NBUF}" and "set bs \<inter> set xs = {}"
  shows "\<exists>bf. binit_loop bs s = Ret () (s\<lparr>bufs := bf\<rparr>) \<and> chain (nexts bf) (prevs bf) (rev bs @ xs) \<and>
    length bf = Suc NBUF \<and> map flags bf = map flags (bufs s) \<and>
    (\<forall>j < NBUF. b_dev (bf ! j) = (if j \<in> set bs then - 1 else b_dev (bufs s ! j)))"
  using assms
proof (induction bs arbitrary: s xs)
  case Nil
  then show ?case
    by (intro exI [of _ "bufs s"]) (simp add: run_simps)
next
  case (Cons b bs)
  define first where "first = b_next (bufs s ! HEAD)"
  define bf where "bf = set_next HEAD b (set_prev first b ((set_prev b HEAD (set_next b first (bufs s)))
      [b := (set_prev b HEAD (set_next b first (bufs s)) ! b)\<lparr>b_dev := - 1\<rparr>]))"
  have b: "b < NBUF" "b \<notin> set xs" "b \<notin> set bs"
    using Cons.prems(4-6) by auto
  note st = binit_step [OF Cons.prems(1-3) b(1,2) first_def bf_def]
  have run: "binit_loop (b # bs) s = binit_loop bs (s\<lparr>bufs := bf\<rparr>)"
    by (simp add: run_simps bf_def first_def set_next_def set_prev_def)
  obtain bf' where bf': "binit_loop bs (s\<lparr>bufs := bf\<rparr>) = Ret () (s\<lparr>bufs := bf\<rparr>\<lparr>bufs := bf'\<rparr>)"
    "chain (nexts bf') (prevs bf') (rev bs @ b # xs)" "length bf' = Suc NBUF" "map flags bf' = map flags bf"
    "\<forall>j < NBUF. b_dev (bf' ! j) = (if j \<in> set bs then - 1 else b_dev (bf ! j))"
    using Cons.IH [of "s\<lparr>bufs := bf\<rparr>" "b # xs"] st(1,2) Cons.prems(3-6) b by auto
  have "\<forall>j < NBUF. b_dev (bf' ! j) = (if j \<in> set (b # bs) then - 1 else b_dev (bufs s ! j))"
    using bf'(5) st(4) b(3) by auto
  then show ?case
    using bf'(1-4) st(3) run by (intro exI [of _ bf']) simp
qed

text \<open>At boot the cache is all zeroes.\<close>

definition boot_cache :: "buf list \<Rightarrow> bool" where
  "boot_cache bs \<longleftrightarrow> length bs = Suc NBUF \<and>
     (\<forall>b \<in> set bs. \<not> b_busy b \<and> \<not> b_valid b \<and> \<not> b_dirty b \<and> length (b_data b) = BSIZE)"

lemma binit_run:
  assumes "boot_cache (bufs s)" and d: "\<And>n. length (disk s n) = BSIZE"
  shows "\<exists>bf. binit s = Ret () (s\<lparr>locks := (locks s)(BcacheLock := unlocked), bufs := bf\<rparr>) \<and>
    ring bf (rev [0..<NBUF]) \<and> cache_ok (s\<lparr>bufs := bf\<rparr>) \<and> (\<forall>b \<in> set bf. \<not> b_busy b \<and> \<not> b_dirty b) \<and>
    (\<forall>j < NBUF. b_dev (bf ! j) = - 1)"
proof -
  define b0 where "b0 = set_next HEAD HEAD (set_prev HEAD HEAD (bufs s))"
  let ?s = "s\<lparr>locks := (locks s)(BcacheLock := unlocked), bufs := b0\<rparr>"
  have l: "length b0 = Suc NBUF"
    using assms(1) by (simp add: b0_def boot_cache_def)
  then have "chain (nexts b0) (prevs b0) []"
    by (simp add: chain_def b0_def HEAD_def)
  then obtain bf where bf: "binit_loop [0..<NBUF] ?s = Ret () (?s\<lparr>bufs := bf\<rparr>)" "chain (nexts bf) (prevs bf) (rev [0..<NBUF])"
    "length bf = Suc NBUF" "map flags bf = map flags b0"
    "\<forall>j < NBUF. b_dev (bf ! j) = - 1"
    using binit_loop_run [of ?s "[]" "[0..<NBUF]"] l by (auto simp: atLeast0LessThan simp del: upt_rec_numeral)
  have run: "binit s = Ret () (s\<lparr>locks := (locks s)(BcacheLock := unlocked), bufs := bf\<rparr>)"
    using bf(1) by (simp add: binit_def initlock_def set_lock_def unlocked_def run_simps b0_def set_next_def set_prev_def
        del: upt_rec_numeral)
  have r: "ring bf (rev [0..<NBUF])"
    using bf(2,3) by (auto simp: ring_chain simp del: upt_rec_numeral)
  have m: "map flags bf = map flags (bufs s)"
    using bf(4) by (simp add: b0_def)
  have fl: "\<not> b_busy b \<and> \<not> b_valid b \<and> \<not> b_dirty b \<and> length (b_data b) = BSIZE" if "b \<in> set bf" for b
  proof -
    have "flags b \<in> flags ` set (bufs s)"
      using that m by (metis image_eqI list.set_map)
    then obtain b' where "b' \<in> set (bufs s)" "flags b = flags b'"
      by blast
    then show ?thesis
      using assms(1) by (simp add: boot_cache_def flags_def)
  qed
  have "cache_ok (s\<lparr>bufs := bf\<rparr>)"
    unfolding cache_ok_def buf_ok_def caches_def
    using r bf(3,5) d fl [OF nth_mem] by auto
  then show ?thesis
    using run r fl bf(5) by blast
qed

section \<open>Properties\<close>

definition demo_bmach :: bmach where
  "demo_bmach = pmach.extend demo_pmach \<lparr>disksize = 1000, disk = (\<lambda>n. replicate 512 (ucast n)), dwrites = [],
     bufs = replicate 31 \<lparr>b_busy = False, b_valid = False, b_dirty = False, b_dev = 0, b_blockno = 0, b_prev = 0,
       b_next = 0, b_data = replicate 512 0\<rparr>\<rparr>"

lemma demo_bmach_sel [simp]:
  "disksize demo_bmach = 1000" "disk demo_bmach n = replicate 512 (ucast n)" "boot_cache (bufs demo_bmach)"
  "locks demo_bmach l = locks demo_pmach l" "mycpu demo_bmach = mycpu demo_pmach"
  by (simp_all add: demo_bmach_def pmach.defs boot_cache_def)

text \<open>
  \<open>binit\<close> turns the zeroed buffer cache into a well-formed one: the linked list holds the \<open>NBUF\<close> buffers, the
  last one in front, no block has two buffers, and none of them is in use.
\<close>

theorem binit_establishes_cache:
  assumes "boot_cache (bufs s)" and "\<And>n. length (disk s n) = BSIZE"
  shows "\<exists>s'. binit s = Ret () s' \<and> cache_ok s' \<and> ring (bufs s') (rev [0..<NBUF]) \<and> held s' = (\<lambda>_. None) \<and> pinned s' = {}"
proof -
  obtain bf where bf: "binit s = Ret () (s\<lparr>locks := (locks s)(BcacheLock := unlocked), bufs := bf\<rparr>)"
    "ring bf (rev [0..<NBUF])" "cache_ok (s\<lparr>bufs := bf\<rparr>)" "\<forall>b \<in> set bf. \<not> b_busy b \<and> \<not> b_dirty b"
    using binit_run [OF assms] by blast
  then have "cache_ok (s\<lparr>locks := (locks s)(BcacheLock := unlocked), bufs := bf\<rparr>)"
    by (simp add: cache_ok_def)
  moreover have "\<not> b_busy (bf ! i)" "\<not> b_dirty (bf ! i)" if "i < NBUF" for i
    using bf(2,4) that by (simp_all add: ring_def)
  ultimately show ?thesis
    using bf(1,2) by (auto simp: held_def pinned_def simp del: upt_rec_numeral)
qed

theorem binit_establishes_cache_witness:
  "\<exists>s'. binit demo_bmach = Ret () s' \<and> cache_ok s' \<and> ring (bufs s') (rev [0..<NBUF]) \<and> held s' = (\<lambda>_. None) \<and> pinned s' = {}"
  by (rule binit_establishes_cache) simp_all

text \<open>A cache in working order, to apply the properties to.\<close>

definition demo_cache :: bmach where
  "demo_cache = (case binit demo_bmach of Ret _ s \<Rightarrow> s | _ \<Rightarrow> demo_bmach)"

lemma demo_cache_ok: "bio_inv demo_cache" "disksize demo_cache = 1000" "disk demo_cache n = replicate 512 (ucast n)"
  "held demo_cache = (\<lambda>_. None)" "pinned demo_cache = {}" "in_use demo_cache = {}" "ring (bufs demo_cache) (rev [0..<NBUF])"
  "i < NBUF \<Longrightarrow> recyclable (bufs demo_cache ! i) \<and> b_dev (bufs demo_cache ! i) = - 1" "locks demo_cache l = unlocked"
proof -
  obtain bf where bf: "binit demo_bmach = Ret () (demo_bmach\<lparr>locks := (locks demo_bmach)(BcacheLock := unlocked), bufs := bf\<rparr>)"
    "ring bf (rev [0..<NBUF])" "cache_ok (demo_bmach\<lparr>bufs := bf\<rparr>)" "\<forall>b \<in> set bf. \<not> b_busy b \<and> \<not> b_dirty b"
    "\<forall>j < NBUF. b_dev (bf ! j) = - 1"
    using binit_run [of demo_bmach] by auto
  then have d: "demo_cache = demo_bmach\<lparr>locks := (locks demo_bmach)(BcacheLock := unlocked), bufs := bf\<rparr>"
    by (simp add: demo_cache_def)
  have q: "\<not> b_busy (bf ! i)" "\<not> b_dirty (bf ! i)" if "i < NBUF" for i
    using bf(2,4) that by (simp_all add: ring_def)
  show "disksize demo_cache = 1000" "disk demo_cache n = replicate 512 (ucast n)"
    by (simp_all add: d)
  show "locks demo_cache l = unlocked"
    by (simp add: d demo_bmach_def pmach.defs demo_pmach_def)
  show "held demo_cache = (\<lambda>_. None)" "pinned demo_cache = {}" "in_use demo_cache = {}"
    using q by (auto simp: d held_def pinned_def in_use_def)
  show "i < NBUF \<Longrightarrow> recyclable (bufs demo_cache ! i) \<and> b_dev (bufs demo_cache ! i) = - 1"
    using q bf(5) by (simp add: d recyclable_def)
  show "ring (bufs demo_cache) (rev [0..<NBUF])"
    using bf(2) by (simp add: d del: upt_rec_numeral)
  have "cache_ok demo_cache"
    using bf(3) by (simp add: d cache_ok_def)
  moreover have "calm BcacheLock demo_cache" "calm PtableLock demo_cache"
    using demo_calm(1) by (simp_all add: d calm_def)
  ultimately show "bio_inv demo_cache"
    using q by (simp add: bio_inv_def d)
qed

text \<open>
  C21: \<open>bread\<close> returns a locked buffer with the current contents of the block, the latest in the cache or else
  the disk's, whether the block was cached or a buffer had to be recycled for it; the contents of every block
  and the set of pinned blocks stay, nothing is written to the disk, and the cache stays well-formed.
\<close>

theorem bread_reads_current:
  assumes "bio_inv s" and "n < disksize s" and "n \<notin> ran (held s)" and "n \<in> pinned s \<or> card (in_use s) < NBUF"
  shows "\<exists>i s'. bread 1 n s = Ret i s' \<and> held s i = None \<and> held s' = (held s)(i \<mapsto> n) \<and> b_data (bufs s' ! i) = blk s n \<and>
    blk s' = blk s \<and> pinned s' = pinned s \<and> disk s' = disk s \<and> dwrites s' = dwrites s \<and> bio_inv s'"
proof -
  obtain i s' where 1: "bread 1 n s = Ret i s'" "bio_inv s'" "held s i = None" "cache_abs s' = spec_read n i (cache_abs s)"
    using bread_spec [OF assms] by blast
  then have eq: "held s' = (held s)(i \<mapsto> n)" "blk s' = blk s" "pinned s' = pinned s" "disk s' = disk s" "dwrites s' = dwrites s"
    by (simp_all add: cache_abs_def spec_read_def)
  have "b_data (bufs s' ! i) = blk s n"
    using held_SomeD(8) [OF 1(2), of i n] eq by simp
  then show ?thesis
    using 1 eq by blast
qed

theorem bread_reads_current_witness:
  "\<exists>i s'. bread 1 7 demo_cache = Ret i s' \<and> b_data (bufs s' ! i) = replicate 512 7 \<and> held s' i = Some 7"
proof -
  have "blk demo_cache 7 = replicate 512 7"
    using bc.coherent [OF demo_cache_ok(1), of 7] by (simp add: cache_abs_def demo_cache_ok)
  then show ?thesis
    using bread_reads_current [of demo_cache 7] by (auto simp: demo_cache_ok)
qed

text \<open>
  C22: Round trip: after a block has been read, overwritten in its buffer, written with \<open>bwrite\<close> and released, the disk
  holds the new data and \<open>bread\<close> returns it; every other block is as before, in the cache and on the disk.
\<close>

theorem bwrite_bread:
  assumes "bio_inv s" and "n < disksize s" and "n \<notin> ran (held s)" and "n \<in> pinned s \<or> card (in_use s) < NBUF"
    and "length d = BSIZE"
  shows "\<exists>s' i s''. bind (bread 1 n) (\<lambda>i. seq (set_data i d) (seq (bwrite i) (brelse i))) s = Ret () s' \<and>
    disk s' = (disk s)(n := d) \<and> blk s' = (blk s)(n := d) \<and> bread 1 n s' = Ret i s'' \<and> b_data (bufs s'' ! i) = d"
proof -
  obtain s' where 1: "bind (bread 1 n) (\<lambda>i. bind (gets (\<lambda>s. d)) (\<lambda>d. seq (set_data i d) (seq (bwrite i) (brelse i)))) s = Ret () s'"
    "bio_inv s'" "bio_frame s s'" "cache_abs s' = spec_rewrite n d (cache_abs s)"
    using bc.update_block [of s n "\<lambda>_. d"] assms by (auto simp: cache_abs_def)
  have run: "bind (bread 1 n) (\<lambda>i. seq (set_data i d) (seq (bwrite i) (brelse i))) s = Ret () s'"
    using 1(1) by (simp add: bind_run gets_run split: outcome.splits)
  have eq: "disk s' = (disk s)(n := d)" "blk s' = (blk s)(n := d)" "held s' = held s" "card (in_use s') \<le> card (in_use s)"
    "n \<in> pinned s \<Longrightarrow> card (in_use s') = card (in_use s) - 1"
    using 1(4) by (simp_all add: cache_abs_def spec_rewrite_def split: if_splits)
  have "disksize s' = disksize s"
    by (rule bc.frame_cap [OF 1(3)])
  moreover have "card (in_use s') < NBUF"
  proof (cases "n \<in> pinned s")
    case True
    have "card (in_use s) \<le> NBUF"
      using card_mono [of "{..<NBUF}" "in_use s"] by (auto simp: in_use_def)
    then show ?thesis
      using eq(5) [OF True] by simp
  next
    case False
    then show ?thesis
      using assms(4) eq(4) by simp
  qed
  ultimately obtain i s'' where 2: "bread 1 n s' = Ret i s''" "bio_inv s''" "held s' i = None"
    "cache_abs s'' = spec_read n i (cache_abs s')"
    using bread_spec [OF 1(2), of n] assms(2,3) eq(3) by auto
  then have "held s'' i = Some n" "blk s'' n = d"
    using eq(2) by (simp_all add: cache_abs_def spec_read_def)
  then have "b_data (bufs s'' ! i) = d"
    using held_SomeD(8) [OF 2(2)] by simp
  then show ?thesis
    using run eq 2(1) by blast
qed

theorem bwrite_bread_witness:
  "\<exists>s' i s''. bind (bread 1 7) (\<lambda>i. seq (set_data i (replicate 512 1)) (seq (bwrite i) (brelse i))) demo_cache = Ret () s' \<and>
    disk s' 7 = replicate 512 1 \<and> bread 1 7 s' = Ret i s'' \<and> b_data (bufs s'' ! i) = replicate 512 1"
  using bwrite_bread [of demo_cache 7 "replicate 512 1"] by (auto simp: demo_cache_ok)

text \<open>
  C23: Refinement of the linked list: if the list of the cache is \<open>us\<close>, then \<open>b\<close>, then \<open>vs\<close>, releasing the
  locked buffer \<open>b\<close> leaves the list \<open>b\<close>, \<open>us\<close>, \<open>vs\<close>: the six pointer assignments move the buffer to the front.
\<close>

theorem brelse_moves_to_front:
  assumes "bio_inv s" and "held s b = Some n" and "ring (bufs s) (us @ b # vs)"
  shows "\<exists>s'. brelse b s = Ret () s' \<and> ring (bufs s') (b # us @ vs) \<and> held s' = (held s)(b := None)"
proof -
  have "ring (bufs (unheld b s)) (b # us @ vs)"
    by (rule ring_upd [OF ring_to_front [OF assms(3)]]) (simp_all add: links_same)
  moreover have "held (unheld b s) = (held s)(b := None)"
    using sets_same(1) [OF bio_inv_ok(1) [OF assms(1)] same_effects(3) [OF assms(1,2)]]
      held_SomeD(1) [OF assms(1,2)] bio_inv_ok(2) [OF assms(1)] by simp
  ultimately show ?thesis
    using brelse_run [OF assms(1,2)] by blast
qed

theorem brelse_moves_to_front_witness:
  "\<exists>b s us vs s'. bread 1 7 demo_cache = Ret b s \<and> ring (bufs s) (us @ b # vs) \<and> brelse b s = Ret () s' \<and>
    ring (bufs s') (b # us @ vs)"
proof -
  obtain b s where 1: "bread 1 7 demo_cache = Ret b s" "bio_inv s" "held demo_cache b = None"
    "cache_abs s = spec_read 7 b (cache_abs demo_cache)"
    using bread_spec [OF demo_cache_ok(1), of 7] by (auto simp: demo_cache_ok)
  then have h: "held s b = Some 7"
    by (simp add: cache_abs_def spec_read_def)
  obtain xs where xs: "ring (bufs s) xs"
    using bio_inv_ok(1) [OF 1(2)] by (auto simp: cache_ok_def)
  then obtain us vs where "xs = us @ b # vs"
    using held_SomeD(1) [OF 1(2) h] split_list [of b xs] by (auto simp: ring_def)
  then show ?thesis
    using 1(1) xs brelse_moves_to_front [OF 1(2) h, of us vs] by blast
qed

text \<open>
  C24: Replacement policy: for a block that is not cached, \<open>bget\<close> takes the least recently used buffer that is neither
  busy nor dirty (the last such one of the list), binds it to the block and marks it invalid; if there is
  none it panics.
\<close>

theorem bget_recycles_lru:
  assumes "cache_ok s" and "calm BcacheLock s" and "\<And>i. i < NBUF \<Longrightarrow> \<not> caches dev n (bufs s ! i)" and "ring (bufs s) xs"
  shows "bget dev n s = (case find (\<lambda>i. recyclable (bufs s ! i)) (rev xs) of
      None \<Rightarrow> Panic ''bget: no buffers''
    | Some i \<Rightarrow> Ret i (settled (s\<lparr>bufs := (bufs s)[i := (bufs s ! i)\<lparr>b_dev := dev, b_blockno := n, b_busy := True,
        b_valid := False, b_dirty := False\<rparr>]\<rparr>)))"
  by (rule bget_fresh [OF assms])

theorem bget_recycles_lru_witness: "\<exists>s'. bget 1 7 demo_cache = Ret 0 s' \<and> held s' 0 = Some 7"
proof -
  have "find (\<lambda>i. recyclable (bufs demo_cache ! i)) [0..<NBUF] = Some 0"
    using demo_cache_ok(8) [of 0] by (simp add: upt_conv_Cons)
  moreover have "calm BcacheLock demo_cache" "length (bufs demo_cache) = 31"
    using demo_cache_ok(1) bio_inv_ok(2) [OF demo_cache_ok(1)] by (simp_all add: bio_inv_def)
  ultimately show ?thesis
    using bget_recycles_lru [OF bio_inv_ok(1) [OF demo_cache_ok(1)] _ _ demo_cache_ok(7), of 1 7] demo_cache_ok(8)
    by (simp add: caches_def held_def del: upt_rec_numeral)
qed

end
