(* ===== verification/Log.thy ===== *)
theory Log
  imports Bio
begin

text \<open>
  The write-ahead log (\<open>src/log.c\<close>, and \<open>readsb\<close> of \<open>src/fs.c\<close>, which \<open>initlog\<close> calls). System calls bracket their
  block updates with \<open>begin_op\<close> and \<open>end_op\<close>; \<open>log_write\<close> only records and pins a block, and the last
  \<open>end_op\<close> commits: copy the blocks to the log, write the header, copy the blocks home, clear the header. The main
  theorem is crash safety: whatever prefix of the disk writes of a commit reaches the disk, recovery
  leaves either all or none of the transaction's blocks updated.
\<close>

section \<open>State\<close>

record lmach = bmach +
  log_start :: u32
  log_size :: u32
  log_outstanding :: int
  log_committing :: bool
  log_dev :: u32
  lh_n :: int
  lh_block :: "u32 list"

text \<open>
  The header block: the number of logged blocks, then their block numbers. \<open>hd_encode\<close> stores the in-memory header over the
  old contents of the block, one word at a time; \<open>lh_block\<close> has \<open>LOGSIZE\<close> entries.
\<close>

definition hd_encode :: "int \<Rightarrow> u32 list \<Rightarrow> u8 list \<Rightarrow> u8 list" where
  "hd_encode n bs d =
     fold (\<lambda>i d. overlay d (4 + 4 * i) (le32 (bs ! i))) [0..<nat n] (overlay d 0 (le32 (word_of_int n)))"

definition hd_count :: "u8 list \<Rightarrow> int" where
  "hd_count d = sint (get32 d 0)"

definition hd_blocks :: "nat \<Rightarrow> u8 list \<Rightarrow> u32 list" where
  "hd_blocks n d = map (\<lambda>i. get32 d (4 + 4 * i)) [0..<n]"

definition SIZEOF_LOGHEADER :: nat where "SIZEOF_LOGHEADER = 4 + 4 * LOGSIZE"

section \<open>Operations\<close>

definition readsb :: "u32 \<Rightarrow> ('a bmach_scheme, superblock) op" where
  "readsb dev =
     bind (bread dev 1) (\<lambda>bp.
     bind (gets (\<lambda>s. b_data (bufs s ! bp))) (\<lambda>d.
     seq (brelse bp)
         (ret \<lparr>sb_size = get32 d 0, sb_nblocks = get32 d 4, sb_ninodes = get32 d 8, sb_nlog = get32 d 12,
               sb_logstart = get32 d 16, sb_inodestart = get32 d 20, sb_bmapstart = get32 d 24\<rparr>)))"

definition install_trans :: "('a lmach_scheme, unit) op" where
  "install_trans =
     bind (gets (\<lambda>s. s)) (\<lambda>g.
     forM [0..<nat (lh_n g)] (\<lambda>tail.
       bind (bread (log_dev g) (log_start g + of_nat tail + 1)) (\<lambda>lbuf.
       bind (bread (log_dev g) (lh_block g ! tail)) (\<lambda>dbuf.
       bind (gets (\<lambda>s. b_data (bufs s ! lbuf))) (\<lambda>d.
       seq (set_data dbuf d)
      (seq (bwrite dbuf)
      (seq (brelse lbuf)
           (brelse dbuf))))))))"

text \<open>A count beyond \<open>LOGSIZE\<close> would overrun the in-memory array; a negative one copies nothing.\<close>

definition read_head :: "('a lmach_scheme, unit) op" where
  "read_head =
     bind (gets (\<lambda>s. s)) (\<lambda>g.
     bind (bread (log_dev g) (log_start g)) (\<lambda>b.
     bind (gets (\<lambda>s. b_data (bufs s ! b))) (\<lambda>d.
     seq (modify (\<lambda>s. s\<lparr>lh_n := hd_count d\<rparr>))
    (if hd_count d > int LOGSIZE then fault
     else
     seq (modify (\<lambda>s. s\<lparr>lh_block := overlay (lh_block s) 0 (hd_blocks (nat (hd_count d)) d)\<rparr>))
         (brelse b)))))"

definition write_head :: "('a lmach_scheme, unit) op" where
  "write_head =
     bind (gets (\<lambda>s. s)) (\<lambda>g.
     bind (bread (log_dev g) (log_start g)) (\<lambda>b.
     bind (gets (\<lambda>s. b_data (bufs s ! b))) (\<lambda>d.
     seq (set_data b (hd_encode (lh_n g) (lh_block g) d))
    (seq (bwrite b)
         (brelse b)))))"

definition recover_from_log :: "('a lmach_scheme, unit) op" where
  "recover_from_log =
     seq read_head
    (seq install_trans
    (seq (modify (\<lambda>s. s\<lparr>lh_n := 0\<rparr>))
         write_head))"

definition initlog :: "u32 \<Rightarrow> ('a lmach_scheme, unit) op" where
  "initlog dev =
     (if SIZEOF_LOGHEADER \<ge> BSIZE then panic ''initlog: too big logheader''
      else
      seq (initlock LogLock)
     (bind (readsb dev) (\<lambda>sb.
      seq (modify (\<lambda>s. s\<lparr>log_start := sb_logstart sb, log_size := sb_nlog sb, log_dev := dev\<rparr>))
          recover_from_log)))"

text \<open>
  The body of the loop of \<open>begin_op\<close>, entered with \<open>log.lock\<close> held. A process that has to wait sleeps and, when it
  runs again, starts the loop over.
\<close>

definition begin_op_loop :: "('a lmach_scheme, unit) op" where
  "begin_op_loop =
     bind (gets (\<lambda>s. s)) (\<lambda>g.
     if log_committing g then seq (sleep LogChan LogLock) swtch
     else if lh_n g + (log_outstanding g + 1) * int MAXOPBLOCKS > int LOGSIZE then seq (sleep LogChan LogLock) swtch
     else seq (modify (\<lambda>s. s\<lparr>log_outstanding := log_outstanding s + 1\<rparr>))
              (release LogLock))"

definition begin_op :: "('a lmach_scheme, unit) op" where
  "begin_op = seq (acquire LogLock) begin_op_loop"

definition write_log :: "('a lmach_scheme, unit) op" where
  "write_log =
     bind (gets (\<lambda>s. s)) (\<lambda>g.
     forM [0..<nat (lh_n g)] (\<lambda>tail.
       bind (bread (log_dev g) (log_start g + of_nat tail + 1)) (\<lambda>to.
       bind (bread (log_dev g) (lh_block g ! tail)) (\<lambda>from.
       bind (gets (\<lambda>s. b_data (bufs s ! from))) (\<lambda>d.
       seq (set_data to d)
      (seq (bwrite to)
      (seq (brelse from)
           (brelse to))))))))"

definition commit :: "('a lmach_scheme, unit) op" where
  "commit =
     bind (gets lh_n) (\<lambda>n.
     whenM (n > 0)
       (seq write_log
       (seq write_head
       (seq install_trans
       (seq (modify (\<lambda>s. s\<lparr>lh_n := 0\<rparr>))
            write_head)))))"

definition end_op :: "('a lmach_scheme, unit) op" where
  "end_op =
     seq (acquire LogLock)
    (seq (modify (\<lambda>s. s\<lparr>log_outstanding := log_outstanding s - 1\<rparr>))
    (bind (gets (\<lambda>s. s)) (\<lambda>g.
     if log_committing g then panic ''log.committing''
     else
     seq (if log_outstanding g = 0 then modify (\<lambda>s. s\<lparr>log_committing := True\<rparr>)
          else wakeup LogChan)
    (seq (release LogLock)
         (whenM (log_outstanding g = 0)
           (seq commit
           (seq (acquire LogLock)
           (seq (modify (\<lambda>s. s\<lparr>log_committing := False\<rparr>))
           (seq (wakeup LogChan)
                (release LogLock))))))))))"

text \<open>The index of the first entry for the block, or \<open>n\<close>.\<close>

definition lh_index :: "int \<Rightarrow> u32 list \<Rightarrow> u32 \<Rightarrow> nat" where
  "lh_index n bs b = (case findi (\<lambda>x. x = b) (take (nat n) bs) of Some i \<Rightarrow> i | None \<Rightarrow> nat n)"

definition log_write :: "nat \<Rightarrow> ('a lmach_scheme, unit) op" where
  "log_write b =
     bind (gets (\<lambda>s. s)) (\<lambda>g.
     if lh_n g \<ge> int LOGSIZE \<or> lh_n g \<ge> sint (log_size g) - 1 then panic ''too big a transaction''
     else if log_outstanding g < 1 then panic ''log_write outside of trans''
     else
     seq (acquire LogLock)
    (bind (gets (\<lambda>s. lh_index (lh_n s) (lh_block s) (b_blockno (bufs s ! b)))) (\<lambda>i.
     seq (modify (\<lambda>s. s\<lparr>lh_block := (lh_block s)[i := b_blockno (bufs s ! b)]\<rparr>))
    (seq (modify (\<lambda>s. if int i = lh_n s then s\<lparr>lh_n := lh_n s + 1\<rparr> else s))
    (seq (set_dirty b)
         (release LogLock))))))"

section \<open>The header\<close>

lemma hd_encode_fold:
  assumes "4 + 4 * n \<le> length d" and "n \<le> length bs"
  shows "length (fold (\<lambda>i d. overlay d (4 + 4 * i) (le32 (bs ! i))) [0..<n] d) = length d \<and>
    get32 (fold (\<lambda>i d. overlay d (4 + 4 * i) (le32 (bs ! i))) [0..<n] d) 0 = get32 d 0 \<and>
    (\<forall>i < n. get32 (fold (\<lambda>i d. overlay d (4 + 4 * i) (le32 (bs ! i))) [0..<n] d) (4 + 4 * i) = bs ! i)"
  using assms
proof (induction n)
  case (Suc n)
  let ?e = "fold (\<lambda>i d. overlay d (4 + 4 * i) (le32 (bs ! i))) [0..<n] d"
  have IH: "length ?e = length d" "get32 ?e 0 = get32 d 0" "\<forall>i < n. get32 ?e (4 + 4 * i) = bs ! i"
    using Suc by auto
  have "get32 (overlay ?e (4 + 4 * n) (le32 (bs ! n))) (4 + 4 * i) = bs ! i" if "i < Suc n" for i
    using that IH Suc.prems by (cases "i = n") (simp_all add: get32_overlay get32_overlay_other)
  then show ?case
    using IH Suc.prems by (simp add: get32_overlay_other)
qed simp

lemma hd_encode_decode:
  assumes "length d = BSIZE" and "0 \<le> n" and "n \<le> int LOGSIZE" and "nat n \<le> length bs"
  shows "length (hd_encode n bs d) = BSIZE" "hd_count (hd_encode n bs d) = n"
    "hd_blocks (nat n) (hd_encode n bs d) = take (nat n) bs"
proof -
  let ?d = "overlay d 0 (le32 (word_of_int n))"
  have "4 + 4 * nat n \<le> length ?d"
    using assms by simp
  note f = hd_encode_fold [OF this assms(4)]
  show "length (hd_encode n bs d) = BSIZE"
    using f assms(1) by (simp add: hd_encode_def)
  have "sint (word_of_int n :: u32) = n"
    using assms(2,3) by (simp add: signed_of_int signed_take_bit_int_eq_self)
  then show "hd_count (hd_encode n bs d) = n"
    using f assms(1) by (simp add: hd_encode_def hd_count_def get32_overlay)
  show "hd_blocks (nat n) (hd_encode n bs d) = take (nat n) bs"
    by (rule nth_equalityI) (use f assms(4) in \<open>simp_all add: hd_encode_def hd_blocks_def\<close>)
qed

section \<open>The loops\<close>

lemma log_fields [simp]:
  "bio_inv (s\<lparr>lh_n := x\<rparr>) = bio_inv s" "bio_inv (s\<lparr>lh_block := y\<rparr>) = bio_inv s"
  "cache_abs (s\<lparr>lh_n := x\<rparr>) = cache_abs s" "cache_abs (s\<lparr>lh_block := y\<rparr>) = cache_abs s"
  by (simp_all add: bio_inv_def cache_ok_def calm_def cache_abs_def fun_eq_iff blk_def held_def pinned_def in_use_def
      split: option.split)

lemma bio_frame_log:
  assumes "bio_frame s (t :: 'a lmach_scheme)"
  shows "log_start t = log_start s" "log_size t = log_size s" "log_outstanding t = log_outstanding s"
    "log_committing t = log_committing s" "log_dev t = log_dev s" "lh_n t = lh_n s" "lh_block t = lh_block s"
  using assms by (auto elim: bio_frameE)

text \<open>
  The geometry that the loops need: the log is the \<open>size\<close> blocks from \<open>start\<close> on, all on the disk, the first of them
  the header; the logged blocks are fewer than that, distinct, on the disk and outside the log.
\<close>

definition in_log :: "u32 \<Rightarrow> u32 \<Rightarrow> u32 \<Rightarrow> bool" where
  "in_log start sz b \<longleftrightarrow> unat start \<le> unat b \<and> unat b < unat start + unat sz"

definition log_slot :: "u32 \<Rightarrow> nat \<Rightarrow> u32" where
  "log_slot start i = start + of_nat i + 1"

definition blocks_ok :: "u32 \<Rightarrow> u32 \<Rightarrow> u32 \<Rightarrow> u32 list \<Rightarrow> bool" where
  "blocks_ok start sz n bs \<longleftrightarrow> unat start + unat sz \<le> unat n \<and> length bs < unat sz \<and> length bs \<le> LOGSIZE \<and> distinct bs \<and>
     (\<forall>b \<in> set bs. b < n \<and> \<not> in_log start sz b)"

definition lh_blocks :: "'a lmach_scheme \<Rightarrow> u32 list" where
  "lh_blocks s = take (nat (lh_n s)) (lh_block s)"

definition log_ok :: "'a lmach_scheme \<Rightarrow> bool" where
  "log_ok s \<longleftrightarrow> bio_inv s \<and> held s = (\<lambda>_. None) \<and> log_dev s = 1 \<and> 0 \<le> lh_n s \<and> lh_n s \<le> int LOGSIZE \<and>
     length (lh_block s) = LOGSIZE \<and> blocks_ok (log_start s) (log_size s) (disksize s) (lh_blocks s)"

lemma unat_log_slot:
  assumes "unat start + unat (sz :: u32) \<le> unat (n :: u32)" and "Suc i < unat sz"
  shows "unat (log_slot start i) = unat start + i + 1" "log_slot start i < n" "in_log start sz (log_slot start i)"
    "log_slot start i \<noteq> start" "start < n" "in_log start sz start"
proof -
  have n: "unat n < 4294967296"
    by (rule unat32_less)
  have i: "unat (of_nat i :: u32) = i" "unat (start + of_nat i) = unat start + i"
    using assms n by (simp_all add: unat_of_nat take_bit_nat_eq_self unat_word_ariths)
  show u: "unat (log_slot start i) = unat start + i + 1"
    using assms n i unfolding log_slot_def by (simp add: unat_word_ariths(1) [of "start + of_nat i"])
  show "log_slot start i < n" "start < n" "log_slot start i \<noteq> start"
    using u assms by (auto simp: word_less_nat_alt)
  show "in_log start sz (log_slot start i)" "in_log start sz start"
    using u assms by (simp_all add: in_log_def)
qed

lemma log_slot_inj:
  "unat start + unat (sz :: u32) \<le> unat (n :: u32) \<Longrightarrow> Suc i < unat sz \<Longrightarrow> Suc j < unat sz \<Longrightarrow> log_slot start i = log_slot start j \<longleftrightarrow> i = j"
  using unat_log_slot(1) [of start sz n i] unat_log_slot(1) [of start sz n j] by (metis add_left_cancel add_right_cancel)

lemma log_okD:
  assumes "log_ok s"
  shows "bio_inv s" "held s = (\<lambda>_. None)" "log_dev s = 1" "length (lh_blocks s) = nat (lh_n s)" "nat (lh_n s) \<le> LOGSIZE"
    "unat (log_start s) + unat (log_size s) \<le> unat (disksize s)" "distinct (lh_blocks s)"
    "b \<in> set (lh_blocks s) \<Longrightarrow> b < disksize s \<and> \<not> in_log (log_start s) (log_size s) b"
    "i < nat (lh_n s) \<Longrightarrow> lh_block s ! i = lh_blocks s ! i" "i < nat (lh_n s) \<Longrightarrow> Suc i < unat (log_size s)"
  using assms by (auto simp: log_ok_def blocks_ok_def lh_blocks_def)

definition install_writes :: "u32 \<Rightarrow> u32 list \<Rightarrow> (u32 \<Rightarrow> u8 list) \<Rightarrow> (u32 \<times> u8 list) list" where
  "install_writes start bs f = map (\<lambda>i. (bs ! i, f (log_slot start i))) [0..<length bs]"

definition log_writes :: "u32 \<Rightarrow> u32 list \<Rightarrow> (u32 \<Rightarrow> u8 list) \<Rightarrow> (u32 \<times> u8 list) list" where
  "log_writes start bs f = map (\<lambda>i. (log_slot start i, f (bs ! i))) [0..<length bs]"

lemma upt_split: "[0..<n] = us @ t # vs \<Longrightarrow> us = [0..<t] \<and> t < n"
proof -
  assume e: "[0..<n] = us @ t # vs"
  have l: "length us < n"
    using arg_cong [OF e, of length] by simp
  have "t = [0..<n] ! length us"
    using e by simp
  then have t: "t = length us"
    using l by simp
  have "us = take (length us) [0..<n]"
    using e by simp
  then show ?thesis
    using l t by simp
qed

lemma install_trans_run:
  assumes ok: "log_ok s" and room: "card (in_use s) < NBUF"
    and room2: "\<And>b. b \<in> set (lh_blocks s) \<Longrightarrow> b \<in> pinned s \<or> Suc (card (in_use s)) < NBUF"
  shows "\<exists>s'. install_trans s = Ret () s' \<and> bio_inv s' \<and> bio_frame s s' \<and>
    cache_abs s' = run_writes (install_writes (log_start s) (lh_blocks s) (blk s)) (cache_abs s)"
proof -
  note l = log_okD [OF ok]
  let ?w = "\<lambda>i. (lh_blocks s ! i, blk s (log_slot (log_start s) i))"
  let ?body = "\<lambda>tail. bind (bread 1 (log_slot (log_start s) tail)) (\<lambda>lbuf. bind (bread 1 (lh_block s ! tail)) (\<lambda>dbuf.
       bind (gets (\<lambda>s. b_data (bufs s ! lbuf))) (\<lambda>d.
       seq (set_data dbuf d) (seq (bwrite dbuf) (seq (brelse lbuf) (brelse dbuf))))))"
  have "\<exists>s'. forM [0..<nat (lh_n s)] ?body s = Ret () s' \<and> bio_inv s' \<and> bio_frame s s' \<and>
      cache_abs s' = run_writes (map ?w [0..<nat (lh_n s)]) (cache_abs s)"
  proof (rule bc.forM_rewrite [OF l(1)])
    fix us t vs s'
    assume sp: "[0..<nat (lh_n s)] = us @ t # vs" and inv: "bio_inv s'" and fr: "bio_frame s s'"
      and abs: "cache_abs s' = run_writes (map ?w us) (cache_abs s)"
    have us: "us = [0..<t]" and t: "t < nat (lh_n s)"
      using upt_split [OF sp] by simp_all
    let ?a = "log_slot (log_start s) t" and ?b = "lh_blocks s ! t"
    have tb: "?b \<in> set (lh_blocks s)" "lh_block s ! t = ?b"
      using t l(4,9) by simp_all
    note sl = unat_log_slot [OF l(6) l(10) [OF t]]
    have a: "?a < disksize s" "in_log (log_start s) (log_size s) ?a" and b: "?b < disksize s" "\<not> in_log (log_start s) (log_size s) ?b"
      using sl l(8) [OF tb(1)] by auto
    have ds: "disksize s' = disksize s"
      by (rule bc.frame_cap [OF fr])
    have us_b: "fst ` set (map ?w us) = (\<lambda>i. lh_blocks s ! i) ` {..<t}"
      by (simp add: us image_image lessThan_atLeast0)
    have nl: "\<not> in_log (log_start s) (log_size s) (lh_blocks s ! i)" if "i < t" for i
      using l(8) [of "lh_blocks s ! i"] nth_mem [of i "lh_blocks s"] that t l(4) by simp
    have na: "?a \<notin> fst ` set (map ?w us)"
      unfolding us_b using nl a(2) by (metis imageE lessThan_iff)
    have va: "st_view (cache_abs s') ?a = blk s ?a"
      unfolding abs run_writes_sel apply_writes_other [OF na] by (simp add: cache_abs_def)
    have ne: "lh_blocks s ! i \<noteq> ?b" if "i < t" for i
      using l(4,7) t that by (simp add: nth_eq_iff_index_eq)
    have nb: "?b \<notin> fst ` set (map ?w us)"
      unfolding us_b using ne by (metis imageE lessThan_iff)
    have pb: "?b \<in> st_pins (cache_abs s') \<longleftrightarrow> ?b \<in> pinned s"
      unfolding abs run_writes_sel using nb by (simp add: cache_abs_def)
    have u: "st_used (cache_abs s') \<le> card (in_use s)"
      using run_writes_used [of "map ?w us" "cache_abs s"] unfolding abs by (simp add: cache_abs_def)
    have nh: "x \<notin> ran (st_hold (cache_abs s'))" for x
      unfolding abs run_writes_sel by (simp add: cache_abs_def l(2) ran_def)
    have r1: "?a \<in> st_pins (cache_abs s') \<or> st_used (cache_abs s') < NBUF"
      using u room by linarith
    have r2: "?b \<in> st_pins (cache_abs s') \<or> Suc (st_used (cache_abs s')) < NBUF"
      using u room2 [OF tb(1)] pb by linarith
    have "?a \<noteq> ?b"
      using a(2) b(2) by metis
    then have "\<exists>s''. ?body t s' = Ret () s'' \<and> bio_inv s'' \<and> bio_frame s' s'' \<and>
        cache_abs s'' = spec_rewrite ?b (st_view (cache_abs s') ?a) (cache_abs s')"
      unfolding tb(2) using a(1) b(1) r1 r2 unfolding ds [symmetric]
      by (intro bc.copy_block(1) [OF inv _ _ _ nh nh]) blast+
    then show "\<exists>s''. ?body t s' = Ret () s'' \<and> bio_inv s'' \<and> bio_frame s' s'' \<and>
        cache_abs s'' = spec_rewrite (fst (?w t)) (snd (?w t)) (cache_abs s')"
      using va by simp
  qed
  then show ?thesis
    by (simp add: install_trans_def bind_run gets_run l(3) log_slot_def install_writes_def l(4))
qed

lemma write_log_run:
  assumes ok: "log_ok s" and room: "card (in_use s) < NBUF" and pins: "set (lh_blocks s) \<subseteq> pinned s"
  shows "\<exists>s'. write_log s = Ret () s' \<and> bio_inv s' \<and> bio_frame s s' \<and>
    cache_abs s' = run_writes (log_writes (log_start s) (lh_blocks s) (blk s)) (cache_abs s)"
proof -
  note l = log_okD [OF ok]
  let ?w = "\<lambda>i. (log_slot (log_start s) i, blk s (lh_blocks s ! i))"
  let ?body = "\<lambda>tail. bind (bread 1 (log_slot (log_start s) tail)) (\<lambda>to. bind (bread 1 (lh_block s ! tail)) (\<lambda>from.
       bind (gets (\<lambda>s. b_data (bufs s ! from))) (\<lambda>d.
       seq (set_data to d) (seq (bwrite to) (seq (brelse from) (brelse to))))))"
  have "\<exists>s'. forM [0..<nat (lh_n s)] ?body s = Ret () s' \<and> bio_inv s' \<and> bio_frame s s' \<and>
      cache_abs s' = run_writes (map ?w [0..<nat (lh_n s)]) (cache_abs s)"
  proof (rule bc.forM_rewrite [OF l(1)])
    fix us t vs s'
    assume sp: "[0..<nat (lh_n s)] = us @ t # vs" and inv: "bio_inv s'" and fr: "bio_frame s s'"
      and abs: "cache_abs s' = run_writes (map ?w us) (cache_abs s)"
    have us: "us = [0..<t]" and t: "t < nat (lh_n s)"
      using upt_split [OF sp] by simp_all
    let ?a = "log_slot (log_start s) t" and ?b = "lh_blocks s ! t"
    have tb: "?b \<in> set (lh_blocks s)" "lh_block s ! t = ?b"
      using t l(4,9) by simp_all
    have a: "?a < disksize s" "in_log (log_start s) (log_size s) ?a" and b: "?b < disksize s" "\<not> in_log (log_start s) (log_size s) ?b"
      using unat_log_slot [OF l(6) l(10) [OF t]] l(8) [OF tb(1)] by auto
    have ds: "disksize s' = disksize s"
      by (rule bc.frame_cap [OF fr])
    have "in_log (log_start s) (log_size s) (log_slot (log_start s) i)" if "i < t" for i
      using unat_log_slot(3) [OF l(6) l(10), of i] that t by simp
    then have nb: "?b \<notin> fst ` set (map ?w us)"
      using b(2) by (force simp: us)
    have vb: "st_view (cache_abs s') ?b = blk s ?b"
      unfolding abs run_writes_sel apply_writes_other [OF nb] by (simp add: cache_abs_def)
    have pb: "?b \<in> st_pins (cache_abs s')"
      unfolding abs run_writes_sel using nb subsetD [OF pins tb(1)] by (simp add: cache_abs_def)
    have u: "st_used (cache_abs s') \<le> card (in_use s)"
      using run_writes_used [of "map ?w us" "cache_abs s"] unfolding abs by (simp add: cache_abs_def)
    have nh: "x \<notin> ran (st_hold (cache_abs s'))" for x
      unfolding abs run_writes_sel by (simp add: cache_abs_def l(2) ran_def)
    have "?b \<noteq> ?a"
      using a(2) b(2) by metis
    then have "\<exists>s''. ?body t s' = Ret () s'' \<and> bio_inv s'' \<and> bio_frame s' s'' \<and>
        cache_abs s'' = spec_rewrite ?a (st_view (cache_abs s') ?b) (cache_abs s')"
      unfolding tb(2) using a(1) b(1) ds u room pb
      by (intro bc.copy_block(2) [OF inv _ _ _ nh nh]) simp_all
    then show "\<exists>s''. ?body t s' = Ret () s'' \<and> bio_inv s'' \<and> bio_frame s' s'' \<and>
        cache_abs s'' = spec_rewrite (fst (?w t)) (snd (?w t)) (cache_abs s')"
      using vb by simp
  qed
  then show ?thesis
    by (simp add: write_log_def bind_run gets_run l(3) log_slot_def log_writes_def l(4))
qed

section \<open>Commit and recovery\<close>

text \<open>The cache has performed the disk writes \<open>ws\<close>, and nothing else has changed.\<close>

definition wrote :: "(u32 \<times> u8 list) list \<Rightarrow> 'a lmach_scheme \<Rightarrow> 'a lmach_scheme \<Rightarrow> bool" where
  "wrote ws s s' \<longleftrightarrow> bio_inv s' \<and> bio_frame s s' \<and> cache_abs s' = run_writes ws (cache_abs s)"

lemma wrote_trans: "wrote us s s1 \<Longrightarrow> wrote vs s1 s2 \<Longrightarrow> wrote (us @ vs) s s2"
  unfolding wrote_def using bio_frame_trans run_writes_append by metis

lemma wroteD:
  assumes "wrote ws s s'"
  shows "bio_inv s'" "blk s' = apply_writes ws (blk s)" "disk s' = apply_writes ws (disk s)" "dwrites s' = dwrites s @ ws"
    "held s' = held s" "pinned s' = pinned s - fst ` set ws" "card (in_use s') \<le> card (in_use s)" "disksize s' = disksize s"
    "log_start s' = log_start s" "log_dev s' = log_dev s" "lh_n s' = lh_n s" "lh_block s' = lh_block s"
    "lh_blocks s' = lh_blocks s" "log_size s' = log_size s"
proof -
  have w: "bio_inv s'" "bio_frame s s'" "cache_abs s' = run_writes ws (cache_abs s)"
    using assms by (simp_all add: wrote_def)
  have sel: "st_view (cache_abs t) = blk t" "st_disk (cache_abs t) = disk t" "st_writes (cache_abs t) = dwrites t"
    "st_hold (cache_abs t) = held t" "st_pins (cache_abs t) = pinned t" "st_used (cache_abs t) = card (in_use t)"
    for t :: "'a lmach_scheme"
    by (simp_all add: cache_abs_def)
  note r = run_writes_sel [of ws "cache_abs s", folded w(3), unfolded sel]
  show "bio_inv s'" "blk s' = apply_writes ws (blk s)" "disk s' = apply_writes ws (disk s)" "dwrites s' = dwrites s @ ws"
    "held s' = held s" "pinned s' = pinned s - fst ` set ws"
    using w(1) r by blast+
  show "card (in_use s') \<le> card (in_use s)"
    using run_writes_used [of ws "cache_abs s", folded w(3), unfolded sel] .
  show "disksize s' = disksize s"
    by (rule bc.frame_cap [OF w(2)])
  show "log_start s' = log_start s" "log_dev s' = log_dev s" "lh_n s' = lh_n s" "lh_block s' = lh_block s"
    "lh_blocks s' = lh_blocks s" "log_size s' = log_size s"
    using bio_frame_log [OF w(2)] by (simp_all add: lh_blocks_def)
qed

lemma write_head_run:
  assumes "bio_inv s" and "held s = (\<lambda>_. None)" and "log_dev s = 1" and "log_start s < disksize s" and "card (in_use s) < NBUF"
    and "0 \<le> lh_n s" and "lh_n s \<le> int LOGSIZE" and "length (lh_block s) = LOGSIZE"
  shows "\<exists>s'. write_head s = Ret () s' \<and>
    wrote [(log_start s, hd_encode (lh_n s) (lh_block s) (blk s (log_start s)))] s s'"
proof -
  let ?f = "hd_encode (lh_n s) (lh_block s)"
  have f: "length (?f d) = BSIZE" if "length d = BSIZE" for d
    using hd_encode_decode(1) [OF that assms(6,7)] assms(7,8) by simp
  have "\<exists>s'. bind (bread 1 (log_start s)) (\<lambda>i. bind (gets (\<lambda>s. ?f (b_data (bufs s ! i)))) (\<lambda>d.
      seq (set_data i d) (seq (bwrite i) (brelse i)))) s = Ret () s' \<and> bio_inv s' \<and> bio_frame s s' \<and>
    cache_abs s' = spec_rewrite (log_start s) (?f (st_view (cache_abs s) (log_start s))) (cache_abs s)"
    using assms f by (intro bc.update_block) (simp_all add: cache_abs_def ran_def)
  moreover have "write_head s = bind (bread 1 (log_start s)) (\<lambda>i. bind (gets (\<lambda>s. ?f (b_data (bufs s ! i)))) (\<lambda>d.
      seq (set_data i d) (seq (bwrite i) (brelse i)))) s"
    by (simp add: write_head_def bind_run gets_run assms(3) split: outcome.split)
  ultimately show ?thesis
    by (simp add: wrote_def run_writes_single cache_abs_def)
qed

text \<open>The disk writes of a commit: the new contents into the log, the header, the contents to their places, the header cleared.\<close>

definition commit_writes :: "u32 \<Rightarrow> u32 list \<Rightarrow> u8 list \<Rightarrow> u8 list \<Rightarrow> (u32 \<Rightarrow> u8 list) \<Rightarrow> (u32 \<times> u8 list) list" where
  "commit_writes start bs hdr hdr0 f = log_writes start bs f @ [(start, hdr)] @ map (\<lambda>b. (b, f b)) bs @ [(start, hdr0)]"

lemma fst_log_writes: "map fst (log_writes start bs f) = map (log_slot start) [0..<length bs]"
  by (simp add: log_writes_def)

lemma set_fst_log_writes: "fst ` set (log_writes start bs f) = log_slot start ` {..<length bs}"
  by (simp add: log_writes_def image_image lessThan_atLeast0)

lemma blocks_okD:
  assumes "blocks_ok start sz n bs"
  shows "distinct (map (log_slot start) [0..<length bs])" "b \<in> set bs \<Longrightarrow> b \<notin> log_slot start ` {..<length bs}"
    "start \<notin> set bs" "distinct bs" "start < n" "b \<in> log_slot start ` {..<length bs} \<Longrightarrow> in_log start sz b" "in_log start sz start"
    "start \<notin> log_slot start ` {..<length bs}"
proof -
  have bo: "unat start + unat sz \<le> unat n" "length bs < unat sz" "distinct bs" "\<And>b. b \<in> set bs \<Longrightarrow> \<not> in_log start sz b"
    using assms by (simp_all add: blocks_ok_def)
  have i: "Suc i < unat sz" if "i < length bs" for i
    using that bo(2) by simp
  show st: "start < n" "in_log start sz start"
    using bo(1,2) by (simp_all add: word_less_nat_alt in_log_def)
  show "distinct bs"
    by (rule bo(3))
  show "start \<notin> set bs"
    using st(2) bo(4) by blast
  show s: "in_log start sz b" if "b \<in> log_slot start ` {..<length bs}" for b
    using that unat_log_slot(3) [OF bo(1) i] by (elim imageE) simp
  show "b \<notin> log_slot start ` {..<length bs}" if "b \<in> set bs"
    using s bo(4) [OF that] by blast
  show "start \<notin> log_slot start ` {..<length bs}"
    using unat_log_slot(4) [OF bo(1) i] by (metis imageE lessThan_iff)
  show "distinct (map (log_slot start) [0..<length bs])"
    unfolding distinct_map inj_on_def using log_slot_inj [OF bo(1) i i] by simp
qed

lemma log_writes_at:
  assumes "blocks_ok start sz n bs"
  shows "i < length bs \<Longrightarrow> apply_writes (log_writes start bs f) g (log_slot start i) = f (bs ! i)"
    and "b \<notin> log_slot start ` {..<length bs} \<Longrightarrow> apply_writes (log_writes start bs f) g b = g b"
proof -
  have "distinct (map fst (log_writes start bs f))"
    unfolding fst_log_writes by (rule blocks_okD(1) [OF assms])
  then show "i < length bs \<Longrightarrow> apply_writes (log_writes start bs f) g (log_slot start i) = f (bs ! i)"
    by (rule apply_writes_at) (simp add: log_writes_def)
  show "b \<notin> log_slot start ` {..<length bs} \<Longrightarrow> apply_writes (log_writes start bs f) g b = g b"
    using apply_writes_other [of b "log_writes start bs f"] unfolding set_fst_log_writes by simp
qed

lemma bio_frame_head:
  assumes "bio_frame s s'"
  shows "bio_frame (s\<lparr>lh_n := x\<rparr>) (s'\<lparr>lh_n := x\<rparr>)" "bio_frame (s\<lparr>lh_block := y\<rparr>) (s'\<lparr>lh_block := y\<rparr>)"
proof -
  obtain c p dk dw bf where f: "settle c = settle (mycpu s)"
    "s' = s\<lparr>mycpu := c, ptable := p, disk := dk, dwrites := dw, bufs := bf\<rparr>"
    using assms by (rule bio_frameE)
  have "s'\<lparr>lh_n := x\<rparr> = (s\<lparr>lh_n := x\<rparr>)\<lparr>mycpu := c, ptable := p, disk := dk, dwrites := dw, bufs := bf\<rparr>"
    "s'\<lparr>lh_block := y\<rparr> = (s\<lparr>lh_block := y\<rparr>)\<lparr>mycpu := c, ptable := p, disk := dk, dwrites := dw, bufs := bf\<rparr>"
    unfolding f(2) by (cases s, simp)+
  then show "bio_frame (s\<lparr>lh_n := x\<rparr>) (s'\<lparr>lh_n := x\<rparr>)" "bio_frame (s\<lparr>lh_block := y\<rparr>) (s'\<lparr>lh_block := y\<rparr>)"
    using f(1) bio_frame_upd [of c "s\<lparr>lh_n := x\<rparr>"] bio_frame_upd [of c "s\<lparr>lh_block := y\<rparr>"] by simp_all
qed

lemma wrote_clear: "wrote ws s s' \<Longrightarrow> wrote ws (s\<lparr>lh_n := x\<rparr>) (s'\<lparr>lh_n := x\<rparr>)"
  by (simp add: wrote_def bio_frame_head)

lemma commit_run:
  assumes ok: "log_ok s" and n: "0 < lh_n s" and pins: "pinned s = set (lh_blocks s)" and room: "card (in_use s) < NBUF"
  defines "hdr \<equiv> hd_encode (lh_n s) (lh_block s) (blk s (log_start s))"
  defines "hdr0 \<equiv> hd_encode 0 (lh_block s) hdr"
  shows "\<exists>s'. commit s = Ret () s' \<and> lh_n s' = 0 \<and>
    wrote (commit_writes (log_start s) (lh_blocks s) hdr hdr0 (blk s)) (s\<lparr>lh_n := 0\<rparr>) s'"
proof -
  let ?st = "log_start s" and ?bs = "lh_blocks s"
  note l = log_okD [OF ok]
  have bo: "blocks_ok ?st (log_size s) (disksize s) ?bs" "0 \<le> lh_n s" "lh_n s \<le> int LOGSIZE" "length (lh_block s) = LOGSIZE"
    using ok by (simp_all add: log_ok_def)
  note bd = blocks_okD [OF bo(1)]
  obtain s1 where 1: "write_log s = Ret () s1" "wrote (log_writes ?st ?bs (blk s)) s s1"
    using write_log_run [OF ok room] pins by (auto simp: wrote_def)
  note d1 = wroteD [OF 1(2)]
  have b1: "blk s1 ?st = blk s ?st"
    unfolding d1(2) by (rule log_writes_at(2) [OF bo(1) bd(8)])
  obtain s2 where 2: "write_head s1 = Ret () s2" "wrote [(?st, hdr)] s1 s2"
    using write_head_run [of s1] d1 b1 l bo bd(5) room by (auto simp: hdr_def)
  note d2 = wroteD [OF 2(2)]
  have pin2: "b \<in> pinned s2" if "b \<in> set ?bs" for b
    using that bd(2) [OF that] bd(3) pins by (auto simp: d2(6) d1(6) set_fst_log_writes)
  have ok2: "log_ok s2"
    using ok d1 d2 by (simp add: log_ok_def)
  have u2: "card (in_use s2) < NBUF"
    using d1(7) d2(7) room by linarith
  have p2: "b \<in> pinned s2 \<or> Suc (card (in_use s2)) < NBUF" if "b \<in> set (lh_blocks s2)" for b
    using that pin2 unfolding d2(13) d1(13) by blast
  obtain s3 where 3: "install_trans s2 = Ret () s3" "wrote (install_writes ?st ?bs (blk s2)) s2 s3"
    using install_trans_run [OF ok2 u2 p2] unfolding wrote_def d2(9,13) d1(9,13) by blast
  have ne: "log_slot ?st i \<noteq> ?st" if "i < length ?bs" for i
    using bd(8) that by (metis imageI lessThan_iff)
  have "blk s2 (log_slot ?st i) = blk s (?bs ! i)" if "i < length ?bs" for i
    using log_writes_at(1) [OF bo(1) that] ne [OF that] by (simp add: d2(2) d1(2))
  then have iw: "install_writes ?st ?bs (blk s2) = map (\<lambda>b. (b, blk s b)) ?bs"
    unfolding install_writes_def by (intro nth_equalityI) simp_all
  note d3 = wroteD [OF 3(2)]
  let ?t = "s3\<lparr>lh_n := 0\<rparr>"
  have b3: "blk s3 ?st = hdr"
    unfolding d3(2) iw using bd(3) apply_writes_other [of ?st "map (\<lambda>b. (b, blk s b)) ?bs"] by (simp add: d2(2) image_image)
  have w3: "wrote (log_writes ?st ?bs (blk s) @ [(?st, hdr)] @ map (\<lambda>b. (b, blk s b)) ?bs) s s3"
    using wrote_trans [OF wrote_trans [OF 1(2) 2(2)] 3(2)] by (simp add: iw)
  note w4 = wrote_clear [OF this, of 0]
  note d4 = wroteD [OF w3]
  have fld: "bio_inv ?t" "held ?t = held s3" "blk ?t = blk s3" "in_use ?t = in_use s3" "pinned ?t = pinned s3"
    using d3(1) by (simp_all add: held_def blk_def in_use_def pinned_def fun_eq_iff split: option.split)
  obtain s4 where 4: "write_head ?t = Ret () s4" "wrote [(?st, hdr0)] ?t s4"
    using write_head_run [of ?t] fld d4 b3 l bo bd(5) room by (auto simp: hdr0_def)
  have "commit s = Ret () s4"
    using n 1 2 3 4 by (simp add: commit_def run_simps)
  then show ?thesis
    using wrote_trans [OF w4 4(2)] wroteD(11) [OF 4(2)] by (auto simp: commit_writes_def)
qed


lemma read_head_run:
  assumes "bio_inv s" and "held s = (\<lambda>_. None)" and "log_dev s = 1" and "log_start s < disksize s" and "card (in_use s) < NBUF"
    and "hd_count (blk s (log_start s)) \<le> int LOGSIZE"
  shows "\<exists>s'. read_head s = Ret () s' \<and> bio_inv s' \<and> cache_abs s' = cache_abs s \<and>
    bio_frame (s\<lparr>lh_n := hd_count (blk s (log_start s)),
      lh_block := overlay (lh_block s) 0 (hd_blocks (nat (hd_count (blk s (log_start s)))) (blk s (log_start s)))\<rparr>) s'"
proof -
  let ?h = "blk s (log_start s)"
  let ?up = "\<lambda>s. s\<lparr>lh_n := hd_count ?h, lh_block := overlay (lh_block s) 0 (hd_blocks (nat (hd_count ?h)) ?h)\<rparr>"
  have nh: "log_start s \<notin> ran (st_hold (cache_abs s))" and sel: "st_view (cache_abs s) = blk s" "st_used (cache_abs s) = card (in_use s)"
    using assms(2) by (simp_all add: cache_abs_def ran_def)
  obtain i s1 where 1: "bread 1 (log_start s) s = Ret i s1" "bio_inv s1" "bio_frame s s1" "st_hold (cache_abs s) i = None"
    "cache_abs s1 = spec_read (log_start s) i (cache_abs s)"
    using bc.rd_ok [OF assms(1,4) nh] sel assms(5) by auto
  have h: "st_hold (cache_abs s1) i = Some (log_start s)"
    using 1(5) by (simp add: spec_read_def)
  have d: "b_data (bufs s1 ! i) = ?h"
    using bc.dat_ok [OF 1(2) h] 1(5) by (simp add: spec_read_def sel)
  have "log_start s \<in> st_pins (cache_abs s1) \<or> st_view (cache_abs s1) (log_start s) = st_disk (cache_abs s1) (log_start s)"
    using bc.coherent [OF assms(1) nh] 1(5) by (auto simp: spec_read_def)
  then obtain s2 where 2: "brelse i (?up s1) = Ret () s2" "bio_inv s2" "bio_frame (?up s1) s2"
    "cache_abs s2 = spec_release i (log_start s) (cache_abs s1)"
    using bc.rel_ok [of "?up s1" i "log_start s"] 1(2) h by auto
  have "cache_abs s2 = cache_abs s"
    using 1(4,5) 2(4) by (simp add: spec_read_def spec_release_def fun_upd_idem)
  moreover have "bio_frame (?up s) (?up s1)"
    using bio_frame_head [OF bio_frame_head(1) [OF 1(3)]] bio_frame_log(7) [OF 1(3)] by simp
  ultimately show ?thesis
    using 1 2 d assms(3,6) bio_frame_trans [OF _ 2(3)] by (auto simp: read_head_def run_simps)
qed

text \<open>The machine after a reboot: a cache without busy or dirty buffers, and the log where it was.\<close>

definition rebooted :: "'a lmach_scheme \<Rightarrow> 'a lmach_scheme \<Rightarrow> bool" where
  "rebooted s r \<longleftrightarrow> bio_inv r \<and> in_use r = {} \<and> disksize r = disksize s \<and> log_start r = log_start s \<and>
     log_size r = log_size s \<and> log_dev r = 1 \<and> length (lh_block r) = LOGSIZE"

lemma unused_cache:
  assumes "bio_inv r" and "in_use r = {}"
  shows "held r = (\<lambda>_. None)" "pinned r = {}" "blk r = disk r"
proof -
  show h: "held r = (\<lambda>_. None)" "pinned r = {}"
    using assms(2) by (auto simp: held_def pinned_def in_use_def)
  show "blk r = disk r"
    using bc.coherent [OF assms(1)] h by (simp add: cache_abs_def ran_def fun_eq_iff)
qed

lemma length_hd_blocks [simp]: "length (hd_blocks n d) = n"
  by (simp add: hd_blocks_def)

lemma recover_run:
  assumes r: "rebooted s r"
    and h: "h = disk r (log_start r)" "0 \<le> hd_count h" "hd_count h \<le> int LOGSIZE" "bs = hd_blocks (nat (hd_count h)) h"
    and bo: "blocks_ok (log_start r) (log_size r) (disksize r) bs"
  shows "\<exists>r' h'. recover_from_log r = Ret () r' \<and> lh_n r' = 0 \<and> bio_inv r' \<and> hd_count h' = 0 \<and>
    disk r' = (apply_writes (install_writes (log_start r) bs (disk r)) (disk r))(log_start r := h')"
proof -
  let ?st = "log_start r"
  have fresh: "bio_inv r" "in_use r = {}" "log_dev r = 1" "length (lh_block r) = LOGSIZE"
    using r by (simp_all add: rebooted_def)
  note u = unused_cache [OF fresh(1,2)]
  let ?up = "r\<lparr>lh_n := hd_count h, lh_block := overlay (lh_block r) 0 bs\<rparr>"
  obtain r1 where 1: "read_head r = Ret () r1" "bio_inv r1" "cache_abs r1 = cache_abs r" "bio_frame ?up r1"
    using read_head_run [OF fresh(1) u(1) fresh(3) blocks_okD(5) [OF bo]] fresh(2) h u(3) by auto
  note f1 = bio_frame_log [OF 1(4)] bc.frame_cap [OF 1(4)]
  have a1: "blk r1 = disk r" "held r1 = held r" "card (in_use r1) = 0" "disk r1 = disk r"
    using 1(3) fresh(2) u(3) by (simp_all add: cache_abs_def)
  have bs1: "lh_blocks r1 = bs"
    using h(4) by (simp add: lh_blocks_def f1 overlay_def)
  have ok1: "log_ok r1"
    using fresh(3,4) h(2,3,4) bo bs1 1(2) a1(2) u(1) f1 by (simp add: log_ok_def)
  obtain r2 where 2: "install_trans r1 = Ret () r2" "wrote (install_writes ?st bs (disk r)) r1 r2"
    using install_trans_run [OF ok1] a1 bs1 f1 by (auto simp: wrote_def)
  note d2 = wroteD [OF 2(2)]
  let ?t = "r2\<lparr>lh_n := 0\<rparr>"
  have len: "length (lh_block ?t) = LOGSIZE"
    using ok1 d2(12) by (simp add: log_ok_def)
  have fld: "bio_inv ?t" "held ?t = held r2" "blk ?t = blk r2" "in_use ?t = in_use r2"
    using d2(1) by (simp_all add: held_def blk_def in_use_def fun_eq_iff split: option.split)
  have "\<exists>s'. write_head ?t = Ret () s' \<and>
    wrote [(log_start ?t, hd_encode (lh_n ?t) (lh_block ?t) (blk ?t (log_start ?t)))] ?t s'"
    using fld d2 a1 u(1) f1 fresh(3) blocks_okD(5) [OF bo] len by (intro write_head_run) simp_all
  then obtain r3 where 3: "write_head ?t = Ret () r3" "wrote [(?st, hd_encode 0 (lh_block ?t) (blk r2 ?st))] ?t r3"
    using fld(3) d2(9) f1(1) by auto
  note d3 = wroteD [OF 3(2)]
  have "length (blk r2 ?st) = BSIZE"
    using bc.view_length [OF d2(1)] by (simp add: cache_abs_def)
  then have "hd_count (hd_encode 0 (lh_block ?t) (blk r2 ?st)) = 0"
    by (intro hd_encode_decode(2)) simp_all
  moreover have "recover_from_log r = Ret () r3"
    using 1 2 3 by (simp add: recover_from_log_def run_simps)
  moreover have "disk r3 = (apply_writes (install_writes ?st bs (disk r)) (disk r))(?st := hd_encode 0 (lh_block ?t) (blk r2 ?st))"
    using d3(3) d2(3) a1(4) by simp
  ultimately show ?thesis
    using d3(1,11) by auto
qed

text \<open>The disk after a crash in a commit: some of the writes, in the order in which they were issued.\<close>

definition crash_disk :: "nat \<Rightarrow> (u32 \<times> u8 list) list \<Rightarrow> (u32 \<Rightarrow> u8 list) \<Rightarrow> u32 \<Rightarrow> u8 list" where
  "crash_disk k ws d = apply_writes (take k ws) d"

lemma length_log_writes: "length (log_writes start bs f) = length bs"
  by (simp add: log_writes_def)

lemma crash_before_header:
  assumes "blocks_ok start sz n bs" and "k \<le> length bs" and "b = start \<or> \<not> in_log start sz b"
  shows "crash_disk k (commit_writes start bs hdr hdr0 f) d b = d b"
proof -
  have "take k (commit_writes start bs hdr hdr0 f) = take k (log_writes start bs f)"
    using assms(2) by (simp add: commit_writes_def length_log_writes)
  moreover have "b \<notin> log_slot start ` {..<length bs}"
    using assms(3) blocks_okD(6) [OF assms(1), of b] blocks_okD(8) [OF assms(1)] by metis
  then have "b \<notin> fst ` set (take k (log_writes start bs f))"
    unfolding set_fst_log_writes [of start bs f, symmetric] using set_take_subset [of k "log_writes start bs f"] by blast
  ultimately show ?thesis
    by (simp add: crash_disk_def apply_writes_other)
qed

lemma crash_after_header:
  assumes bo: "blocks_ok start sz n bs" and k: "length bs < k" "k \<le> 2 * length bs + 1"
    and d'_def: "d' = crash_disk k (commit_writes start bs hdr hdr0 f) d"
  shows "d' start = hdr" "i < length bs \<Longrightarrow> d' (log_slot start i) = f (bs ! i)"
    "b \<notin> set bs \<Longrightarrow> \<not> in_log start sz b \<Longrightarrow> d' b = d b"
proof -
  note bd = blocks_okD [OF bo]
  let ?ws = "take (k - length bs - 1) (map (\<lambda>b. (b, f b)) bs)"
  have "take k (commit_writes start bs hdr hdr0 f) = log_writes start bs f @ [(start, hdr)] @ ?ws"
    using k by (simp add: commit_writes_def length_log_writes take_Cons')
  then have d': "d' = apply_writes ?ws ((apply_writes (log_writes start bs f) d)(start := hdr))"
    by (simp add: d'_def crash_disk_def)
  have "set ?ws \<subseteq> set (map (\<lambda>b. (b, f b)) bs)"
    by (rule set_take_subset)
  then have ws: "fst ` set ?ws \<subseteq> set bs"
    by force
  have o: "d' b = ((apply_writes (log_writes start bs f) d)(start := hdr)) b" if "b \<notin> set bs" for b
    unfolding d' using that ws by (intro apply_writes_other) blast
  show "d' start = hdr"
    using o [OF bd(3)] by simp
  show "d' (log_slot start i) = f (bs ! i)" if "i < length bs"
  proof -
    have "log_slot start i \<in> log_slot start ` {..<length bs}"
      using that by simp
    then have "log_slot start i \<notin> set bs" "log_slot start i \<noteq> start"
      using bd(2,8) by metis+
    then show ?thesis
      using o log_writes_at(1) [OF bo that] by simp
  qed
  show "d' b = d b" if "b \<notin> set bs" "\<not> in_log start sz b"
  proof -
    have "b \<noteq> start" "b \<notin> log_slot start ` {..<length bs}"
      using that(2) bd(6,7) by metis+
    then show ?thesis
      using o [OF that(1)] log_writes_at(2) [OF bo] by simp
  qed
qed

lemma crash_after_install:
  assumes bo: "blocks_ok start sz n bs" and k: "2 * length bs + 1 < k"
    and d'_def: "d' = crash_disk k (commit_writes start bs hdr hdr0 f) d"
  shows "d' start = hdr0" "b \<in> set bs \<Longrightarrow> d' b = f b" "b \<notin> set bs \<Longrightarrow> \<not> in_log start sz b \<Longrightarrow> d' b = d b"
proof -
  note bd = blocks_okD [OF bo]
  let ?ws = "map (\<lambda>b. (b, f b)) bs"
  have d': "d' = (apply_writes ?ws ((apply_writes (log_writes start bs f) d)(start := hdr)))(start := hdr0)"
    using k by (simp add: d'_def crash_disk_def commit_writes_def length_log_writes)
  show "d' start = hdr0"
    by (simp add: d')
  have ws: "distinct (map fst ?ws)" "fst ` set ?ws = set bs"
    using bd(4) by (simp_all add: o_def image_image)
  show "d' b = f b" if "b \<in> set bs"
    using apply_writes_at [OF ws(1)] that bd(3) by (auto simp: d')
  show "d' b = d b" if "b \<notin> set bs" "\<not> in_log start sz b"
  proof -
    have "b \<noteq> start" "b \<notin> log_slot start ` {..<length bs}"
      using that(2) bd(6,7) by metis+
    then show ?thesis
      using apply_writes_other [of b ?ws] ws(2) that(1) log_writes_at(2) [OF bo] by (simp add: d')
  qed
qed

lemma install_writes_at:
  assumes "distinct bs"
  shows "i < length bs \<Longrightarrow> apply_writes (install_writes start bs f) d (bs ! i) = f (log_slot start i)"
    "b \<notin> set bs \<Longrightarrow> apply_writes (install_writes start bs f) d b = d b"
proof -
  have m: "map fst (install_writes start bs f) = bs"
    by (simp add: install_writes_def o_def map_nth)
  show "apply_writes (install_writes start bs f) d (bs ! i) = f (log_slot start i)" if "i < length bs"
    using m assms that by (intro apply_writes_at) (simp_all add: install_writes_def)
  show "apply_writes (install_writes start bs f) d b = d b" if "b \<notin> set bs"
    using m that by (intro apply_writes_other) (metis list.set_map)
qed

text \<open>
  The invariant of a transaction: the blocks recorded in the header are exactly the dirty ones in the cache, and the
  header on the disk announces no committed transaction.
\<close>

definition trans_ok :: "'a lmach_scheme \<Rightarrow> bool" where
  "trans_ok s \<longleftrightarrow> bio_inv s \<and> log_dev s = 1 \<and> 0 \<le> lh_n s \<and> lh_n s \<le> int LOGSIZE \<and> length (lh_block s) = LOGSIZE \<and>
     blocks_ok (log_start s) (log_size s) (disksize s) (lh_blocks s) \<and> pinned s = set (lh_blocks s) \<and>
     hd_count (disk s (log_start s)) = 0"

lemma card_in_use:
  assumes "bio_inv s" and "held s = (\<lambda>_. None)"
  shows "card (in_use s) = card (pinned s)"
proof -
  have ok: "cache_ok s"
    using assms(1) by (simp add: bio_inv_def)
  have nb: "\<not> b_busy (bufs s ! i)" if "i < NBUF" for i
    using fun_cong [OF assms(2), of i] that by (simp add: held_def split: if_splits)
  have dev: "b_dev (bufs s ! i) = 1" if "i < NBUF" "b_dirty (bufs s ! i)" for i
    using ok that by (auto simp: cache_ok_def buf_ok_def)
  have "inj_on (\<lambda>i. b_blockno (bufs s ! i)) (in_use s)"
    using cache_uniq [OF ok] nb dev by (auto simp: inj_on_def in_use_def caches_def)
  moreover have "(\<lambda>i. b_blockno (bufs s ! i)) ` in_use s = pinned s"
    using nb dev by (auto simp: in_use_def pinned_def caches_def)
  ultimately show ?thesis
    by (metis card_image)
qed

lemma trans_okD:
  assumes "trans_ok s" and "held s = (\<lambda>_. None)"
  shows "log_ok s" "card (in_use s) = nat (lh_n s)" "b \<notin> set (lh_blocks s) \<Longrightarrow> blk s b = disk s b"
proof -
  have t: "bio_inv s" "log_ok s" "pinned s = set (lh_blocks s)"
    using assms by (simp_all add: trans_ok_def log_ok_def)
  show "log_ok s"
    by (rule t(2))
  show "card (in_use s) = nat (lh_n s)"
    unfolding card_in_use [OF t(1) assms(2)] t(3) using log_okD(4,7) [OF t(2)] by (simp add: distinct_card)
  show "blk s b = disk s b" if "b \<notin> set (lh_blocks s)"
    using bc.coherent [OF t(1), of b] that assms(2) t(3) by (simp add: cache_abs_def ran_def)
qed

lemma hd_count_hdr:
  assumes "length d = BSIZE" and "0 \<le> n" and "n \<le> int LOGSIZE" and "length bs = LOGSIZE"
  shows "hd_count (hd_encode n bs d) = n" "hd_blocks (nat n) (hd_encode n bs d) = take (nat n) bs"
    "hd_count (hd_encode 0 bs (hd_encode n bs d)) = 0"
proof -
  note h = hd_encode_decode [OF assms(1-3), of bs]
  show "hd_count (hd_encode n bs d) = n" "hd_blocks (nat n) (hd_encode n bs d) = take (nat n) bs"
    using h assms(3,4) by simp_all
  show "hd_count (hd_encode 0 bs (hd_encode n bs d)) = 0"
    using h(1) assms(3,4) by (intro hd_encode_decode(2)) simp_all
qed

lemma recover_crashed:
  assumes ok: "log_ok s" and r: "rebooted s r" and hd0: "hd_count (disk s (log_start s)) = 0"
    and coh: "\<And>b. b \<notin> set (lh_blocks s) \<Longrightarrow> blk s b = disk s b"
    and hdr: "hd_count hdr = lh_n s" "hd_blocks (nat (lh_n s)) hdr = lh_blocks s" "hd_count hdr0 = 0"
    and d: "disk r = crash_disk k (commit_writes (log_start s) (lh_blocks s) hdr hdr0 (blk s)) (disk s)"
  shows "\<exists>r'. recover_from_log r = Ret () r' \<and> bio_inv r' \<and> hd_count (disk r' (log_start s)) = 0 \<and>
    (\<forall>b. \<not> in_log (log_start s) (log_size s) b \<longrightarrow> disk r' b = (if k \<le> nat (lh_n s) then disk s b else blk s b))"
proof -
  let ?st = "log_start s" and ?bs = "lh_blocks s"
  have bo: "blocks_ok ?st (log_size s) (disksize s) ?bs" "0 \<le> lh_n s" "lh_n s \<le> int LOGSIZE"
    using ok by (simp_all add: log_ok_def)
  then have bo0: "blocks_ok ?st (log_size s) (disksize s) []"
    by (simp add: blocks_ok_def)
  have l: "length ?bs = nat (lh_n s)"
    by (rule log_okD(4) [OF ok])
  have f: "log_start r = ?st" "log_size r = log_size s" "disksize r = disksize s"
    using r by (simp_all add: rebooted_def)
  note rec = recover_run [OF r refl, unfolded f]
  have il: "b \<noteq> ?st" if "\<not> in_log ?st (log_size s) b" for b
    using blocks_okD(7) [OF bo(1)] that by blast
  have none: ?thesis if h0: "hd_count (disk r ?st) = 0"
    and v: "\<And>b. \<not> in_log ?st (log_size s) b \<Longrightarrow> disk r b = (if k \<le> nat (lh_n s) then disk s b else blk s b)"
    using rec [OF _ _ refl] h0 bo0 v il by (fastforce simp: hd_blocks_def install_writes_def)
  consider "k \<le> length ?bs" | "length ?bs < k" "k \<le> 2 * length ?bs + 1" | "2 * length ?bs + 1 < k"
    by linarith
  then show ?thesis
  proof cases
    case 1
    then show ?thesis
      using crash_before_header [OF bo(1) 1, of _ hdr hdr0 "blk s" "disk s"] hd0 l by (intro none) (simp_all add: d)
  next
    case 2
    note c = crash_after_header [OF bo(1) 2 d]
    obtain r' h' where r': "recover_from_log r = Ret () r'" "bio_inv r'" "hd_count h' = 0"
      "disk r' = (apply_writes (install_writes ?st ?bs (disk r)) (disk r))(?st := h')"
      using rec [of ?bs] c(1) hdr(1,2) bo by auto
    note iw = install_writes_at [OF blocks_okD(4) [OF bo(1)], of _ ?st "disk r" "disk r"]
    have "disk r' b = blk s b" if nl: "\<not> in_log ?st (log_size s) b" for b
    proof (cases "b \<in> set ?bs")
      case True
      then obtain i where i: "i < length ?bs" "b = ?bs ! i"
        by (auto simp: in_set_conv_nth)
      then show ?thesis
        using iw(1) [OF i(1)] c(2) [OF i(1)] il [OF nl] by (simp add: r'(4))
    next
      case False
      then show ?thesis
        using iw(2) c(3) [OF False nl] coh [OF False] il [OF nl] by (simp add: r'(4))
    qed
    then show ?thesis
      using r' 2 l by auto
  next
    case 3
    note c = crash_after_install [OF bo(1) 3 d]
    have "disk r b = blk s b" if "\<not> in_log ?st (log_size s) b" for b
      using c(2) c(3) [OF _ that] coh by (cases "b \<in> set ?bs") simp_all
    then show ?thesis
      using c(1) hdr(3) 3 l by (intro none) simp_all
  qed
qed

subsection \<open>Recording a block\<close>

lemma lh_record:
  assumes "nat N < length bs" and "0 \<le> N" and "j = lh_index N bs b" and "N' = (if int j = N then N + 1 else N)"
  shows "take (nat N') (bs[j := b]) = (if b \<in> set (take (nat N) bs) then take (nat N) bs else take (nat N) bs @ [b])"
proof (cases "findi (\<lambda>x. x = b) (take (nat N) bs)")
  case None
  then have "b \<notin> set (take (nat N) bs)" "j = nat N"
    using assms(3) None findi_None [of "\<lambda>x. x = b" "take (nat N) bs"] by (auto simp: lh_index_def)
  moreover have "nat (N + 1) = Suc (nat N)"
    using assms(2) by (simp add: nat_add_distrib)
  ultimately show ?thesis
    using assms(1,2,4) by (simp add: take_Suc_conv_app_nth)
next
  case (Some i)
  then have i: "i < nat N" "bs ! i = b" "j = i"
    using assms(1,3) findi_SomeD [OF Some] by (simp_all add: lh_index_def)
  then have "b \<in> set (take (nat N) bs)"
    using assms(1) by (auto simp: in_set_conv_nth)
  moreover have "bs[i := b] = bs"
    using i(2) list_update_id [of bs i] by simp
  ultimately show ?thesis
    using i assms(2,4) by simp
qed

lemma log_write_run:
  assumes "calm LogLock s" and "lh_n s < int LOGSIZE" and "lh_n s + 1 < sint (log_size s)" and "1 \<le> log_outstanding s"
    and "n = b_blockno (bufs s ! i)" and "j = lh_index (lh_n s) (lh_block s) n"
  shows "log_write i s = Ret () (settled (s\<lparr>bufs := (bufs s)[i := (bufs s ! i)\<lparr>b_dirty := True\<rparr>],
    lh_n := (if int j = lh_n s then lh_n s + 1 else lh_n s), lh_block := (lh_block s)[j := n]\<rparr>))"
proof -
  have "(locks s)(LogLock := unlocked) = locks s"
    using assms(1) by (simp add: calm_def fun_upd_idem)
  then show ?thesis
    using assms
    by (cases s) (simp add: log_write_def run_simps calm_def release_run released_def cpu_pop_push acquired_def settled_def
        cpu_ok_def set_dirty_def)
qed

lemma unat_sint:
  assumes "0 \<le> sint (w :: u32)"
  shows "unat w = nat (sint w)"
proof -
  have "uint w = take_bit 32 (sint w)"
    using take_bit_int_eq_self [of "uint w" 32] uint_lt2p [of w] by (simp add: take_bit_signed_take_bit sint_uint)
  also have "\<dots> = sint w"
    using assms sint_lt [of w] by (intro take_bit_int_eq_self) simp_all
  finally show ?thesis
    by (metis nat_uint_eq)
qed

lemma trans_ok_settled [simp]: "trans_ok (settled s) = trans_ok s" "lh_blocks (settled s) = lh_blocks s"
  "cache_abs (settled s) = cache_abs s" "lh_n (settled s) = lh_n s"
  by (simp_all add: trans_ok_def lh_blocks_def settled_def cache_abs_def blk_def pinned_def held_def in_use_def bio_inv_def
      cache_ok_def calm_def fun_eq_iff split: option.split)

lemma trans_ok_fields:
  "trans_ok s \<longleftrightarrow> bio_inv s \<and> log_dev s = 1 \<and> 0 \<le> lh_n s \<and> lh_n s \<le> int LOGSIZE \<and> length (lh_block s) = LOGSIZE \<and>
     blocks_ok (log_start s) (log_size s) (disksize s) (lh_blocks s) \<and> st_pins (cache_abs s) = set (lh_blocks s) \<and>
     hd_count (st_disk (cache_abs s) (log_start s)) = 0"
  by (simp add: trans_ok_def cache_abs_def)

lemma settled_log [simp]:
  "log_start (settled s) = log_start s" "log_size (settled s) = log_size s" "log_dev (settled s) = log_dev s"
  "lh_n (settled s) = lh_n s" "lh_block (settled s) = lh_block s" "log_outstanding (settled s) = log_outstanding s"
  "log_committing (settled s) = log_committing s"
  by (simp_all add: settled_def)

lemma log_write_trans:
  assumes ok: "trans_ok s" and h: "held s i = Some n" and "\<not> in_log (log_start s) (log_size s) n" and calm: "calm LogLock s"
    and room: "lh_n s < int LOGSIZE" "lh_n s + 1 < sint (log_size s)" and "1 \<le> log_outstanding s"
  shows "\<exists>s'. log_write i s = Ret () s' \<and> trans_ok s' \<and> cache_abs s' = spec_pin n (cache_abs s) \<and>
    lh_blocks s' = (if n \<in> set (lh_blocks s) then lh_blocks s else lh_blocks s @ [n]) \<and>
    calm LogLock s' \<and> log_outstanding s' = log_outstanding s \<and> log_committing s' = log_committing s \<and>
    log_start s' = log_start s \<and> log_size s' = log_size s \<and> disksize s' = disksize s"
proof -
  let ?j = "lh_index (lh_n s) (lh_block s) n"
  let ?n = "if int ?j = lh_n s then lh_n s + 1 else lh_n s"
  let ?t = "s\<lparr>bufs := (bufs s)[i := (bufs s ! i)\<lparr>b_dirty := True\<rparr>], lh_n := ?n, lh_block := (lh_block s)[?j := n]\<rparr>"
  have t: "bio_inv s" "log_dev s = 1" "0 \<le> lh_n s" "length (lh_block s) = LOGSIZE" "pinned s = set (lh_blocks s)"
    "blocks_ok (log_start s) (log_size s) (disksize s) (lh_blocks s)" "hd_count (disk s (log_start s)) = 0"
    using ok by (simp_all add: trans_ok_def)
  have n: "n = b_blockno (bufs s ! i)" "n < disksize s"
    using h t(1) by (auto simp: held_def bio_inv_def split: if_splits)
  have "st_hold (cache_abs s) i = Some n"
    using h by (simp add: cache_abs_def)
  then obtain s1 where "set_dirty i s = Ret () s1" "bio_inv s1" "cache_abs s1 = spec_pin n (cache_abs s)"
    using bc.pin_ok [OF t(1)] by blast
  then have p: "bio_inv ?t" "cache_abs ?t = spec_pin n (cache_abs s)"
    by (simp_all add: set_dirty_def run_simps)
  have lb: "lh_blocks ?t = (if n \<in> set (lh_blocks s) then lh_blocks s else lh_blocks s @ [n])"
    using lh_record [OF _ t(3) refl refl, of "lh_block s" n] room(1) t(4) by (simp add: lh_blocks_def)
  have "unat (log_size s) = nat (sint (log_size s))"
    using room(2) t(3) by (intro unat_sint) linarith
  then have "Suc (length (lh_blocks s)) < unat (log_size s)"
    using room(2) t(3) by (simp add: lh_blocks_def)
  then have "blocks_ok (log_start s) (log_size s) (disksize s) (lh_blocks ?t)"
    using t(4,6) n(2) assms(3) room(1) by (auto simp: blocks_ok_def lb) (simp add: lh_blocks_def)
  then have "trans_ok ?t"
    unfolding trans_ok_fields p(2) lb using p(1) t room(1) by (auto simp: spec_pin_def cache_abs_def)
  then show ?thesis
    using log_write_run [OF calm room assms(7) n(1) refl] p lb calm by (simp add: calm_def)
qed

lemma commit_trans:
  assumes ok: "trans_ok s" and h: "held s = (\<lambda>_. None)" and room: "lh_n s < int NBUF"
  shows "\<exists>s' hdr hdr0 ws. commit s = Ret () s' \<and> lh_n s' = 0 \<and> wrote ws (s\<lparr>lh_n := 0\<rparr>) s' \<and> trans_ok s' \<and>
    (\<forall>b. \<not> in_log (log_start s) (log_size s) b \<longrightarrow> disk s' b = blk s b) \<and>
    hd_count hdr = lh_n s \<and> hd_blocks (nat (lh_n s)) hdr = lh_blocks s \<and> hd_count hdr0 = 0 \<and>
    ws = (if lh_n s = 0 then [] else commit_writes (log_start s) (lh_blocks s) hdr hdr0 (blk s))"
proof -
  let ?st = "log_start s" and ?bs = "lh_blocks s"
  let ?hdr = "hd_encode (lh_n s) (lh_block s) (blk s ?st)"
  let ?clr = "hd_encode 0 (lh_block s) ?hdr"
  note td = trans_okD [OF ok h]
  have t: "bio_inv s" "0 \<le> lh_n s" "lh_n s \<le> int LOGSIZE" "length (lh_block s) = LOGSIZE" "pinned s = set ?bs"
    "blocks_ok ?st (log_size s) (disksize s) ?bs" "log_dev s = 1" "hd_count (disk s ?st) = 0"
    using ok by (simp_all add: trans_ok_def)
  have "length (blk s ?st) = BSIZE"
    using bc.view_length [OF t(1)] by (simp add: cache_abs_def)
  note hdr = hd_count_hdr [OF this t(2-4)]
  show ?thesis
  proof (cases "lh_n s = 0")
    case True
    then have "commit s = Ret () s" "?bs = []" and e: "s\<lparr>lh_n := 0\<rparr> = s"
      by (simp_all add: commit_def run_simps lh_blocks_def)
    moreover have "wrote [] (s\<lparr>lh_n := 0\<rparr>) s"
      unfolding e using t(1) bio_frame_refl by (simp add: wrote_def run_writes_def)
    ultimately show ?thesis
      using True ok hdr td(3) by (intro exI [of _ s] exI [of _ ?hdr] exI [of _ ?clr] exI [of _ "[]"]) (simp add: lh_blocks_def hd_blocks_def)
  next
    case False
    let ?ws = "commit_writes ?st ?bs ?hdr ?clr (blk s)"
    have u: "card (in_use s) < NBUF"
      using td(2) room t(2) by simp
    obtain s' where s': "commit s = Ret () s'" "lh_n s' = 0" "wrote ?ws (s\<lparr>lh_n := 0\<rparr>) s'"
      using commit_run [OF td(1) _ t(5) u] False t(2) by auto
    note d = wroteD [OF s'(3)]
    have ds: "disk s' = crash_disk (length ?ws) ?ws (disk s)"
      using d(3) by (simp add: crash_disk_def)
    note c = crash_after_install [OF t(6) _ ds]
    have k: "2 * length ?bs + 1 < length ?ws"
      by (simp add: commit_writes_def length_log_writes)
    have "disk s' b = blk s b" if "\<not> in_log ?st (log_size s) b" for b
      using c(2) [OF k] c(3) [OF k _ that] td(3) by (cases "b \<in> set ?bs") simp_all
    moreover have pl: "pinned (s\<lparr>lh_n := 0\<rparr>) = pinned s"
      by (simp add: pinned_def)
    have "pinned s' = {}"
      using d(6) t(5) by (auto simp: commit_writes_def pl image_Un image_image)
    then have "trans_ok s'"
      using d s'(2) t(4,6,7) c(1) [OF k] hdr(3) by (simp add: trans_ok_def lh_blocks_def blocks_ok_def)
    ultimately show ?thesis
      using s' hdr False by (intro exI [of _ s'] exI [of _ ?hdr] exI [of _ ?clr] exI [of _ ?ws]) (simp add: lh_blocks_def)
  qed
qed

lemma recover_unwritten:
  assumes "trans_ok s" and "held s = (\<lambda>_. None)" and "rebooted s r" and "disk r = disk s"
  shows "\<exists>r'. recover_from_log r = Ret () r' \<and> bio_inv r' \<and> hd_count (disk r' (log_start s)) = 0 \<and>
    (\<forall>b. \<not> in_log (log_start s) (log_size s) b \<longrightarrow> disk r' b = disk s b)"
proof -
  note td = trans_okD [OF assms(1,2)]
  have t: "bio_inv s" "0 \<le> lh_n s" "lh_n s \<le> int LOGSIZE" "length (lh_block s) = LOGSIZE" "hd_count (disk s (log_start s)) = 0"
    using assms(1) by (simp_all add: trans_ok_def)
  have "length (blk s (log_start s)) = BSIZE"
    using bc.view_length [OF t(1)] by (simp add: cache_abs_def)
  note h = hd_count_hdr [OF this t(2-4)]
  show ?thesis
    using recover_crashed [OF td(1) assms(3) t(5) td(3) h(1) _ h(3), of 0] assms(4) h(2) by (simp add: crash_disk_def lh_blocks_def)
qed

lemma end_op_last:
  assumes "calm LogLock s" and "\<not> log_committing s" and "log_outstanding s = 1"
    and c: "commit (settled (s\<lparr>log_outstanding := 0, log_committing := True\<rparr>)) = Ret () t"
    and "calm LogLock t" and "calm PtableLock t"
  shows "end_op s = Ret () (settled (t\<lparr>ptable := map (wake_proc LogChan) (ptable t), log_committing := False\<rparr>))"
proof -
  have l: "(locks s)(LogLock := unlocked) = locks s" "(locks t)(LogLock := unlocked) = locks t"
    using assms(1,5) by (simp_all add: calm_def fun_upd_idem)
  let ?start = "seq (acquire LogLock)
    (seq (modify (\<lambda>s. s\<lparr>log_outstanding := log_outstanding s - 1\<rparr>))
    (seq (modify (\<lambda>s. s\<lparr>log_committing := True\<rparr>)) (release LogLock)))"
  let ?fin = "seq (acquire LogLock) (seq (modify (\<lambda>s. s\<lparr>log_committing := False\<rparr>)) (seq (wakeup LogChan) (release LogLock)))"
  have b: "?start s = Ret () (settled (s\<lparr>log_outstanding := 0, log_committing := True\<rparr>))"
    using assms(1-3) l(1)
    by (cases s) (simp add: run_simps calm_def release_run released_def cpu_pop_push acquired_def settled_def cpu_ok_def)
  have f: "?fin t = Ret () (settled (t\<lparr>ptable := map (wake_proc LogChan) (ptable t), log_committing := False\<rparr>))"
    using assms(5,6) l(2)
    by (cases t) (simp add: run_simps calm_def wakeup_run release_run released_def cpu_pop_push acquired_def settled_def cpu_ok_def)
  have "end_op s = seq ?start (seq commit ?fin) s"
    using assms(1-3) by (simp add: end_op_def run_simps calm_def acquired_def split: outcome.split)
  then show ?thesis
    using b c f by (simp add: seq_run)
qed

section \<open>A concrete state\<close>

definition demo_lmach :: lmach where
  "demo_lmach = bmach.extend demo_cache \<lparr>log_start = 256, log_size = 30, log_outstanding = 1, log_committing = False,
     log_dev = 1, lh_n = 0, lh_block = replicate 30 0\<rparr>"

lemma demo_lmach_sel [simp]:
  "log_start demo_lmach = 256" "log_size demo_lmach = 30" "log_outstanding demo_lmach = 1"
  "log_committing demo_lmach = False" "log_dev demo_lmach = 1" "lh_n demo_lmach = 0" "lh_block demo_lmach = replicate 30 0"
  "bufs demo_lmach = bufs demo_cache" "disk demo_lmach = disk demo_cache" "disksize demo_lmach = disksize demo_cache"
  "dwrites demo_lmach = dwrites demo_cache" "locks demo_lmach = locks demo_cache" "mycpu demo_lmach = mycpu demo_cache"
  "mem demo_lmach = mem demo_cache" "ptable demo_lmach = ptable demo_cache"
  by (simp_all add: demo_lmach_def bmach.defs)

lemma demo_lmach_abs: "cache_abs demo_lmach = cache_abs demo_cache" "bio_inv demo_lmach" "held demo_lmach = (\<lambda>_. None)"
  "pinned demo_lmach = {}" "in_use demo_lmach = {}"
proof -
  show a: "cache_abs demo_lmach = cache_abs demo_cache"
    by (simp add: cache_abs_def blk_def held_def pinned_def in_use_def fun_eq_iff split: option.split)
  show "bio_inv demo_lmach"
    using demo_cache_ok(1) by (simp add: bio_inv_def cache_ok_def calm_def)
  show "held demo_lmach = (\<lambda>_. None)" "pinned demo_lmach = {}" "in_use demo_lmach = {}"
    using demo_cache_ok(4-6) by (simp_all add: held_def pinned_def in_use_def fun_eq_iff)
qed

lemma demo_lmach_trans: "trans_ok demo_lmach" "calm LogLock demo_lmach"
proof -
  have "(256 :: u8) = 0"
    by simp
  then have "hd_count (replicate 512 256) = 0"
    by (simp add: hd_count_def get32_def)
  then show "trans_ok demo_lmach"
    using demo_lmach_abs by (simp add: trans_ok_def lh_blocks_def blocks_ok_def demo_cache_ok)
  show "calm LogLock demo_lmach"
    using demo_cache_ok(1) by (simp add: bio_inv_def calm_def demo_cache_ok)
qed

lemma trans_ok_op_fields [simp]:
  "trans_ok (s\<lparr>log_outstanding := x, log_committing := y\<rparr>) = trans_ok s"
  "trans_ok (s\<lparr>ptable := p, log_committing := y\<rparr>) = trans_ok s"
  "cache_abs (s\<lparr>log_outstanding := x, log_committing := y\<rparr>) = cache_abs s"
  by (simp_all add: trans_ok_def bio_inv_def cache_ok_def calm_def cache_abs_def blk_def held_def pinned_def in_use_def
      lh_blocks_def fun_eq_iff split: option.split)

lemma recover_any:
  assumes "trans_ok s" and "held s = (\<lambda>_. None)" and "rebooted s r"
    and "hd_count hdr = lh_n s" and "hd_blocks (nat (lh_n s)) hdr = lh_blocks s" and "hd_count hdr0 = 0"
    and d: "disk r = crash_disk k (if lh_n s = 0 then [] else commit_writes (log_start s) (lh_blocks s) hdr hdr0 (blk s)) (disk s)"
  shows "\<exists>r'. recover_from_log r = Ret () r' \<and> bio_inv r' \<and> hd_count (disk r' (log_start s)) = 0 \<and>
    (\<forall>b. \<not> in_log (log_start s) (log_size s) b \<longrightarrow> disk r' b = (if k \<le> nat (lh_n s) then disk s b else blk s b))"
proof (cases "lh_n s = 0")
  case True
  then have "disk r = disk s" "\<And>b. blk s b = disk s b"
    using d trans_okD(3) [OF assms(1,2)] by (simp_all add: crash_disk_def lh_blocks_def)
  then show ?thesis
    using recover_unwritten [OF assms(1-3)] by simp
next
  case False
  have "hd_count (disk s (log_start s)) = 0"
    using assms(1) by (simp add: trans_ok_def)
  then show ?thesis
    using recover_crashed [OF trans_okD(1) [OF assms(1,2)] assms(3) _ trans_okD(3) [OF assms(1,2)] assms(4-6)] d False by simp
qed

text \<open>A transaction on the concrete state: read block 7, overwrite it, record it, and give the buffer back.\<close>

lemma demo_read:
  "\<exists>i s. bread 1 7 demo_lmach = Ret i s \<and> trans_ok s \<and> held s i = Some 7 \<and> calm LogLock s \<and>
    cache_abs s = spec_read 7 i (cache_abs demo_lmach) \<and> lh_blocks s = [] \<and> lh_n s = 0 \<and> log_start s = 256 \<and> log_size s = 30 \<and>
    log_outstanding s = 1 \<and> \<not> log_committing s"
proof -
  obtain i s where s: "bread 1 7 demo_lmach = Ret i s" "bio_inv s" "bio_frame demo_lmach s"
    "cache_abs s = spec_read 7 i (cache_abs demo_lmach)"
    using bc.rd_ok [OF demo_lmach_abs(2), of 7] demo_lmach_abs by (auto simp: cache_abs_def ran_def demo_cache_ok)
  note f = bio_frame_log [OF s(3)] bc.frame_cap [OF s(3)]
  have "locks s = locks demo_lmach"
    using s(3) by (auto elim: bio_frameE)
  moreover have lb: "lh_blocks s = []"
    by (simp add: lh_blocks_def f)
  moreover have "trans_ok s"
    using demo_lmach_trans(1) s(2,4) lb f by (simp add: trans_ok_fields spec_read_def lh_blocks_def)
  moreover have "held s i = Some 7"
    using arg_cong [OF s(4), of "\<lambda>a. st_hold a i"] by (simp add: cache_abs_def spec_read_def)
  ultimately show ?thesis
    using s f demo_cache_ok(9) by (auto simp: bio_inv_def calm_def)
qed

lemma demo_transaction:
  "\<exists>s :: lmach. trans_ok s \<and> held s = (\<lambda>_. None) \<and> lh_blocks s = [7] \<and> lh_n s = 1 \<and> calm LogLock s \<and> log_outstanding s = 1 \<and>
    \<not> log_committing s \<and> log_start s = 256 \<and> log_size s = 30 \<and> blk s 7 = replicate 512 1 \<and> disk s 7 = replicate 512 7"
proof -
  obtain i and s1 :: lmach where 1: "trans_ok s1" "held s1 i = Some 7" "calm LogLock s1" "lh_blocks s1 = []" "lh_n s1 = 0"
    "cache_abs s1 = spec_read 7 i (cache_abs demo_lmach)"
    "log_start s1 = 256" "log_size s1 = 30" "log_outstanding s1 = 1" "\<not> log_committing s1"
    using demo_read by blast
  have i1: "bio_inv s1" "st_hold (cache_abs s1) i = Some 7"
    using 1(1,2) by (simp_all add: trans_ok_def cache_abs_def)
  obtain s2 :: lmach where 2: "bio_inv s2" "bio_frame s1 s2" "cache_abs s2 = spec_edit 7 (replicate 512 1) (cache_abs s1)"
    using bc.put_ok [OF i1, of "replicate 512 1"] by auto
  note f2 = bio_frame_log [OF 2(2)] bc.frame_cap [OF 2(2)]
  have lb2: "lh_blocks s2 = []" and t2: "trans_ok s2"
    using 1 2(1,3) f2 by (simp_all add: lh_blocks_def trans_ok_fields spec_edit_def)
  have h2: "held s2 i = Some 7"
    using arg_cong [OF 2(3), of "\<lambda>a. st_hold a i"] i1(2) by (simp add: cache_abs_def spec_edit_def)
  have "locks s2 = locks s1"
    using 2(2) by (auto elim: bio_frameE)
  then have c2: "calm LogLock s2"
    using 1(3) 2(1) by (simp add: calm_def bio_inv_def)
  obtain s3 :: lmach where 3: "trans_ok s3" "cache_abs s3 = spec_pin 7 (cache_abs s2)" "lh_blocks s3 = [7]" "calm LogLock s3"
    "log_outstanding s3 = 1" "\<not> log_committing s3" "log_start s3 = 256" "log_size s3 = 30"
    using log_write_trans [OF t2 h2 _ c2] lb2 1(5,7-10) f2 by (simp add: in_log_def) blast
  have i3: "bio_inv s3" "st_hold (cache_abs s3) i = Some 7" "7 \<in> st_pins (cache_abs s3)"
    using 3(1,2) h2 by (simp_all add: trans_ok_def cache_abs_def spec_pin_def)
  obtain s4 :: lmach where 4: "bio_inv s4" "bio_frame s3 s4" "cache_abs s4 = spec_release i 7 (cache_abs s3)"
    using bc.rel_ok [OF i3(1,2)] i3(3) by blast
  note f4 = bio_frame_log [OF 4(2)] bc.frame_cap [OF 4(2)]
  have lb4: "lh_blocks s4 = [7]" and t4: "trans_ok s4"
    using 3 4(1,3) f4 by (simp_all add: lh_blocks_def trans_ok_fields spec_release_def)
  moreover have "lh_n s4 = 1"
    using t4 arg_cong [OF lb4, of length] by (auto simp: trans_ok_def lh_blocks_def min_def split: if_splits)
  moreover have "locks s4 = locks s3"
    using 4(2) by (auto elim: bio_frameE)
  then have "calm LogLock s4"
    using 3(4) 4(1) by (simp add: calm_def bio_inv_def)
  moreover have "cache_abs s4 = spec_release i 7 (spec_pin 7 (spec_edit 7 (replicate 512 1) (spec_read 7 i (cache_abs demo_lmach))))"
    using 4(3) 3(2) 2(3) 1(6) by simp
  then have "held s4 = (\<lambda>_. None)" "blk s4 7 = replicate 512 1" "disk s4 7 = replicate 512 7"
    using demo_lmach_abs(3)
    by (simp_all add: cache_abs_def spec_release_def spec_pin_def spec_edit_def spec_read_def fun_eq_iff demo_cache_ok)
  ultimately show ?thesis
    using 3 f4 by auto
qed

section \<open>Properties\<close>

text \<open>
  C3: The log makes file system operations atomic. The \<open>end_op\<close> of the last outstanding operation returns with every
  block the transaction has modified on the disk and the log empty. If the machine crashes after any number \<open>k\<close> of the disk
  writes the commit issues, then recovery after the reboot succeeds, leaves the log empty, and every block outside
  the log has its old contents if the header had not been written yet, and its new contents otherwise.
\<close>

theorem end_op_crash_atomic:
  assumes "trans_ok s" and "held s = (\<lambda>_. None)" and "lh_n s < int NBUF" and "calm LogLock s"
    and "\<not> log_committing s" and "log_outstanding s = 1"
  shows "\<exists>s' ws. end_op s = Ret () s' \<and> dwrites s' = dwrites s @ ws \<and> trans_ok s' \<and> lh_n s' = 0 \<and> log_outstanding s' = 0 \<and>
    \<not> log_committing s' \<and> (\<forall>b. \<not> in_log (log_start s) (log_size s) b \<longrightarrow> disk s' b = blk s b) \<and>
    (\<forall>k r. rebooted s r \<and> disk r = crash_disk k ws (disk s) \<longrightarrow>
      (\<exists>r'. recover_from_log r = Ret () r' \<and> bio_inv r' \<and> hd_count (disk r' (log_start s)) = 0 \<and>
        (\<forall>b. \<not> in_log (log_start s) (log_size s) b \<longrightarrow> disk r' b = (if k \<le> nat (lh_n s) then disk s b else blk s b))))"
proof -
  let ?s = "settled (s\<lparr>log_outstanding := 0, log_committing := True\<rparr>)"
  have "cache_abs ?s = cache_abs s"
    by simp
  then have f: "blk ?s = blk s" "held ?s = held s" "disk ?s = disk s" "dwrites ?s = dwrites s" "lh_blocks ?s = lh_blocks s"
    "log_start ?s = log_start s" "log_size ?s = log_size s" "lh_n ?s = lh_n s"
    unfolding cache_abs_def by (simp_all add: lh_blocks_def)
  obtain t hdr hdr0 ws where t: "commit ?s = Ret () t" "lh_n t = 0" "wrote ws (?s\<lparr>lh_n := 0\<rparr>) t" "trans_ok t"
    "\<And>b. \<not> in_log (log_start s) (log_size s) b \<Longrightarrow> disk t b = blk s b"
    "hd_count hdr = lh_n s" "hd_blocks (nat (lh_n s)) hdr = lh_blocks s" "hd_count hdr0 = 0"
    "ws = (if lh_n s = 0 then [] else commit_writes (log_start s) (lh_blocks s) hdr hdr0 (blk s))"
    using commit_trans [of ?s, unfolded f] assms(1-3) by simp blast
  have "bio_frame (?s\<lparr>lh_n := 0\<rparr>) t" "dwrites t = dwrites s @ ws"
    using t(3) wroteD(4) [OF t(3)] by (simp_all add: wrote_def)
  then have fr: "locks t = locks s" "log_outstanding t = 0" "dwrites t = dwrites s @ ws"
    by (auto elim: bio_frameE)
  have "bio_inv t"
    using t(4) by (simp add: trans_ok_def)
  then have calm: "calm LogLock t" "calm PtableLock t"
    using assms(4) fr(1) by (simp_all add: calm_def bio_inv_def)
  note e = end_op_last [OF assms(4-6) t(1) calm]
  have "\<exists>r'. recover_from_log r = Ret () r' \<and> bio_inv r' \<and> hd_count (disk r' (log_start s)) = 0 \<and>
      (\<forall>b. \<not> in_log (log_start s) (log_size s) b \<longrightarrow> disk r' b = (if k \<le> nat (lh_n s) then disk s b else blk s b))"
    if r: "rebooted s r" "disk r = crash_disk k ws (disk s)" for k r
    using recover_any [OF assms(1,2) r(1) t(6-8)] r(2) unfolding t(9) by blast
  then show ?thesis
    using e t(2,4,5) fr(2,3) by auto
qed


theorem end_op_crash_atomic_witness:
  "\<exists>(s :: lmach) s'. lh_blocks s = [7] \<and> end_op s = Ret () s' \<and> disk s 7 = replicate 512 7 \<and> disk s' 7 = replicate 512 1"
proof -
  obtain s :: lmach where s: "trans_ok s" "held s = (\<lambda>_. None)" "lh_blocks s = [7]" "lh_n s = 1" "calm LogLock s" "log_outstanding s = 1"
    "\<not> log_committing s" "log_start s = 256" "log_size s = 30" "blk s 7 = replicate 512 1" "disk s 7 = replicate 512 7"
    using demo_transaction by blast
  then show ?thesis
    using end_op_crash_atomic [OF s(1,2) _ s(5,7,6)] by (auto simp: in_log_def)
qed

text \<open>
  C11: \<open>log_write\<close> keeps the log in step with the cache: inside an operation, for a buffer the caller holds whose block lies outside the log, it
  adds the block to the header once, however often the block is written (absorption), and pins the block in the
  cache; nothing is written to the disk, and the recorded blocks remain exactly the dirty ones.
\<close>

theorem log_write_records:
  assumes "trans_ok s" and "held s i = Some n" and "\<not> in_log (log_start s) (log_size s) n" and "calm LogLock s"
    and "lh_n s < int LOGSIZE" and "lh_n s + 1 < sint (log_size s)" and "1 \<le> log_outstanding s"
  shows "\<exists>s'. log_write i s = Ret () s' \<and> trans_ok s' \<and> pinned s' = insert n (pinned s) \<and>
    lh_blocks s' = (if n \<in> set (lh_blocks s) then lh_blocks s else lh_blocks s @ [n]) \<and>
    blk s' = blk s \<and> disk s' = disk s \<and> dwrites s' = dwrites s \<and> held s' = held s"
  using log_write_trans [OF assms] by (auto simp: cache_abs_def spec_pin_def)

theorem log_write_records_witness:
  "\<exists>i s s'. bread 1 7 demo_lmach = Ret i s \<and> log_write i s = Ret () s' \<and> lh_blocks s' = [7]"
proof -
  obtain i s where s: "bread 1 7 demo_lmach = Ret i s" "trans_ok s" "held s i = Some 7" "calm LogLock s" "lh_blocks s = []"
    "lh_n s = 0" "log_start s = 256" "log_size s = 30" "log_outstanding s = 1"
    using demo_read by blast
  then show ?thesis
    using log_write_records [OF s(2,3) _ s(4)] by (auto simp: in_log_def)
qed

end
