(* ===== verification/Inode.thy ===== *)
theory Inode
  imports Log
begin

text \<open>
  The lower layers of the file system (\<open>src/fs.c\<close>): the free bitmap, inodes on disk and in the inode cache, and the
  block map of a file. A pointer to an in-memory inode is its index in the cache; the flag bits are booleans; the
  on-disk inode is read and written at its byte layout.
\<close>

section \<open>State\<close>

record inode =
  i_dev :: u32
  i_inum :: u32
  i_ref :: int
  i_busy :: bool
  i_valid :: bool
  i_type :: u16
  i_major :: u16
  i_minor :: u16
  i_nlink :: u16
  i_size :: u32
  i_addrs :: "u32 list"

record imach = lmach +
  sb :: superblock
  icache :: "inode list"

definition upd_inode :: "nat \<Rightarrow> (inode \<Rightarrow> inode) \<Rightarrow> ('a imach_scheme, unit) op" where
  "upd_inode i f = modify (\<lambda>s. s\<lparr>icache := (icache s)[i := f (icache s ! i)]\<rparr>)"

definition get_inode :: "nat \<Rightarrow> ('a imach_scheme, inode) op" where
  "get_inode i = gets (\<lambda>s. icache s ! i)"

definition get_data :: "nat \<Rightarrow> ('a bmach_scheme, u8 list) op" where
  "get_data b = gets (\<lambda>s. b_data (bufs s ! b))"

section \<open>Blocks\<close>

definition bzero :: "u32 \<Rightarrow> u32 \<Rightarrow> ('a lmach_scheme, unit) op" where
  "bzero dev bno =
     bind (bread dev bno) (\<lambda>bp.
     seq (set_data bp (replicate BSIZE 0))
    (seq (log_write bp)
         (brelse bp)))"

definition bmap_used :: "u8 list \<Rightarrow> nat \<Rightarrow> bool" where
  "bmap_used d bi \<longleftrightarrow> bit (d ! (bi div 8)) (bi mod 8)"

definition bmap_set :: "u8 list \<Rightarrow> nat \<Rightarrow> u8 list" where
  "bmap_set d bi = d[bi div 8 := d ! (bi div 8) OR push_bit (bi mod 8) 1]"

definition bmap_clear :: "u8 list \<Rightarrow> nat \<Rightarrow> u8 list" where
  "bmap_clear d bi = d[bi div 8 := d ! (bi div 8) AND NOT (push_bit (bi mod 8) 1)]"

text \<open>The outer loop of \<open>balloc\<close> over the first block numbers \<open>b\<close> that the bitmap blocks describe.\<close>

fun balloc_loop :: "u32 \<Rightarrow> nat list \<Rightarrow> ('a imach_scheme, u32) op" where
  "balloc_loop dev [] = panic ''balloc: out of blocks''"
| "balloc_loop dev (b # bs) =
     bind (gets sb) (\<lambda>sb.
     bind (bread dev (BBLOCK (of_nat b) sb)) (\<lambda>bp.
     bind (get_data bp) (\<lambda>d.
     case find (\<lambda>bi. \<not> bmap_used d bi) [0..<min BPB (unat (sb_size sb) - b)] of
       Some bi \<Rightarrow>
         seq (set_data bp (bmap_set d bi))
        (seq (log_write bp)
        (seq (brelse bp)
        (seq (bzero dev (of_nat (b + bi)))
             (ret (of_nat (b + bi))))))
     | None \<Rightarrow> seq (brelse bp) (balloc_loop dev bs))))"

definition balloc :: "u32 \<Rightarrow> ('a imach_scheme, u32) op" where
  "balloc dev =
     bind (gets sb) (\<lambda>sb.
     balloc_loop dev (map (\<lambda>k. k * BPB) [0..<(unat (sb_size sb) + BPB - 1) div BPB]))"

definition bfree :: "u32 \<Rightarrow> u32 \<Rightarrow> ('a imach_scheme, unit) op" where
  "bfree dev b =
     bind (readsb dev) (\<lambda>sb'.
     seq (modify (\<lambda>s. s\<lparr>sb := sb'\<rparr>))
    (bind (bread dev (BBLOCK b sb')) (\<lambda>bp.
     bind (get_data bp) (\<lambda>d.
     let bi = unat b mod BPB in
     if \<not> bmap_used d bi then panic ''freeing free block''
     else
     seq (set_data bp (bmap_clear d bi))
    (seq (log_write bp)
         (brelse bp))))))"

section \<open>Inodes on disk\<close>

text \<open>
  \<open>struct dinode\<close>: type, major, minor and link count as 16-bit words, the size, then the block addresses; inode \<open>n\<close> is at
  index \<open>n % IPB\<close> of its block.
\<close>

definition dinode_off :: "u32 \<Rightarrow> nat" where
  "dinode_off inum = DINODE_SIZE * (unat inum mod IPB)"

definition dinode_type :: "u8 list \<Rightarrow> nat \<Rightarrow> u16" where
  "dinode_type d o1 = get16 d o1"

definition dinode_load :: "u8 list \<Rightarrow> nat \<Rightarrow> inode \<Rightarrow> inode" where
  "dinode_load d o1 ip = ip\<lparr>i_type := get16 d o1, i_major := get16 d (o1 + 2), i_minor := get16 d (o1 + 4),
     i_nlink := get16 d (o1 + 6), i_size := get32 d (o1 + 8),
     i_addrs := map (\<lambda>k. get32 d (o1 + 12 + 4 * k)) [0..<NDIRECT + 1]\<rparr>"

definition dinode_bytes :: "inode \<Rightarrow> u8 list" where
  "dinode_bytes ip = le16 (i_type ip) @ le16 (i_major ip) @ le16 (i_minor ip) @ le16 (i_nlink ip) @ le32 (i_size ip) @
     concat (map le32 (i_addrs ip))"

definition iupdate :: "nat \<Rightarrow> ('a imach_scheme, unit) op" where
  "iupdate i =
     bind (get_inode i) (\<lambda>ip.
     bind (gets sb) (\<lambda>sb.
     bind (bread (i_dev ip) (IBLOCK (i_inum ip) sb)) (\<lambda>bp.
     bind (get_data bp) (\<lambda>d.
     seq (set_data bp (overlay d (dinode_off (i_inum ip)) (dinode_bytes ip)))
    (seq (log_write bp)
         (brelse bp))))))"

section \<open>The inode cache\<close>

definition iinit :: "u32 \<Rightarrow> ('a imach_scheme, unit) op" where
  "iinit dev =
     seq (initlock IcacheLock)
    (bind (readsb dev) (\<lambda>sb'.
     seq (modify (\<lambda>s. s\<lparr>sb := sb'\<rparr>))
         (cprintf ''sb: size %d nblocks %d ninodes %d nlog %d logstart %d inodestart %d bmap start %d\<newline>''
            [Word (sb_size sb'), Word (sb_nblocks sb'), Word (sb_ninodes sb'), Word (sb_nlog sb'),
             Word (sb_logstart sb'), Word (sb_inodestart sb'), Word (sb_bmapstart sb')])))"

definition iget :: "u32 \<Rightarrow> u32 \<Rightarrow> ('a imach_scheme, nat) op" where
  "iget dev inum =
     seq (acquire IcacheLock)
    (bind (gets icache) (\<lambda>is.
     case findi (\<lambda>ip. i_ref ip > 0 \<and> i_dev ip = dev \<and> i_inum ip = inum) is of
       Some i \<Rightarrow>
         seq (upd_inode i (\<lambda>ip. ip\<lparr>i_ref := i_ref ip + 1\<rparr>))
        (seq (release IcacheLock)
             (ret i))
     | None \<Rightarrow>
         (case findi (\<lambda>ip. i_ref ip = 0) is of
            None \<Rightarrow> panic ''iget: no inodes''
          | Some i \<Rightarrow>
            seq (upd_inode i (\<lambda>ip. ip\<lparr>i_dev := dev, i_inum := inum, i_ref := 1, i_busy := False, i_valid := False\<rparr>))
           (seq (release IcacheLock)
                (ret i)))))"

fun ialloc_loop :: "u32 \<Rightarrow> u16 \<Rightarrow> nat list \<Rightarrow> ('a imach_scheme, nat) op" where
  "ialloc_loop dev type [] = panic ''ialloc: no inodes''"
| "ialloc_loop dev type (n # ns) =
     bind (gets sb) (\<lambda>sb.
     bind (bread dev (IBLOCK (of_nat n) sb)) (\<lambda>bp.
     bind (get_data bp) (\<lambda>d.
     let o1 = dinode_off (of_nat n) in
     if dinode_type d o1 = 0 then
       seq (set_data bp (overlay d o1 (le16 type @ replicate (DINODE_SIZE - 2) 0)))
      (seq (log_write bp)
      (seq (brelse bp)
           (iget dev (of_nat n))))
     else seq (brelse bp) (ialloc_loop dev type ns))))"

definition ialloc :: "u32 \<Rightarrow> u16 \<Rightarrow> ('a imach_scheme, nat) op" where
  "ialloc dev type = bind (gets sb) (\<lambda>sb. ialloc_loop dev type [1..<unat (sb_ninodes sb)])"

definition idup :: "nat \<Rightarrow> ('a imach_scheme, nat) op" where
  "idup i =
     seq (acquire IcacheLock)
    (seq (upd_inode i (\<lambda>ip. ip\<lparr>i_ref := i_ref ip + 1\<rparr>))
    (seq (release IcacheLock)
         (ret i)))"

text \<open>The test of the wait loop of \<open>ilock\<close>, entered with \<open>icache.lock\<close> held, and what follows the loop.\<close>

definition ilock_loop :: "nat \<Rightarrow> ('a imach_scheme, unit) op" where
  "ilock_loop i =
     bind (get_inode i) (\<lambda>ip.
     if i_busy ip then seq (sleep (InodeChan i) IcacheLock) swtch
     else
     seq (upd_inode i (i_busy_update (\<lambda>_. True)))
    (seq (release IcacheLock)
         (whenM (\<not> i_valid ip)
           (bind (gets sb) (\<lambda>sb.
            bind (bread (i_dev ip) (IBLOCK (i_inum ip) sb)) (\<lambda>bp.
            bind (get_data bp) (\<lambda>d.
            seq (upd_inode i (dinode_load d (dinode_off (i_inum ip))))
           (seq (brelse bp)
           (seq (upd_inode i (i_valid_update (\<lambda>_. True)))
           (bind (get_inode i) (\<lambda>ip'. if i_type ip' = 0 then panic ''ilock: no type'' else ret ())))))))))))"

definition ilock :: "nat \<Rightarrow> ('a imach_scheme, unit) op" where
  "ilock i =
     bind (get_inode i) (\<lambda>ip.
     if i_ref ip < 1 then panic ''ilock''
     else seq (acquire IcacheLock) (ilock_loop i))"

definition iunlock :: "nat \<Rightarrow> ('a imach_scheme, unit) op" where
  "iunlock i =
     bind (get_inode i) (\<lambda>ip.
     if \<not> i_busy ip \<or> i_ref ip < 1 then panic ''iunlock''
     else
     seq (acquire IcacheLock)
    (seq (upd_inode i (i_busy_update (\<lambda>_. False)))
    (seq (wakeup (InodeChan i))
         (release IcacheLock))))"

section \<open>Contents\<close>

definition bmap :: "nat \<Rightarrow> u32 \<Rightarrow> ('a imach_scheme, u32) op" where
  "bmap i bn =
     bind (get_inode i) (\<lambda>ip.
     if unat bn < NDIRECT then
       (let addr = i_addrs ip ! unat bn in
        if addr = 0 then
          bind (balloc (i_dev ip)) (\<lambda>addr.
          seq (upd_inode i (\<lambda>ip. ip\<lparr>i_addrs := (i_addrs ip)[unat bn := addr]\<rparr>))
              (ret addr))
        else ret addr)
     else if unat bn - NDIRECT < NINDIRECT then
       (let k = unat bn - NDIRECT; addr = i_addrs ip ! NDIRECT in
        bind (if addr = 0 then
                bind (balloc (i_dev ip)) (\<lambda>addr.
                seq (upd_inode i (\<lambda>ip. ip\<lparr>i_addrs := (i_addrs ip)[NDIRECT := addr]\<rparr>))
                    (ret addr))
              else ret addr) (\<lambda>addr.
        bind (bread (i_dev ip) addr) (\<lambda>bp.
        bind (get_data bp) (\<lambda>d.
        let a = get32 d (4 * k) in
        if a = 0 then
          bind (balloc (i_dev ip)) (\<lambda>a.
          bind (get_data bp) (\<lambda>d.
          seq (set_data bp (overlay d (4 * k) (le32 a)))
         (seq (log_write bp)
         (seq (brelse bp)
              (ret a)))))
        else seq (brelse bp) (ret a)))))
     else panic ''bmap: out of range'')"

definition itrunc :: "nat \<Rightarrow> ('a imach_scheme, unit) op" where
  "itrunc i =
     seq (forM [0..<NDIRECT] (\<lambda>k.
            bind (get_inode i) (\<lambda>ip.
            whenM (i_addrs ip ! k \<noteq> 0)
              (seq (bfree (i_dev ip) (i_addrs ip ! k))
                   (upd_inode i (\<lambda>ip. ip\<lparr>i_addrs := (i_addrs ip)[k := 0]\<rparr>))))))
    (seq (bind (get_inode i) (\<lambda>ip.
          whenM (i_addrs ip ! NDIRECT \<noteq> 0)
            (bind (bread (i_dev ip) (i_addrs ip ! NDIRECT)) (\<lambda>bp.
             seq (forM [0..<NINDIRECT] (\<lambda>j.
                    bind (get_data bp) (\<lambda>d.
                    whenM (get32 d (4 * j) \<noteq> 0) (bfree (i_dev ip) (get32 d (4 * j))))))
            (seq (brelse bp)
            (seq (bfree (i_dev ip) (i_addrs ip ! NDIRECT))
                 (upd_inode i (\<lambda>ip. ip\<lparr>i_addrs := (i_addrs ip)[NDIRECT := 0]\<rparr>))))))))
    (seq (upd_inode i (i_size_update (\<lambda>_. 0)))
         (iupdate i)))"

definition iput :: "nat \<Rightarrow> ('a imach_scheme, unit) op" where
  "iput i =
     seq (acquire IcacheLock)
    (bind (get_inode i) (\<lambda>ip.
     seq (whenM (i_ref ip = 1 \<and> i_valid ip \<and> i_nlink ip = 0)
            (if i_busy ip then panic ''iput busy''
             else
             seq (upd_inode i (i_busy_update (\<lambda>_. True)))
            (seq (release IcacheLock)
            (seq (itrunc i)
            (seq (upd_inode i (i_type_update (\<lambda>_. 0)))
            (seq (iupdate i)
            (seq (acquire IcacheLock)
            (seq (upd_inode i (\<lambda>ip. ip\<lparr>i_busy := False, i_valid := False\<rparr>))
                 (wakeup (InodeChan i))))))))))
    (seq (upd_inode i (\<lambda>ip. ip\<lparr>i_ref := i_ref ip - 1\<rparr>))
         (release IcacheLock))))"

definition iunlockput :: "nat \<Rightarrow> ('a imach_scheme, unit) op" where
  "iunlockput i = seq (iunlock i) (iput i)"

record stat =
  st_type :: u16
  st_dev :: u32
  st_ino :: u32
  st_nlink :: u16
  st_size :: u32

definition stati :: "nat \<Rightarrow> ('a imach_scheme, stat) op" where
  "stati i = bind (get_inode i) (\<lambda>ip.
     ret \<lparr>st_type = i_type ip, st_dev = i_dev ip, st_ino = i_inum ip, st_nlink = i_nlink ip, st_size = i_size ip\<rparr>)"

section \<open>A concrete state\<close>

definition empty_inode :: inode where
  "empty_inode = \<lparr>i_dev = 0, i_inum = 0, i_ref = 0, i_busy = False, i_valid = False, i_type = 0, i_major = 0, i_minor = 0,
     i_nlink = 0, i_size = 0, i_addrs = replicate 13 0\<rparr>"

definition demo_imach :: imach where
  "demo_imach = lmach.extend demo_lmach \<lparr>sb = \<lparr>sb_size = 1000, sb_nblocks = 941, sb_ninodes = 200, sb_nlog = 30,
     sb_logstart = 256, sb_inodestart = 32, sb_bmapstart = 58\<rparr>, icache = replicate 50 empty_inode\<rparr>"

lemma demo_imach_sel [simp]:
  "icache demo_imach = replicate 50 empty_inode" "locks demo_imach = locks demo_lmach" "mycpu demo_imach = mycpu demo_lmach"
  "mem demo_imach = mem demo_lmach" "bufs demo_imach = bufs demo_lmach" "disk demo_imach = disk demo_lmach"
  "disksize demo_imach = disksize demo_lmach" "dwrites demo_imach = dwrites demo_lmach" "ptable demo_imach = ptable demo_lmach"
  by (simp_all add: demo_imach_def lmach.defs)

end
