(* ===== verification/Irq.thy ===== *)
theory Irq
  imports Inode
begin

text \<open>
  Interrupt controllers, timers, the clock and the multiprocessor tables (\<open>src/picirq.c\<close>, \<open>src/ioapic.c\<close>,
  \<open>src/timer.c\<close>, \<open>src/lapic.c\<close>, \<open>src/mp.c\<close>, \<open>src/mp.h\<close>). The kernel's variables are state; what is written to an I/O port is
  recorded in order; the registers of the two APICs are maps from register numbers to values. What the real-time
  clock answers to each read is a parameter of the state.
\<close>

section \<open>State\<close>

record hmach = imach +
  irqmask :: u16
  ports :: "(u16 \<times> u8) list"
  ismp :: bool
  ioapicid :: u8
  ioapic :: "u32 \<Rightarrow> u32"
  lapic :: u32
  lapic_regs :: "u32 \<Rightarrow> u32"
  lapic_log :: "(u32 \<times> u32) list"
  ncpu :: nat
  bcpu :: nat
  cpus_id :: "nat list"
  rtc :: "nat \<Rightarrow> u8 \<Rightarrow> u8"
  rtc_reads :: nat

definition outb :: "u16 \<Rightarrow> u8 \<Rightarrow> ('a hmach_scheme, unit) op" where
  "outb port d = modify (\<lambda>s. s\<lparr>ports := ports s @ [(port, d)]\<rparr>)"

definition IO_PIC1 :: u16 where [simp]: "IO_PIC1 = 0x20"
definition IO_PIC2 :: u16 where [simp]: "IO_PIC2 = 0xA0"
definition IRQ_SLAVE :: nat where [simp]: "IRQ_SLAVE = 2"
definition T_IRQ0 :: u32 where [simp]: "T_IRQ0 = 32"
definition IRQ_TIMER :: nat where [simp]: "IRQ_TIMER = 0"
definition IRQ_KBD :: nat where [simp]: "IRQ_KBD = 1"
definition IRQ_COM1 :: nat where [simp]: "IRQ_COM1 = 4"
definition IRQ_IDE :: nat where [simp]: "IRQ_IDE = 14"
definition IRQ_ERROR :: nat where [simp]: "IRQ_ERROR = 19"
definition IRQ_SPURIOUS :: nat where [simp]: "IRQ_SPURIOUS = 31"

section \<open>The 8259A controllers\<close>

definition picsetmask :: "u16 \<Rightarrow> ('a hmach_scheme, unit) op" where
  "picsetmask m =
     seq (modify (\<lambda>s. s\<lparr>irqmask := m\<rparr>))
    (seq (outb (IO_PIC1 + 1) (ucast m))
         (outb (IO_PIC2 + 1) (ucast (drop_bit 8 m))))"

definition picenable :: "nat \<Rightarrow> ('a hmach_scheme, unit) op" where
  "picenable irq = bind (gets irqmask) (\<lambda>m. picsetmask (m AND NOT (push_bit irq 1)))"

definition picinit :: "('a hmach_scheme, unit) op" where
  "picinit =
     seq (forM [(IO_PIC1 + 1, 0xFF), (IO_PIC2 + 1, 0xFF), (IO_PIC1, 0x11), (IO_PIC1 + 1, 32), (IO_PIC1 + 1, 4),
                (IO_PIC1 + 1, 0x3), (IO_PIC2, 0x11), (IO_PIC2 + 1, 40), (IO_PIC2 + 1, 2), (IO_PIC2 + 1, 0x3),
                (IO_PIC1, 0x68), (IO_PIC1, 0x0A), (IO_PIC2, 0x68), (IO_PIC2, 0x0A)]
            (\<lambda>(p, d). outb p d))
    (bind (gets irqmask) (\<lambda>m. whenM (m \<noteq> 0xFFFF) (picsetmask m)))"

definition TIMER_DIV :: "nat \<Rightarrow> nat" where
  "TIMER_DIV x = (1193182 + x div 2) div x"

definition timerinit :: "('a hmach_scheme, unit) op" where
  "timerinit =
     seq (outb 0x43 0x34)
    (seq (outb 0x40 (of_nat (TIMER_DIV 100 mod 256)))
    (seq (outb 0x40 (of_nat (TIMER_DIV 100 div 256)))
         (picenable IRQ_TIMER)))"

section \<open>The I/O APIC\<close>

definition REG_TABLE :: u32 where [simp]: "REG_TABLE = 0x10"

definition ioapicread :: "u32 \<Rightarrow> ('a hmach_scheme, u32) op" where
  "ioapicread reg = gets (\<lambda>s. ioapic s reg)"

definition ioapicwrite :: "u32 \<Rightarrow> u32 \<Rightarrow> ('a hmach_scheme, unit) op" where
  "ioapicwrite reg d = modify (\<lambda>s. s\<lparr>ioapic := (ioapic s)(reg := d)\<rparr>)"

definition ioapicinit :: "('a hmach_scheme, unit) op" where
  "ioapicinit =
     bind (gets ismp) (\<lambda>mp.
     whenM mp
       (bind (ioapicread 1) (\<lambda>ver.
        bind (ioapicread 0) (\<lambda>id.
        bind (gets ioapicid) (\<lambda>want.
        seq (whenM (drop_bit 24 id \<noteq> ucast want)
               (cprintf ''ioapicinit: id isn't equal to ioapicid; not a MP\<newline>'' []))
            (forM [0..<Suc (unat (drop_bit 16 ver AND 0xFF))] (\<lambda>i.
               seq (ioapicwrite (REG_TABLE + 2 * of_nat i) (0x10000 OR (T_IRQ0 + of_nat i)))
                   (ioapicwrite (REG_TABLE + 2 * of_nat i + 1) 0))))))))"

definition ioapicenable :: "nat \<Rightarrow> u32 \<Rightarrow> ('a hmach_scheme, unit) op" where
  "ioapicenable irq cpunum =
     bind (gets ismp) (\<lambda>mp.
     whenM mp
       (seq (ioapicwrite (REG_TABLE + 2 * of_nat irq) (T_IRQ0 + of_nat irq))
            (ioapicwrite (REG_TABLE + 2 * of_nat irq + 1) (push_bit 24 cpunum))))"

section \<open>The local APIC\<close>

definition lapicw :: "u32 \<Rightarrow> u32 \<Rightarrow> ('a hmach_scheme, unit) op" where
  "lapicw i v = modify (\<lambda>s. s\<lparr>lapic_regs := (lapic_regs s)(i := v), lapic_log := lapic_log s @ [(i, v)]\<rparr>)"

definition lapic_ID :: u32 where [simp]: "lapic_ID = 0x20 div 4"
definition lapic_VER :: u32 where [simp]: "lapic_VER = 0x30 div 4"
definition lapic_TPR :: u32 where [simp]: "lapic_TPR = 0x80 div 4"
definition lapic_EOI :: u32 where [simp]: "lapic_EOI = 0xB0 div 4"
definition lapic_SVR :: u32 where [simp]: "lapic_SVR = 0xF0 div 4"
definition lapic_ESR :: u32 where [simp]: "lapic_ESR = 0x280 div 4"
definition lapic_ICRLO :: u32 where [simp]: "lapic_ICRLO = 0x300 div 4"
definition lapic_ICRHI :: u32 where [simp]: "lapic_ICRHI = 0x310 div 4"
definition lapic_TIMER :: u32 where [simp]: "lapic_TIMER = 0x320 div 4"
definition lapic_PCINT :: u32 where [simp]: "lapic_PCINT = 0x340 div 4"
definition lapic_LINT0 :: u32 where [simp]: "lapic_LINT0 = 0x350 div 4"
definition lapic_LINT1 :: u32 where [simp]: "lapic_LINT1 = 0x360 div 4"
definition lapic_ERROR :: u32 where [simp]: "lapic_ERROR = 0x370 div 4"
definition lapic_TICR :: u32 where [simp]: "lapic_TICR = 0x380 div 4"
definition lapic_TDCR :: u32 where [simp]: "lapic_TDCR = 0x3E0 div 4"

text \<open>
  The interrupt command is delivered at once: the polling loop of \<open>lapicinit\<close> sees the delivery status bit \<open>DELIVS\<close> clear in the
  value just written.
\<close>

definition lapicinit :: "('a hmach_scheme, unit) op" where
  "lapicinit =
     bind (gets (\<lambda>s. s)) (\<lambda>g.
     whenM (lapic g \<noteq> 0)
       (seq (lapicw lapic_SVR (0x100 OR (T_IRQ0 + of_nat IRQ_SPURIOUS)))
       (seq (lapicw lapic_TDCR 0xB)
       (seq (lapicw lapic_TIMER (0x20000 OR (T_IRQ0 + of_nat IRQ_TIMER)))
       (seq (lapicw lapic_TICR 10000000)
       (seq (lapicw lapic_LINT0 0x10000)
       (seq (lapicw lapic_LINT1 0x10000)
       (seq (whenM (drop_bit 16 (lapic_regs g lapic_VER) AND 0xFF \<ge> 4) (lapicw lapic_PCINT 0x10000))
       (seq (lapicw lapic_ERROR (T_IRQ0 + of_nat IRQ_ERROR))
       (seq (lapicw lapic_ESR 0)
       (seq (lapicw lapic_ESR 0)
       (seq (lapicw lapic_EOI 0)
       (seq (lapicw lapic_ICRHI 0)
       (seq (lapicw lapic_ICRLO (0x80000 OR 0x500 OR 0x8000))
            (lapicw lapic_TPR 0)))))))))))))))"

definition cpunum :: "('a hmach_scheme, u32) op" where
  "cpunum = gets (\<lambda>s. if lapic s \<noteq> 0 then drop_bit 24 (lapic_regs s lapic_ID) else 0)"

definition lapiceoi :: "('a hmach_scheme, unit) op" where
  "lapiceoi = bind (gets lapic) (\<lambda>l. whenM (l \<noteq> 0) (lapicw lapic_EOI 0))"

definition store16 :: "u32 \<Rightarrow> u16 \<Rightarrow> ('a machine_scheme, unit) op" where
  "store16 a v = modify (\<lambda>s. s\<lparr>mem := (mem s)(a := ucast v, a + 1 := ucast (drop_bit 8 v))\<rparr>)"

definition lapicstartap :: "u8 \<Rightarrow> u32 \<Rightarrow> ('a hmach_scheme, unit) op" where
  "lapicstartap apicid addr =
     seq (outb 0x70 0xF)
    (seq (outb 0x71 0x0A)
    (seq (store16 (p2v 0x467) 0)
    (seq (store16 (p2v 0x467 + 2) (ucast (drop_bit 4 addr)))
    (seq (lapicw lapic_ICRHI (push_bit 24 (ucast apicid)))
    (seq (lapicw lapic_ICRLO (0x500 OR 0x8000 OR 0x4000))
    (seq (lapicw lapic_ICRLO (0x500 OR 0x8000))
         (forM [0, 1 :: nat] (\<lambda>i.
            seq (lapicw lapic_ICRHI (push_bit 24 (ucast apicid)))
                (lapicw lapic_ICRLO (0x600 OR drop_bit 12 addr))))))))))"

section \<open>The real-time clock\<close>

record rtcdate =
  rtc_second :: u32
  rtc_minute :: u32
  rtc_hour :: u32
  rtc_day :: u32
  rtc_month :: u32
  rtc_year :: u32

definition cmos_read :: "u8 \<Rightarrow> ('a hmach_scheme, u32) op" where
  "cmos_read reg =
     seq (outb 0x70 reg)
    (bind (gets (\<lambda>s. ucast (rtc s (rtc_reads s) reg))) (\<lambda>v.
     seq (modify (\<lambda>s. s\<lparr>rtc_reads := Suc (rtc_reads s)\<rparr>))
         (ret v)))"

definition fill_rtcdate :: "('a hmach_scheme, rtcdate) op" where
  "fill_rtcdate =
     bind (cmos_read 0x00) (\<lambda>sec.
     bind (cmos_read 0x02) (\<lambda>mi.
     bind (cmos_read 0x04) (\<lambda>hour.
     bind (cmos_read 0x07) (\<lambda>day.
     bind (cmos_read 0x08) (\<lambda>month.
     bind (cmos_read 0x09) (\<lambda>year.
     ret \<lparr>rtc_second = sec, rtc_minute = mi, rtc_hour = hour, rtc_day = day, rtc_month = month, rtc_year = year\<rparr>))))))"

definition bcd_conv :: "u32 \<Rightarrow> u32" where
  "bcd_conv x = drop_bit 4 x * 10 + (x AND 0xF)"

definition rtc_conv :: "rtcdate \<Rightarrow> rtcdate" where
  "rtc_conv r = \<lparr>rtc_second = bcd_conv (rtc_second r), rtc_minute = bcd_conv (rtc_minute r), rtc_hour = bcd_conv (rtc_hour r),
     rtc_day = bcd_conv (rtc_day r), rtc_month = bcd_conv (rtc_month r), rtc_year = bcd_conv (rtc_year r)\<rparr>"

text \<open>The loop reads the date until two readings agree and no update was in progress; \<open>n\<close> bounds the attempts.\<close>

fun cmostime_loop :: "nat \<Rightarrow> ('a hmach_scheme, rtcdate) op" where
  "cmostime_loop 0 = fault"
| "cmostime_loop (Suc n) =
     bind fill_rtcdate (\<lambda>t1.
     bind (cmos_read 0x0A) (\<lambda>stata.
     if stata AND 0x80 \<noteq> 0 then cmostime_loop n
     else
     bind fill_rtcdate (\<lambda>t2.
     if t1 = t2 then ret t1 else cmostime_loop n)))"

definition cmostime :: "nat \<Rightarrow> ('a hmach_scheme, rtcdate) op" where
  "cmostime n =
     bind (cmos_read 0x0B) (\<lambda>statb.
     bind (cmostime_loop n) (\<lambda>t1.
     let t = (if statb AND 4 = 0 then rtc_conv t1 else t1)
     in ret (t\<lparr>rtc_year := rtc_year t + 2000\<rparr>)))"

section \<open>Multiprocessor tables\<close>

definition mem_bytes :: "memory \<Rightarrow> u32 \<Rightarrow> nat \<Rightarrow> u8 list" where
  "mem_bytes m a n = map (\<lambda>i. m (a + of_nat i)) [0..<n]"

definition mpsum :: "memory \<Rightarrow> u32 \<Rightarrow> nat \<Rightarrow> u8" where
  "mpsum m a n = sum_list (mem_bytes m a n)"

definition SIZEOF_MP :: nat where [simp]: "SIZEOF_MP = 16"

definition mpsearch1 :: "memory \<Rightarrow> u32 \<Rightarrow> nat \<Rightarrow> u32 option" where
  "mpsearch1 m a len =
     find (\<lambda>p. mem_bytes m p 4 = bytes ''_MP_'' \<and> mpsum m p SIZEOF_MP = 0)
       (map (\<lambda>k. p2v a + of_nat (k * SIZEOF_MP)) [0..<(len + SIZEOF_MP - 1) div SIZEOF_MP])"

definition load8 :: "memory \<Rightarrow> u32 \<Rightarrow> u32" where
  "load8 m a = ucast (m a)"

definition mpsearch :: "memory \<Rightarrow> u32 option" where
  "mpsearch m =
     (let bda = p2v 0x400;
          p = push_bit 4 (push_bit 8 (load8 m (bda + 0xF)) OR load8 m (bda + 0xE));
          q = (push_bit 8 (load8 m (bda + 0x14)) OR load8 m (bda + 0x13)) * 1024
      in case (if p \<noteq> 0 then mpsearch1 m p 1024 else mpsearch1 m (q - 1024) 1024) of
           Some mp \<Rightarrow> Some mp
         | None \<Rightarrow> mpsearch1 m 0xF0000 0x10000)"

definition load16 :: "memory \<Rightarrow> u32 \<Rightarrow> u16" where
  "load16 m a = ucast (m a) OR push_bit 8 (ucast (m (a + 1)))"

text \<open>The result is the address of the floating structure and of the configuration table.\<close>

definition mpconfig :: "memory \<Rightarrow> (u32 \<times> u32) option" where
  "mpconfig m =
     (case mpsearch m of
        None \<Rightarrow> None
      | Some mp \<Rightarrow>
        if load32 m (mp + 4) = 0 then None
        else
        let conf = p2v (load32 m (mp + 4)) in
        if mem_bytes m conf 4 \<noteq> bytes ''PCMP'' then None
        else if m (conf + 6) \<noteq> 1 \<and> m (conf + 6) \<noteq> 4 then None
        else if mpsum m conf (unat (load16 m (conf + 4))) \<noteq> 0 then None
        else Some (mp, conf))"

text \<open>
  The loop of \<open>mpinit\<close> over the entries of the table, from \<open>p\<close> to \<open>e\<close>. An unknown entry type does not advance \<open>p\<close>; \<open>n\<close>
  bounds the iterations. \<open>cpus[]\<close> has \<open>NCPU\<close> elements; one more processor entry writes behind it.
\<close>

fun mpinit_loop :: "nat \<Rightarrow> u32 \<Rightarrow> u32 \<Rightarrow> ('a hmach_scheme, unit) op" where
  "mpinit_loop 0 p e = fault"
| "mpinit_loop (Suc n) p e =
     (if p \<ge> e then ret ()
      else
      bind (gets mem) (\<lambda>m.
      if m p = 0 then
        bind (gets ncpu) (\<lambda>c.
        seq (whenM (of_nat c \<noteq> load8 m (p + 1))
               (seq (cprintf ''mpinit: ncpu=%d apicid=%d\<newline>'' [Word (of_nat c), Word (load8 m (p + 1))])
                    (modify (\<lambda>s. s\<lparr>ismp := False\<rparr>))))
       (seq (whenM (m (p + 3) AND 2 \<noteq> 0) (modify (\<lambda>s. s\<lparr>bcpu := c\<rparr>)))
       (if c \<ge> NCPU then fault
        else
        seq (modify (\<lambda>s. s\<lparr>cpus_id := (cpus_id s)[c := c], ncpu := Suc c\<rparr>))
            (mpinit_loop n (p + 20) e))))
      else if m p = 2 then
        seq (modify (\<lambda>s. s\<lparr>ioapicid := m (p + 1)\<rparr>))
            (mpinit_loop n (p + 8) e)
      else if m p = 1 \<or> m p = 3 \<or> m p = 4 then mpinit_loop n (p + 8) e
      else
        seq (cprintf ''mpinit: unknown config type %x\<newline>'' [Word (load8 m p)])
       (seq (modify (\<lambda>s. s\<lparr>ismp := False\<rparr>))
            (mpinit_loop n p e))))"

definition mpinit :: "nat \<Rightarrow> u8 \<Rightarrow> ('a hmach_scheme, unit) op" where
  "mpinit n imcr =
     seq (modify (\<lambda>s. s\<lparr>bcpu := 0\<rparr>))
    (bind (gets mem) (\<lambda>m.
     case mpconfig m of
       None \<Rightarrow> ret ()
     | Some (mp, conf) \<Rightarrow>
       seq (modify (\<lambda>s. s\<lparr>ismp := True, lapic := load32 m (conf + 36)\<rparr>))
      (seq (mpinit_loop n (conf + 44) (conf + ucast (load16 m (conf + 4))))
      (bind (gets ismp) (\<lambda>ok.
       if \<not> ok then modify (\<lambda>s. s\<lparr>ncpu := 1, lapic := 0, ioapicid := 0\<rparr>)
       else
       whenM (m (mp + 12) \<noteq> 0)
         (seq (outb 0x22 0x70)
              (outb 0x23 (imcr OR 1))))))))"

section \<open>Properties\<close>

definition demo_hmach :: hmach where
  "demo_hmach = imach.extend demo_imach \<lparr>irqmask = 0xFFFB, ports = [], ismp = True, ioapicid = 0, ioapic = (\<lambda>_. 0),
     lapic = 0xFEE00000, lapic_regs = (\<lambda>_. 0), lapic_log = [], ncpu = 0, bcpu = 0, cpus_id = replicate 8 0,
     rtc = (\<lambda>n r. if r = 0x09 then 0x16 else if r = 0x0A \<or> r = 0x0B then 0 else 0x12), rtc_reads = 0\<rparr>"

lemma demo_hmach_sel [simp]:
  "rtc demo_hmach = (\<lambda>n r. if r = 0x09 then 0x16 else if r = 0x0A \<or> r = 0x0B then 0 else 0x12)"
  "irqmask demo_hmach = 0xFFFB" "ismp demo_hmach" "mem demo_hmach = mem demo_imach" "locks demo_hmach = locks demo_imach"
  "mycpu demo_hmach = mycpu demo_imach"
  by (simp_all add: demo_hmach_def imach.defs)

text \<open>Locking and printing leave the memory alone.\<close>

definition mem_is :: "memory \<Rightarrow> 'a omach_scheme \<Rightarrow> bool" where
  "mem_is m s \<longleftrightarrow> mem s = m"

interpretation mem_kept: above_output "mem_is m" for m
  by unfold_locales (simp_all add: mem_is_def)



text \<open>The date a clock register block shows, without and with conversion from BCD.\<close>

definition rtc_shows :: "(u8 \<Rightarrow> u8) \<Rightarrow> rtcdate" where
  "rtc_shows r = \<lparr>rtc_second = ucast (r 0), rtc_minute = ucast (r 2), rtc_hour = ucast (r 4), rtc_day = ucast (r 7),
     rtc_month = ucast (r 8), rtc_year = ucast (r 9)\<rparr>"

text \<open>Two-digit numbers in BCD.\<close>

definition to_bcd :: "nat \<Rightarrow> u32" where
  "to_bcd n = push_bit 4 (of_nat (n div 10)) OR of_nat (n mod 10)"

text \<open>
  Converting from binary-coded decimal inverts the encoding, for all two-digit numbers.
\<close>

theorem bcd_roundtrip:
  assumes "n < 100"
  shows "bcd_conv (to_bcd n) = of_nat n"
proof -
  have "list_all (\<lambda>n. bcd_conv (to_bcd n) = of_nat n) [0..<100]"
    by code_simp
  then show ?thesis
    using assms by (simp add: list_all_iff del: upt_rec_numeral)
qed

theorem bcd_roundtrip_witness: "bcd_conv (to_bcd 59) = 59"
  using bcd_roundtrip [of 59] by simp

lemma unat_ucast_byte: "unat (ucast (z :: u8) :: u32) = unat z"
proof -
  have "unat z < 2 ^ 32"
    using unsigned_less [of z, where ?'a = nat] by simp
  then show ?thesis
    by (simp add: unsigned_ucast_eq take_bit_nat_eq_self)
qed

lemma ucast_and_zero: "(ucast (x :: u8) :: u32) AND ucast (y :: u8) = 0 \<longleftrightarrow> x AND y = 0"
proof -
  have "(ucast x :: u32) AND ucast y = ucast (x AND y)"
    by (simp add: unsigned_and_eq)
  then show ?thesis
    by (metis unat_ucast_byte unat_eq_zero)
qed

lemma cmos_read_stable:
  assumes "\<And>n. rtc s n = r"
  shows "\<exists>s'. cmos_read reg s = Ret (ucast (r reg)) s' \<and> rtc s' = rtc s"
  using assms by (simp add: cmos_read_def outb_def run_simps)

lemma fill_rtcdate_stable:
  assumes "\<And>n. rtc s n = r"
  shows "\<exists>s'. fill_rtcdate s = Ret (rtc_shows r) s' \<and> rtc s' = rtc s"
proof -
  obtain s1 where 1: "cmos_read 0 s = Ret (ucast (r 0)) s1" "rtc s1 = rtc s"
    using cmos_read_stable [OF assms] by blast
  obtain s2 where 2: "cmos_read 2 s1 = Ret (ucast (r 2)) s2" "rtc s2 = rtc s"
    using cmos_read_stable [of s1 r 2] assms 1(2) by auto
  obtain s3 where 3: "cmos_read 4 s2 = Ret (ucast (r 4)) s3" "rtc s3 = rtc s"
    using cmos_read_stable [of s2 r 4] assms 2(2) by auto
  obtain s4 where 4: "cmos_read 7 s3 = Ret (ucast (r 7)) s4" "rtc s4 = rtc s"
    using cmos_read_stable [of s3 r 7] assms 3(2) by auto
  obtain s5 where 5: "cmos_read 8 s4 = Ret (ucast (r 8)) s5" "rtc s5 = rtc s"
    using cmos_read_stable [of s4 r 8] assms 4(2) by auto
  obtain s6 where "cmos_read 9 s5 = Ret (ucast (r 9)) s6" "rtc s6 = rtc s"
    using cmos_read_stable [of s5 r 9] assms 5(2) by auto
  then show ?thesis
    using 1 2 3 4 5 by (simp add: fill_rtcdate_def bind_run ret_run rtc_shows_def)
qed

text \<open>
  If the clock does not tick while \<open>cmostime\<close> reads it and reports no update in progress, \<open>cmostime\<close> returns after one
  round with the date the clock shows, converted from BCD when status register B says so, and with the year in the
  twenty-first century.
\<close>

theorem cmostime_stable:
  assumes "\<And>n. rtc s n = r" and "r 0x0A AND 0x80 = 0"
  shows "\<exists>s'. cmostime (Suc n) s = Ret ((let t = (if r 0x0B AND 4 = 0 then rtc_conv (rtc_shows r) else rtc_shows r)
    in t\<lparr>rtc_year := rtc_year t + 2000\<rparr>)) s'"
proof -
  have w: "(ucast (r 0x0A) :: u32) AND 0x80 = 0" "(ucast (r 0x0B) :: u32) AND 4 = 0 \<longleftrightarrow> r 0x0B AND 4 = 0"
    using ucast_and_zero [of "r 0x0A" "0x80"] ucast_and_zero [of "r 0x0B" 4] assms(2) by simp_all
  obtain s1 where 1: "cmos_read 0x0B s = Ret (ucast (r 0x0B)) s1" "rtc s1 = rtc s"
    using cmos_read_stable [OF assms(1)] by blast
  obtain s2 where 2: "fill_rtcdate s1 = Ret (rtc_shows r) s2" "rtc s2 = rtc s"
    using fill_rtcdate_stable [of s1 r] assms(1) 1(2) by auto
  obtain s3 where 3: "cmos_read 0x0A s2 = Ret (ucast (r 0x0A)) s3" "rtc s3 = rtc s"
    using cmos_read_stable [of s2 r] assms(1) 2(2) by auto
  obtain s4 where 4: "fill_rtcdate s3 = Ret (rtc_shows r) s4"
    using fill_rtcdate_stable [of s3 r] assms(1) 3(2) by auto
  show ?thesis
    using 1(1) 2(1) 3(1) 4 w by (simp add: cmostime_def bind_run ret_run Let_def)
qed

theorem cmostime_stable_witness:
  "\<exists>s'. cmostime 1 demo_hmach = Ret \<lparr>rtc_second = 12, rtc_minute = 12, rtc_hour = 12, rtc_day = 12, rtc_month = 12,
     rtc_year = 2016\<rparr> s'"
proof -
  let ?r = "\<lambda>r :: u8. if r = 0x09 then 0x16 else if r = 0x0A \<or> r = 0x0B then 0 else 0x12 :: u8"
  have "bcd_conv 0x12 = 12" "bcd_conv 0x16 = 16"
    by (simp_all add: bcd_conv_def)
  then show ?thesis
    using cmostime_stable [of demo_hmach ?r 0] by (simp add: rtc_conv_def rtc_shows_def Let_def)
qed

end
