(* ===== verification/Kbd.thy ===== *)
theory Kbd
  imports Params
begin

text \<open>
  The keyboard driver (\<open>src/kbd.c\<close>, \<open>src/kbd.h\<close>): translating scan codes to characters. The static variable
  \<open>shift\<close> is the state; what the ports deliver is the argument, \<open>None\<close> when the status port reports no data.
\<close>

section \<open>Tables\<close>

definition SHIFT :: u32 where [simp]: "SHIFT = 1"
definition CTL :: u32 where [simp]: "CTL = 2"
definition ALT :: u32 where [simp]: "ALT = 4"
definition CAPSLOCK :: u32 where [simp]: "CAPSLOCK = 8"
definition NUMLOCK :: u32 where [simp]: "NUMLOCK = 16"
definition SCROLLLOCK :: u32 where [simp]: "SCROLLLOCK = 32"
definition E0ESC :: u32 where [simp]: "E0ESC = 64"

definition shiftcode :: "u8 \<Rightarrow> u32" where
  "shiftcode d =
     (if d = 0x1D \<or> d = 0x9D then CTL
      else if d = 0x2A \<or> d = 0x36 then SHIFT
      else if d = 0x38 \<or> d = 0xB8 then ALT
      else 0)"

definition togglecode :: "u8 \<Rightarrow> u32" where
  "togglecode d =
     (if d = 0x3A then CAPSLOCK
      else if d = 0x45 then NUMLOCK
      else if d = 0x46 then SCROLLLOCK
      else 0)"

text \<open>The rows of the maps that are written out, and the entries for the extended keys that all maps share.\<close>

definition row_get :: "u8 list \<Rightarrow> u8 \<Rightarrow> u8" where
  "row_get xs d = (if unat d < length xs then xs ! unat d else 0)"

definition extended :: "u8 \<Rightarrow> u8 \<Rightarrow> u8 \<Rightarrow> u8" where
  "extended enter slash d =
     (if d = 0x9C then enter else if d = 0xB5 then slash
      else if d = 0xC8 then 0xE2 else if d = 0xD0 then 0xE3
      else if d = 0xC9 then 0xE6 else if d = 0xD1 then 0xE7
      else if d = 0xCB then 0xE4 else if d = 0xCD then 0xE5
      else if d = 0x97 then 0xE0 else if d = 0xCF then 0xE1
      else if d = 0xD2 then 0xE8 else if d = 0xD3 then 0xE9
      else 0)"

definition normal_row :: "u8 list" where
  "normal_row =
     [0, 0x1B] @ bytes ''1234567890-='' @ [8, 9] @ bytes ''qwertyuiop[]'' @ [10, 0] @ bytes ''asdfghjkl;'' @
     [39, 96, 0, 92] @ bytes ''zxcvbnm,./'' @ [0, 42, 0, 32] @ replicate 13 0 @ bytes ''789-456+1230.'' @ replicate 4 0"

definition shift_row :: "u8 list" where
  "shift_row =
     [0, 0x1B] @ bytes ''!@#$%^&*()_+'' @ [8, 9] @ bytes ''QWERTYUIOP{}'' @ [10, 0] @ bytes ''ASDFGHJKL:'' @
     [34, 126, 0, 124] @ bytes ''ZXCVBNM<>?'' @ [0, 42, 0, 32] @ replicate 13 0 @ bytes ''789-456+1230.'' @ replicate 4 0"

definition ctl_of :: "string \<Rightarrow> u8 list" where
  "ctl_of cs = map (\<lambda>c. c - 64) (bytes cs)"

definition ctl_row :: "u8 list" where
  "ctl_row =
     replicate 16 0 @ ctl_of ''QWERTYUIOP'' @ [0, 0, 13, 0] @ ctl_of ''ASDFGHJKL'' @ [0, 0, 0, 0] @ ctl_of [CHR 0x5C] @
     ctl_of ''ZXCVBNM'' @ [0, 0] @ ctl_of ''/'' @ [0, 0]"

definition normalmap :: "u8 \<Rightarrow> u8" where
  "normalmap d = (if unat d < length normal_row then row_get normal_row d else extended 10 47 d)"

definition shiftmap :: "u8 \<Rightarrow> u8" where
  "shiftmap d = (if unat d < length shift_row then row_get shift_row d else extended 10 47 d)"

definition ctlmap :: "u8 \<Rightarrow> u8" where
  "ctlmap d = (if unat d < length ctl_row then row_get ctl_row d else extended 13 (47 - 64) d)"

definition charcode :: "u32 \<Rightarrow> u8 \<Rightarrow> u8" where
  "charcode k = (if k = 0 then normalmap else if k = 1 then shiftmap else ctlmap)"

section \<open>The driver\<close>

definition capslock :: "u32 \<Rightarrow> u32" where
  "capslock c =
     (if 97 \<le> c \<and> c \<le> 122 then c + (65 - 97)
      else if 65 \<le> c \<and> c \<le> 90 then c + (97 - 65)
      else c)"

text \<open>Result of \<open>kbdgetc\<close> (\<open>-1\<close> without data) and the new value of \<open>shift\<close>.\<close>

definition kbdgetc :: "u8 option \<Rightarrow> u32 \<Rightarrow> int \<times> u32" where
  "kbdgetc port shift =
     (case port of
        None \<Rightarrow> (- 1, shift)
      | Some data \<Rightarrow>
        if data = 0xE0 then (0, shift OR E0ESC)
        else if data AND 0x80 \<noteq> 0 then
          (let data = (if shift AND E0ESC \<noteq> 0 then data else data AND 0x7F)
           in (0, shift AND NOT (shiftcode data OR E0ESC)))
        else
          (let esc = shift AND E0ESC \<noteq> 0;
               data = (if esc then data OR 0x80 else data);
               shift = (if esc then shift AND NOT E0ESC else shift);
               shift = shift OR shiftcode data;
               shift = shift XOR togglecode data;
               c = ucast (charcode (shift AND (CTL OR SHIFT)) data) :: u32
           in (uint (if shift AND CAPSLOCK \<noteq> 0 then capslock c else c), shift)))"

text \<open>The characters typed by a sequence of scan codes; the zeroes are what the console ignores.\<close>

fun kbd_run :: "u8 list \<Rightarrow> u32 \<Rightarrow> int list \<times> u32" where
  "kbd_run [] shift = ([], shift)"
| "kbd_run (d # ds) shift =
     (let (c, shift) = kbdgetc (Some d) shift; (cs, shift) = kbd_run ds shift in (c # cs, shift))"

section \<open>Properties\<close>

lemma byte_bits:
  fixes d :: u8
  assumes "d < 0x80"
  shows "(d OR 0x80) AND 0x7F = d" "(d OR 0x80) AND 0x80 \<noteq> 0" "d AND 0x80 = 0" "d OR 0x80 = 0xE0 \<longleftrightarrow> d = 0x60" "d \<noteq> 0xE0"
proof -
  have "list_all (\<lambda>k. let d = word_of_nat k :: u8 in (d OR 0x80) AND 0x7F = d \<and> (d OR 0x80) AND 0x80 \<noteq> 0 \<and> d AND 0x80 = 0 \<and>
      (d OR 0x80 = 0xE0 \<longleftrightarrow> d = 0x60) \<and> d \<noteq> 0xE0) [0..<128]"
    by code_simp
  moreover have "unat d \<in> set [0..<128]"
    using assms by (simp add: word_less_nat_alt)
  ultimately have "let d = word_of_nat (unat d) :: u8 in (d OR 0x80) AND 0x7F = d \<and> (d OR 0x80) AND 0x80 \<noteq> 0 \<and>
      d AND 0x80 = 0 \<and> (d OR 0x80 = 0xE0 \<longleftrightarrow> d = 0x60) \<and> d \<noteq> 0xE0"
    unfolding list_all_iff by blast
  then show "(d OR 0x80) AND 0x7F = d" "(d OR 0x80) AND 0x80 \<noteq> 0" "d AND 0x80 = 0" "d OR 0x80 = 0xE0 \<longleftrightarrow> d = 0x60" "d \<noteq> 0xE0"
    unfolding Let_def by simp_all
qed

lemma modifier_bits:
  fixes m x c :: u32
  assumes "m AND (e OR x) = 0" and "x AND c = 0" and "e AND c = 0"
  shows "m AND e = 0" "((m OR x) XOR c) AND NOT (x OR e) = m XOR c"
proof -
  have b: "bit m n \<Longrightarrow> \<not> bit e n \<and> \<not> bit x n" "bit x n \<Longrightarrow> \<not> bit c n" "bit e n \<Longrightarrow> \<not> bit c n" for n
    using arg_cong [OF assms(1), of "\<lambda>w. bit w n"] arg_cong [OF assms(2), of "\<lambda>w. bit w n"]
      arg_cong [OF assms(3), of "\<lambda>w. bit w n"] by (auto simp: bit_simps)
  show "m AND e = 0" "((m OR x) XOR c) AND NOT (x OR e) = m XOR c"
    by (rule bit_word_eqI, use b in \<open>auto simp: bit_simps\<close>)+
qed

text \<open>
  A key press and its release leave the modifier state as it was, except for what the lock keys toggle: the break code of a
  key clears exactly the modifier its make code has set. (The make code \<open>0x60\<close> does not exist; its break
  code would be the escape \<open>0xE0\<close>.)
\<close>

theorem key_press_release:
  assumes "d < 0x80" and "d \<noteq> 0x60" and "shift AND (E0ESC OR shiftcode d) = 0"
  shows "snd (kbd_run [d, d OR 0x80] shift) = shift XOR togglecode d"
proof -
  note b = byte_bits [OF assms(1)]
  have c: "shiftcode d AND togglecode d = 0" "E0ESC AND togglecode d = 0" "shiftcode d AND E0ESC = 0"
    by (simp_all add: shiftcode_def togglecode_def)
  note m = modifier_bits [OF assms(3) c(1,2)]
  have press: "snd (kbdgetc (Some d) shift) = (shift OR shiftcode d) XOR togglecode d"
    using b(3,5) m(1) by (simp add: kbdgetc_def Let_def)
  have "((shift OR shiftcode d) XOR togglecode d) AND E0ESC = 0"
  proof -
    have "((shift OR shiftcode d) XOR togglecode d) AND E0ESC =
        ((shift AND E0ESC) OR (shiftcode d AND E0ESC)) XOR (togglecode d AND E0ESC)"
      by (rule bit_word_eqI) (auto simp: bit_simps simp del: E0ESC_def)
    then show ?thesis
      using m(1) c by (simp add: ac_simps)
  qed
  then have "snd (kbdgetc (Some (d OR 0x80)) ((shift OR shiftcode d) XOR togglecode d)) =
      ((shift OR shiftcode d) XOR togglecode d) AND NOT (shiftcode d OR E0ESC)"
    using b assms(2) by (simp add: kbdgetc_def)
  then show ?thesis
    using press m(2) by (simp add: case_prod_beta)
qed

theorem key_press_release_witness: "snd (kbd_run [0x2A, 0x2A OR 0x80] CAPSLOCK) = CAPSLOCK"
  using key_press_release [of "0x2A" CAPSLOCK] by (simp add: shiftcode_def togglecode_def)

end
