(* ===== verification/Ring.thy ===== *)
theory Ring
  imports Params
begin

text \<open>
  Ring buffers whose indices are free-running 32-bit counters, as the pipe of \<open>src/pipe.c\<close> and the console input of
  \<open>src/console.c\<close> use them: the bytes between two counters, and what storing and removing a byte does to them. The
  size of the buffer divides the range of the counters, so a counter that wraps goes on at the right place.
\<close>

definition ring_slice :: "nat \<Rightarrow> u8 list \<Rightarrow> u32 \<Rightarrow> nat \<Rightarrow> u8 list" where
  "ring_slice N d r n = map (\<lambda>i. d ! (unat (r + of_nat i) mod N)) [0..<n]"

definition ring_size :: "nat \<Rightarrow> bool" where
  "ring_size N \<longleftrightarrow> 0 < N \<and> N dvd 4294967296"

lemma length_ring_slice [simp]: "length (ring_slice N d r n) = n"
  by (simp add: ring_slice_def)

lemma ring_index: "ring_size N \<Longrightarrow> unat (r + of_nat i :: u32) mod N = (unat r + i) mod N"
  unfolding ring_size_def by (simp add: unat_word_ariths unat_of_nat mod_mod_cancel mod_add_right_eq)

lemma ring_slice_nat: "ring_size N \<Longrightarrow> ring_slice N d r n = map (\<lambda>i. d ! ((unat r + i) mod N)) [0..<n]"
  by (simp add: ring_slice_def ring_index)

lemma mod_add_inj:
  assumes "(a + i) mod N = (a + j) mod (N :: nat)" and "i < N" and "j < N"
  shows "i = j"
proof -
  have "int N dvd int i - int j"
    using assms(1) by (metis add_diff_cancel_left mod_eq_dvd_iff of_nat_add of_nat_mod)
  moreover have "\<bar>int i - int j\<bar> < int N"
    using assms(2,3) by linarith
  ultimately show ?thesis
    using zdvd_imp_le [of "int N" "\<bar>int i - int j\<bar>"] by fastforce
qed

text \<open>Storing behind the last byte appends it.\<close>

lemma ring_push:
  assumes "ring_size N" and "length d = N" and "n < N"
  shows "ring_slice N (d[unat (r + of_nat n) mod N := c]) r (Suc n) = ring_slice N d r n @ [c]"
proof -
  have "(unat r + n) mod N < length d"
    using assms by (simp add: ring_size_def)
  moreover have "d[(unat r + n) mod N := c] ! ((unat r + i) mod N) = d ! ((unat r + i) mod N)" if "i < n" for i
    by (rule nth_list_update_neq) (use mod_add_inj [of "unat r" n N i] that assms(3) in force)
  ultimately show ?thesis
    by (simp add: ring_slice_nat [OF assms(1)] ring_index [OF assms(1)])
qed

text \<open>Advancing the lower counter removes the first byte, decreasing the upper one the last byte.\<close>

lemma ring_pop: "ring_slice N d r (Suc n) = d ! (unat r mod N) # ring_slice N d (r + 1) n"
  by (simp add: ring_slice_def upt_conv_Cons map_Suc_upt [symmetric] ac_simps del: upt_Suc)

lemma ring_unpush: "ring_slice N d r n = butlast (ring_slice N d r (Suc n))"
  by (simp add: ring_slice_def)

lemma ring_last: "last (ring_slice N d r (Suc n)) = d ! (unat (r + of_nat n) mod N)"
  by (simp add: ring_slice_def)

lemma ring_append: "ring_slice N d r (m + n) = ring_slice N d r m @ ring_slice N d (r + of_nat m) n"
proof -
  have "[0..<m + n] = [0..<m] @ map (\<lambda>i. i + m) [0..<n]"
    using upt_add_eq_append [of 0 m n] map_add_upt [of m n] by (simp add: add.commute)
  then show ?thesis
    by (simp only: ring_slice_def map_append map_map comp_def of_nat_add) (simp add: ac_simps)
qed

text \<open>The distance of two counters as a number of bytes.\<close>

lemma distance_Suc:
  fixes e r :: u32
  assumes "unat (e - r) < 4294967295"
  shows "unat (e + 1 - r) = Suc (unat (e - r))"
proof -
  have "e + 1 - r = (e - r) + 1"
    by simp
  then show ?thesis
    using assms by (simp only:) (simp add: unat_word_ariths)
qed

lemma distance_pred:
  fixes w r :: u32
  assumes "r \<noteq> w"
  shows "unat (w - (r + 1)) = unat (w - r) - 1" and "0 < unat (w - r)"
proof -
  have n: "w - r \<noteq> 0"
    using assms by simp
  have "w - (r + 1) = (w - r) - 1"
    by simp
  then show "unat (w - (r + 1)) = unat (w - r) - 1"
    using n by (simp only:) (rule unat_minus_one)
  show "0 < unat (w - r)"
    using n by (simp add: unat_gt_0)
qed

lemma distance_full: "w = r + of_nat N \<longleftrightarrow> unat (w - r :: u32) = N" if "N < 4294967296"
proof -
  have "w = r + of_nat N \<longleftrightarrow> w - r = of_nat N"
    by (simp add: algebra_simps)
  also have "\<dots> \<longleftrightarrow> unat (w - r) = N"
    using that by (auto simp: unat_of_nat word_unat_eq_iff)
  finally show ?thesis .
qed

section \<open>Queues of bytes\<close>

text \<open>What a routine that stores and removes bytes one by one relies on, and what it then achieves.\<close>

fun dequeue :: "('q \<Rightarrow> u8 \<times> 'q) \<Rightarrow> nat \<Rightarrow> 'q \<Rightarrow> u8 list \<times> 'q" where
  "dequeue get 0 q = ([], q)"
| "dequeue get (Suc n) q = (let (c, q') = get q; (cs, q'') = dequeue get n q' in (c # cs, q''))"

locale byte_queue =
  fixes ok :: "'q \<Rightarrow> bool" and contents :: "'q \<Rightarrow> u8 list" and capacity :: nat
    and put :: "u8 \<Rightarrow> 'q \<Rightarrow> 'q" and get :: "'q \<Rightarrow> u8 \<times> 'q"
  assumes put_ok: "ok q \<Longrightarrow> length (contents q) < capacity \<Longrightarrow> ok (put c q)"
    and put_contents: "ok q \<Longrightarrow> length (contents q) < capacity \<Longrightarrow> contents (put c q) = contents q @ [c]"
    and get_ok: "ok q \<Longrightarrow> contents q \<noteq> [] \<Longrightarrow> ok (snd (get q))"
    and get_contents: "ok q \<Longrightarrow> contents q \<noteq> [] \<Longrightarrow> contents q = fst (get q) # contents (snd (get q))"
begin

lemma put_all:
  "ok q \<Longrightarrow> length (contents q) + length cs \<le> capacity \<Longrightarrow>
   ok (fold put cs q) \<and> contents (fold put cs q) = contents q @ cs"
proof (induction cs arbitrary: q)
  case Nil
  then show ?case by simp
next
  case (Cons c cs)
  then have "length (contents q) < capacity"
    by simp
  with Cons.prems have "ok (put c q)" "contents (put c q) = contents q @ [c]"
    by (simp_all add: put_ok put_contents)
  with Cons show ?case by simp
qed

lemma get_all:
  "ok q \<Longrightarrow> n \<le> length (contents q) \<Longrightarrow>
   fst (dequeue get n q) = take n (contents q) \<and> ok (snd (dequeue get n q)) \<and>
   contents (snd (dequeue get n q)) = drop n (contents q)"
proof (induction n arbitrary: q)
  case 0
  then show ?case by simp
next
  case (Suc n)
  obtain c q' where g: "get q = (c, q')"
    by (cases "get q")
  have "contents q \<noteq> []"
    using Suc.prems(2) by auto
  then have "ok q'" "contents q = c # contents q'"
    using get_ok [OF Suc.prems(1)] get_contents [OF Suc.prems(1)] g by simp_all
  with Suc.IH [of q'] Suc.prems(2) show ?case
    by (simp add: g case_prod_unfold Let_def)
qed

lemma fifo:
  assumes "ok q" and "length (contents q) + length cs \<le> capacity"
  shows "fst (dequeue get (length (contents q) + length cs) (fold put cs q)) = contents q @ cs"
  using put_all [OF assms] get_all [of "fold put cs q" "length (contents q) + length cs"] by simp

end

end
