(* ===== verification/Console.thy ===== *)
theory Console
  imports Irq Kbd Ring
begin

text \<open>
  Console input (\<open>src/console.c\<close>), the receiving side of the serial port (\<open>src/uart.c\<close>) and the keyboard interrupt
  (\<open>src/kbd.c\<close>). The input buffer is a ring of \<open>INPUT_BUF\<close> bytes with three indices that run freely modulo \<open>2^32\<close>:
  \<open>r\<close> (read), \<open>w\<close> (end of the committed lines) and \<open>e\<close> (end of the line being edited). The invariant is
  \<open>w - r \<le> e - r \<le> INPUT_BUF\<close>.
\<close>

section \<open>State\<close>

definition INPUT_BUF :: nat where [simp]: "INPUT_BUF = 128"

datatype driver = ConsoleDriver

text \<open>The entries of \<open>devsw\<close> are pointers to the functions of a driver; the console is the only one.\<close>

record cmach = hmach +
  in_buf :: "u8 list"
  in_r :: u32
  in_w :: u32
  in_e :: u32
  devsw :: "(driver option \<times> driver option) list"
  kbd_shift :: u32
  kbd_in :: "u8 list"
  uart_in :: "u8 list"

section \<open>Sources of characters\<close>

text \<open>The pending bytes of the two devices; reading an empty one returns \<open>-1\<close>.\<close>

definition kbd_getc :: "('a cmach_scheme, int) op" where
  "kbd_getc =
     bind (gets (\<lambda>s. s)) (\<lambda>g.
     case kbd_in g of
       [] \<Rightarrow> ret (fst (kbdgetc None (kbd_shift g)))
     | d # ds \<Rightarrow>
       seq (modify (\<lambda>s. s\<lparr>kbd_in := ds, kbd_shift := snd (kbdgetc (Some d) (kbd_shift g))\<rparr>))
           (ret (fst (kbdgetc (Some d) (kbd_shift g)))))"

definition uartgetc :: "('a cmach_scheme, int) op" where
  "uartgetc =
     bind (gets (\<lambda>s. s)) (\<lambda>g.
     if \<not> uart g then ret (- 1)
     else
     case uart_in g of
       [] \<Rightarrow> ret (- 1)
     | d # ds \<Rightarrow> seq (modify (\<lambda>s. s\<lparr>uart_in := ds\<rparr>)) (ret (uint d)))"

section \<open>Interrupt side\<close>

definition in_at :: "'a cmach_scheme \<Rightarrow> u32 \<Rightarrow> u8" where
  "in_at s i = in_buf s ! (unat i mod INPUT_BUF)"

text \<open>The loop of control-U, for at most \<open>e - w\<close> characters.\<close>

fun kill_line :: "nat \<Rightarrow> ('a cmach_scheme, unit) op" where
  "kill_line 0 = ret ()"
| "kill_line (Suc n) =
     bind (gets (\<lambda>s. s)) (\<lambda>g.
     whenM (in_at g (in_e g - 1) \<noteq> 10)
       (seq (modify (\<lambda>s. s\<lparr>in_e := in_e s - 1\<rparr>))
       (seq (consputc BACKSPACE)
            (kill_line n))))"

text \<open>Storing a character: echo, and commit of the line if it is complete.\<close>

definition console_store :: "int \<Rightarrow> ('a cmach_scheme, unit) op" where
  "console_store c =
     seq (modify (\<lambda>s. s\<lparr>in_buf := (in_buf s)[unat (in_e s) mod INPUT_BUF := word_of_int c], in_e := in_e s + 1\<rparr>))
    (seq (consputc (word_of_int c))
    (bind (gets (\<lambda>s. s)) (\<lambda>g.
     whenM (c = 10 \<or> c = 4 \<or> in_e g = in_r g + of_nat INPUT_BUF)
       (seq (modify (\<lambda>s. s\<lparr>in_w := in_e s\<rparr>))
            (wakeup ConsChan)))))"

text \<open>One character; the result says whether it asks for the process listing.\<close>

definition console_char :: "int \<Rightarrow> ('a cmach_scheme, bool) op" where
  "console_char c =
     (if c = 16 then ret True
      else if c = 21 then
        bind (gets (\<lambda>s. s)) (\<lambda>g. seq (kill_line (unat (in_e g - in_w g))) (ret False))
      else if c = 8 \<or> c = 0x7F then
        bind (gets (\<lambda>s. s)) (\<lambda>g.
        seq (whenM (in_e g \<noteq> in_w g)
               (seq (modify (\<lambda>s. s\<lparr>in_e := in_e s - 1\<rparr>))
                    (consputc BACKSPACE)))
            (ret False))
      else
        bind (gets (\<lambda>s. s)) (\<lambda>g.
        seq (whenM (c \<noteq> 0 \<and> unat (in_e g - in_r g) < INPUT_BUF)
               (console_store (if c = 13 then 10 else c)))
            (ret False)))"

text \<open>The loop ends when \<open>getc\<close> has no more characters; \<open>n\<close> bounds their number.\<close>

fun consoleintr_loop :: "nat \<Rightarrow> ('a cmach_scheme, int) op \<Rightarrow> bool \<Rightarrow> ('a cmach_scheme, bool) op" where
  "consoleintr_loop 0 getc dump = fault"
| "consoleintr_loop (Suc n) getc dump =
     bind getc (\<lambda>c.
     if c < 0 then ret dump
     else bind (console_char c) (\<lambda>d. consoleintr_loop n getc (dump \<or> d)))"

definition consoleintr :: "nat \<Rightarrow> ('a cmach_scheme, int) op \<Rightarrow> ('a cmach_scheme, unit) op" where
  "consoleintr n getc =
     seq (acquire ConsLock)
    (bind (consoleintr_loop n getc False) (\<lambda>dump.
     seq (release ConsLock)
         (whenM dump procdump)))"

definition kbdintr :: "('a cmach_scheme, unit) op" where
  "kbdintr = bind (gets (\<lambda>s. length (kbd_in s))) (\<lambda>n. consoleintr (Suc n) kbd_getc)"

definition uartintr :: "('a cmach_scheme, unit) op" where
  "uartintr = bind (gets (\<lambda>s. length (uart_in s))) (\<lambda>n. consoleintr (Suc n) uartgetc)"

section \<open>Reading and writing the console\<close>

definition console_done :: "nat \<Rightarrow> int \<Rightarrow> u8 list \<Rightarrow> ('a cmach_scheme, int \<times> u8 list) op" where
  "console_done ip r acc =
     seq (release ConsLock)
    (seq (ilock ip)
         (ret (r, acc)))"

text \<open>
  The loop of \<open>consoleread\<close>, entered with \<open>cons.lock\<close> held: \<open>k\<close> is what is left of \<open>n\<close>, \<open>acc\<close> the bytes stored at
  \<open>dst\<close> so far. A reader that finds the buffer empty sleeps and, when it runs again, tests again.
\<close>

fun consoleread_loop :: "nat \<Rightarrow> nat \<Rightarrow> nat \<Rightarrow> u8 list \<Rightarrow> ('a cmach_scheme, int \<times> u8 list) op" where
  "consoleread_loop ip target 0 acc = console_done ip (int (length acc)) acc"
| "consoleread_loop ip target (Suc k) acc =
     bind (gets (\<lambda>s. s)) (\<lambda>g.
     if in_r g = in_w g then
       with_proc (\<lambda>p.
       bind (gets (\<lambda>s. p_killed (ptable s ! p))) (\<lambda>killed.
       if killed then console_done ip (- 1) acc
       else seq (sleep ConsChan ConsLock) swtch))
     else
     let c = in_at g (in_r g) in
     seq (modify (\<lambda>s. s\<lparr>in_r := in_r s + 1\<rparr>))
    (if c = 4 then
       seq (whenM (Suc k < target) (modify (\<lambda>s. s\<lparr>in_r := in_r s - 1\<rparr>)))
           (console_done ip (int (length acc)) acc)
     else if c = 10 then console_done ip (int (length (acc @ [c]))) (acc @ [c])
     else consoleread_loop ip target k (acc @ [c])))"

definition consoleread :: "nat \<Rightarrow> u32 \<Rightarrow> ('a cmach_scheme, int \<times> u8 list) op" where
  "consoleread ip n =
     seq (iunlock ip)
    (seq (acquire ConsLock)
         (consoleread_loop ip (nat (sint n)) (nat (sint n)) []))"

definition consolewrite :: "nat \<Rightarrow> u8 list \<Rightarrow> ('a cmach_scheme, int) op" where
  "consolewrite ip bs =
     seq (iunlock ip)
    (seq (acquire ConsLock)
    (seq (forM bs (\<lambda>c. consputc (ucast c)))
    (seq (release ConsLock)
    (seq (ilock ip)
         (ret (int (length bs)))))))"

definition consoleinit :: "('a cmach_scheme, unit) op" where
  "consoleinit =
     seq (initlock ConsLock)
    (seq (modify (\<lambda>s. s\<lparr>devsw := (devsw s)[1 := (Some ConsoleDriver, Some ConsoleDriver)]\<rparr>))
    (seq (modify (\<lambda>s. s\<lparr>cons_locking := True\<rparr>))
    (seq (picenable IRQ_KBD)
         (ioapicenable IRQ_KBD 0))))"

text \<open>
  The line status register of the serial port is an argument of \<open>uartinit\<close>; the bytes of the greeting go to the transmit
  register.
\<close>

definition uartinit :: "u8 \<Rightarrow> ('a cmach_scheme, unit) op" where
  "uartinit lsr =
     seq (forM [(0x3FA, 0), (0x3FB, 0x80), (0x3F8, 12), (0x3F9, 0), (0x3FB, 3), (0x3FC, 0), (0x3F9, 1)] (\<lambda>(p, d). outb p d))
    (if lsr = 0xFF then ret ()
     else
     seq (modify (\<lambda>s. s\<lparr>uart := True\<rparr>))
    (seq (picenable IRQ_COM1)
    (seq (ioapicenable IRQ_COM1 0)
         (forM (bytes ''xv6...'' @ [10]) (\<lambda>c. uartputc (ucast c))))))"

section \<open>The input ring\<close>

text \<open>The indices of the ring, and the two contents it represents: the committed input and the line being edited.\<close>

definition input_ok :: "'a cmach_scheme \<Rightarrow> bool" where
  "input_ok s \<longleftrightarrow> length (in_buf s) = INPUT_BUF \<and> unat (in_w s - in_r s) \<le> unat (in_e s - in_r s) \<and>
     unat (in_e s - in_r s) \<le> INPUT_BUF"

definition committed :: "'a cmach_scheme \<Rightarrow> u8 list" where
  "committed s = ring_slice INPUT_BUF (in_buf s) (in_r s) (unat (in_w s - in_r s))"

definition editing :: "'a cmach_scheme \<Rightarrow> u8 list" where
  "editing s = ring_slice INPUT_BUF (in_buf s) (in_w s) (unat (in_e s - in_w s))"

text \<open>All bytes of the ring, committed ones first.\<close>

definition pending :: "'a cmach_scheme \<Rightarrow> u8 list" where
  "pending s = ring_slice INPUT_BUF (in_buf s) (in_r s) (unat (in_e s - in_r s))"

lemma ring_size_input: "ring_size INPUT_BUF"
  by (simp add: ring_size_def)

lemma pending_parts:
  assumes "input_ok s"
  shows "committed s = take (unat (in_w s - in_r s)) (pending s)" and "editing s = drop (unat (in_w s - in_r s)) (pending s)"
    and "length (committed s) = unat (in_w s - in_r s)" and "length (pending s) = unat (in_e s - in_r s)"
    and "unat (in_e s - in_w s) = unat (in_e s - in_r s) - unat (in_w s - in_r s)" and "pending s = committed s @ editing s"
proof -
  let ?a = "unat (in_w s - in_r s)"
  have "in_w s - in_r s \<le> in_e s - in_r s"
    using assms by (simp add: input_ok_def word_le_nat_alt)
  from unat_sub [OF this] show d: "unat (in_e s - in_w s) = unat (in_e s - in_r s) - ?a"
    by simp
  have "?a + unat (in_e s - in_w s) = unat (in_e s - in_r s)"
    using assms d by (simp add: input_ok_def)
  then have p: "pending s = committed s @ editing s"
    using ring_append [of INPUT_BUF "in_buf s" "in_r s" ?a "unat (in_e s - in_w s)"]
    by (simp add: pending_def committed_def editing_def)
  have l: "length (committed s) = ?a"
    by (simp add: committed_def)
  show "pending s = committed s @ editing s" "length (committed s) = ?a"
    using p l by simp_all
  show "length (pending s) = unat (in_e s - in_r s)"
    by (simp add: pending_def)
  show "committed s = take ?a (pending s)" "editing s = drop ?a (pending s)"
    using p l by simp_all
qed

lemma editing_empty: "input_ok s \<Longrightarrow> in_e s = in_w s \<longleftrightarrow> editing s = []"
proof -
  have "editing s = [] \<longleftrightarrow> unat (in_e s - in_w s) = 0"
    by (metis editing_def length_0_conv length_ring_slice)
  then show ?thesis
    by (auto simp: unat_eq_0)
qed

text \<open>The effect of the three updates of the ring on what it represents.\<close>

lemma erase_last:
  assumes "input_ok s" and "in_e s \<noteq> in_w s" and "t = s\<lparr>in_e := in_e s - 1\<rparr>"
  shows "input_ok t" and "committed t = committed s" and "editing t = butlast (editing s)"
    and "last (editing s) = in_at s (in_e s - 1)"
proof -
  let ?a = "unat (in_w s - in_r s)" and ?n = "unat (in_e s - in_r s)"
  have "?a \<noteq> ?n"
    using assms(2) by (simp add: word_unat_eq_iff [symmetric])
  then have lt: "?a < ?n"
    using assms(1) by (simp add: input_ok_def)
  then have "in_e s - in_r s \<noteq> 0"
    by auto
  then have n: "unat (in_e t - in_r t) = ?n - 1"
    using unat_minus_one [of "in_e s - in_r s"] by (simp add: assms(3) algebra_simps)
  show ok: "input_ok t"
    using assms lt n by (auto simp: input_ok_def)
  have "pending t = butlast (pending s)"
    using ring_unpush [of INPUT_BUF "in_buf s" "in_r s" "?n - 1"] n lt by (simp add: pending_def assms(3))
  moreover have ne: "editing s \<noteq> []"
    using editing_empty [OF assms(1)] assms(2) by blast
  ultimately have p: "pending t = committed s @ butlast (editing s)"
    using pending_parts(6) [OF assms(1)] by (simp add: butlast_append)
  have "in_w t = in_w s" "in_r t = in_r s"
    by (simp_all add: assms(3))
  then show "committed t = committed s" "editing t = butlast (editing s)"
    using pending_parts(1,2) [OF ok] p pending_parts(3) [OF assms(1)] by simp_all
  have "in_e s - 1 = in_r s + of_nat (?n - 1)"
    using lt by (simp add: of_nat_diff)
  then show "last (editing s) = in_at s (in_e s - 1)"
    using ring_last [of INPUT_BUF "in_buf s" "in_r s" "?n - 1"] lt ne pending_parts(6) [OF assms(1)]
    by (simp add: in_at_def pending_def)
qed

lemma store_char:
  assumes "input_ok s" and "unat (in_e s - in_r s) < INPUT_BUF"
    and "t = s\<lparr>in_buf := (in_buf s)[unat (in_e s) mod INPUT_BUF := c], in_e := in_e s + 1\<rparr>"
  shows "input_ok t" and "committed t = committed s" and "editing t = editing s @ [c]"
    and "in_e t = in_r t + of_nat INPUT_BUF \<longleftrightarrow> length (pending s) + 1 = INPUT_BUF"
proof -
  let ?a = "unat (in_w s - in_r s)" and ?n = "unat (in_e s - in_r s)"
  have n: "unat (in_e t - in_r t) = Suc ?n"
    using distance_Suc [of "in_e s" "in_r s"] assms(2) by (simp add: assms(3))
  show ok: "input_ok t"
    using assms n by (simp add: input_ok_def)
  have "in_e s = in_r s + of_nat ?n"
    by simp
  then have "pending t = pending s @ [c]"
    using ring_push [OF ring_size_input _ assms(2), of "in_buf s" "in_r s" c] assms(1) n
    by (simp add: pending_def assms(3) input_ok_def)
  then have p: "pending t = committed s @ editing s @ [c]"
    using pending_parts(6) [OF assms(1)] by simp
  have "in_w t = in_w s" "in_r t = in_r s"
    by (simp_all add: assms(3))
  then show "committed t = committed s" "editing t = editing s @ [c]"
    using pending_parts(1,2) [OF ok] p pending_parts(3) [OF assms(1)] by simp_all
  show "in_e t = in_r t + of_nat INPUT_BUF \<longleftrightarrow> length (pending s) + 1 = INPUT_BUF"
    using distance_full [of INPUT_BUF "in_e t" "in_r t"] n pending_parts(4) [OF assms(1)] by (simp add: eq_commute)
qed

lemma commit_line:
  assumes "input_ok s" and "t = s\<lparr>in_w := in_e s\<rparr>"
  shows "input_ok t" and "committed t = committed s @ editing s" and "editing t = []"
proof -
  show ok: "input_ok t"
    using assms by (simp add: input_ok_def)
  show "editing t = []"
    using editing_empty [OF ok] by (simp add: assms(2))
  then show "committed t = committed s @ editing s"
    using pending_parts(6) [OF ok] pending_parts(6) [OF assms(1)] by (simp add: pending_def assms(2))
qed

section \<open>Line editing\<close>

text \<open>
  What one character does to the committed input and the line being edited, seen from the keyboard: control-U drops the line,
  backspace its last character; other characters are appended if there is room, and a newline, control-D or a full
  buffer commits the line.
\<close>

definition line_edit :: "int \<Rightarrow> u8 list \<times> u8 list \<Rightarrow> u8 list \<times> u8 list" where
  "line_edit c = (\<lambda>(com, ed).
     if c = 16 then (com, ed)
     else if c = 21 then (com, [])
     else if c = 8 \<or> c = 0x7F then (com, butlast ed)
     else if c = 0 \<or> length com + length ed \<ge> INPUT_BUF then (com, ed)
     else
     let ed' = ed @ [if c = 13 then 10 else word_of_int c] in
     if c = 10 \<or> c = 13 \<or> c = 4 \<or> length com + length ed' = INPUT_BUF then (com @ ed', []) else (com, ed'))"

definition line_ok :: "'a cmach_scheme \<Rightarrow> bool" where
  "line_ok s \<longleftrightarrow> input_ok s \<and> 10 \<notin> set (editing s)"

text \<open>Output does not touch the ring.\<close>

lemma printed_ring:
  assumes "printed cs s t"
  shows "input_ok t = input_ok s" "committed t = committed s" "editing t = editing s" "ptable t = ptable s" "in_w t = in_w s"
    "in_r t = in_r s" "in_e t = in_e s" "locks t = locks s" "mycpu t = mycpu s" "line_ok t = line_ok s" "in_buf t = in_buf s"
  using assms by (auto simp: printed_def input_ok_def committed_def editing_def line_ok_def)

lemma kill_line_run:
  assumes "line_ok s" and "screen_ok s" and "n = length (editing s)"
  shows "\<exists>s'. kill_line n s = Ret () s' \<and> line_ok s' \<and> screen_ok s' \<and> committed s' = committed s \<and> editing s' = [] \<and>
    ptable s' = ptable s"
  using assms
proof (induction n arbitrary: s)
  case 0
  then show ?case by (simp add: run_simps)
next
  case (Suc n)
  let ?t = "s\<lparr>in_e := in_e s - 1\<rparr>"
  have ok: "input_ok s" "10 \<notin> set (editing s)" "editing s \<noteq> []"
    using Suc.prems by (auto simp: line_ok_def)
  then have "in_e s \<noteq> in_w s"
    using editing_empty by blast
  note er = erase_last [OF ok(1) this refl]
  have nl: "in_at s (in_e s - 1) \<noteq> 10"
    using er(4) ok(2,3) last_in_set by metis
  have "screen_ok ?t"
    using Suc.prems(2) by (simp add: screen_ok_def)
  then obtain u where u: "consputc BACKSPACE ?t = Ret () u" "printed (echo BACKSPACE) ?t u"
    using consputc_run by blast
  note pr = printed_ring [OF u(2)]
  have "line_ok u" "length (editing u) = n"
    using er ok Suc.prems(3) pr by (auto simp: line_ok_def dest: in_set_butlastD)
  from Suc.IH [OF this(1) printed_screen [OF u(2)] this(2) [symmetric]] obtain s' where
    "kill_line n u = Ret () s'" "line_ok s'" "screen_ok s'" "committed s' = committed u" "editing s' = []" "ptable s' = ptable u"
    by blast
  then show ?case
    using nl u pr er by (simp add: run_simps)
qed

lemma console_store_run:
  assumes "line_ok s" and "screen_ok s" and "calm PtableLock s" and "length (committed s) + length (editing s) < INPUT_BUF"
    and "word_of_int c \<noteq> (10 :: u8) \<or> c = 10"
  defines "b \<equiv> word_of_int c"
  defines "full \<equiv> c = 10 \<or> c = 4 \<or> length (committed s) + length (editing s @ [b]) = INPUT_BUF"
  shows "\<exists>s'. console_store c s = Ret () s' \<and> line_ok s' \<and>
    committed s' = (if full then committed s @ editing s @ [b] else committed s) \<and>
    editing s' = (if full then [] else editing s @ [b]) \<and>
    ptable s' = (if full then map (wake_proc ConsChan) (ptable s) else ptable s)"
proof -
  let ?t = "s\<lparr>in_buf := (in_buf s)[unat (in_e s) mod INPUT_BUF := b], in_e := in_e s + 1\<rparr>"
  have ok: "input_ok s" "10 \<notin> set (editing s)"
    using assms(1) by (simp_all add: line_ok_def)
  have len: "length (pending s) = length (committed s) + length (editing s)"
    using pending_parts(6) [OF ok(1)] by simp
  then have "unat (in_e s - in_r s) < INPUT_BUF"
    using pending_parts(4) [OF ok(1)] assms(4) by simp
  note st = store_char [OF ok(1) this refl, of b]
  have "screen_ok ?t"
    using assms(2) by (simp add: screen_ok_def)
  then obtain u where u: "consputc (word_of_int c) ?t = Ret () u" "printed (echo (word_of_int c)) ?t u"
    using consputc_run by blast
  note pr = printed_ring [OF u(2)]
  have full: "(c = 10 \<or> c = 4 \<or> in_e u = in_r u + of_nat INPUT_BUF) = full"
    using st(4) len by (auto simp: full_def pr)
  have run: "console_store c s = whenM full (seq (modify (\<lambda>s. s\<lparr>in_w := in_e s\<rparr>)) (wakeup ConsChan)) u"
    unfolding console_store_def full [symmetric] using u(1) by (simp add: run_simps b_def)
  show ?thesis
  proof (cases full)
    case True
    let ?v = "u\<lparr>in_w := in_e u\<rparr>" and ?s' = "(settled (u\<lparr>in_w := in_e u\<rparr>))\<lparr>ptable := map (wake_proc ConsChan) (ptable u)\<rparr>"
    have cl: "input_ok ?v" "committed ?v = committed s @ editing s @ [b]" "editing ?v = []"
      using commit_line [of u ?v] st pr by simp_all
    have "calm PtableLock ?v"
      using assms(3) pr by (simp add: calm_def)
    then have "console_store c s = Ret () ?s'"
      using wakeup_run [of ?v ConsChan] True by (simp add: run run_simps)
    moreover have "input_ok ?s' = input_ok ?v" "committed ?s' = committed ?v" "editing ?s' = editing ?v"
      by (simp_all add: input_ok_def committed_def editing_def settled_def)
    ultimately show ?thesis
      using True cl pr by (simp add: line_ok_def)
  next
    case False
    then have "b \<noteq> 10"
      using assms(5) by (auto simp: full_def b_def)
    then show ?thesis
      using False st pr ok by (simp add: run run_simps line_ok_def)
  qed
qed

lemma byte_10: "0 \<le> c \<Longrightarrow> c < 256 \<Longrightarrow> word_of_int c = (10 :: u8) \<longleftrightarrow> c = 10"
  by (simp add: word_uint_eq_iff unsigned_of_int take_bit_int_eq_self)

text \<open>
  C29: Console input is edited a line at a time. Whatever character arrives, \<open>consoleintr\<close> does to the ring buffer exactly what the
  line editor above does to the committed input and the current line, the 32-bit indices wrapping included; a line
  becomes readable only as a whole, and exactly then the processes waiting for input are woken.
\<close>

theorem console_line_editing:
  assumes "line_ok s" and "screen_ok s" and "calm PtableLock s" and "0 \<le> c" and "c < 256"
  shows "\<exists>s'. console_char c s = Ret (c = 16) s' \<and> line_ok s' \<and>
    (committed s', editing s') = line_edit c (committed s, editing s) \<and>
    ptable s' = (if committed s' = committed s then ptable s else map (wake_proc ConsChan) (ptable s))"
proof -
  have ok: "input_ok s" "10 \<notin> set (editing s)"
    using assms(1) by (simp_all add: line_ok_def)
  have le: "unat (in_e s - in_w s) = length (editing s)"
    by (simp add: editing_def)
  consider "c = 16" | "c = 21" | "c = 8 \<or> c = 0x7F" | "c = 0 \<or> length (committed s) + length (editing s) \<ge> INPUT_BUF" "c \<notin> {16, 21, 8, 0x7F}"
    | "c \<notin> {16, 21, 8, 0x7F, 0}" "length (committed s) + length (editing s) < INPUT_BUF"
    by force
  then show ?thesis
  proof cases
    case 1
    then show ?thesis
      using assms(1) by (simp add: console_char_def run_simps line_edit_def)
  next
    case 2
    then show ?thesis
      using kill_line_run [OF assms(1,2) refl] by (auto simp: console_char_def run_simps line_edit_def le)
  next
    case 3
    show ?thesis
    proof (cases "in_e s = in_w s")
      case True
      then show ?thesis
        using 3 assms(1) editing_empty [OF ok(1)] by (auto simp: console_char_def run_simps line_edit_def)
    next
      case False
      note er = erase_last [OF ok(1) False refl]
      have "screen_ok (s\<lparr>in_e := in_e s - 1\<rparr>)"
        using assms(2) by (simp add: screen_ok_def)
      then obtain u where u: "consputc BACKSPACE (s\<lparr>in_e := in_e s - 1\<rparr>) = Ret () u"
        "printed (echo BACKSPACE) (s\<lparr>in_e := in_e s - 1\<rparr>) u"
        using consputc_run by blast
      have "line_ok u"
        using er ok printed_ring [OF u(2)] by (auto simp: line_ok_def dest: in_set_butlastD)
      then show ?thesis
        using 3 False u er printed_ring [OF u(2)] by (auto simp: console_char_def run_simps line_edit_def)
    qed
  next
    case 4
    then have "c = 0 \<or> \<not> unat (in_e s - in_r s) < INPUT_BUF"
      using pending_parts(4,6) [OF ok(1)] by auto
    then show ?thesis
      using 4 assms(1) by (auto simp: console_char_def run_simps line_edit_def)
  next
    case 5
    let ?c = "if c = 13 then 10 else c"
    have "unat (in_e s - in_r s) < INPUT_BUF"
      using pending_parts(4,6) [OF ok(1)] 5 by simp
    then have run: "console_char c s = seq (console_store ?c) (ret False) s"
      using 5(1) by (simp add: console_char_def run_simps)
    have "word_of_int ?c \<noteq> (10 :: u8) \<or> ?c = 10"
      using byte_10 [OF assms(4,5)] by auto
    from console_store_run [OF assms(1-3) 5(2) this] obtain s' where s': "console_store ?c s = Ret () s'" "line_ok s'"
      "(committed s', editing s') = line_edit c (committed s, editing s)"
      "ptable s' = (if committed s' = committed s then ptable s else map (wake_proc ConsChan) (ptable s))"
      using 5 by (fastforce simp: line_edit_def Let_def split: if_splits)
    then show ?thesis
      using 5(1) by (intro exI [of _ s']) (auto simp: run run_simps)
  qed
qed

text \<open>A machine whose ring indices are about to wrap, holding the beginning of a line.\<close>

definition demo_cmach :: cmach where
  "demo_cmach = (hmach.extend demo_hmach \<lparr>in_buf = (replicate 128 0)[126 := 0x68], in_r = - 2, in_w = - 2, in_e = - 1,
     devsw = replicate 10 (None, None), kbd_shift = 0, kbd_in = [], uart_in = []\<rparr>)\<lparr>locks := \<lambda>_. unlocked,
     mycpu := \<lparr>cpu_id = 0, ncli = 0, intena = False, iflag = False\<rparr>, crtc_pos := 0, panicked := False\<rparr>"

lemma demo_cmach_sel [simp]:
  "locks demo_cmach = (\<lambda>_. unlocked)" "mycpu demo_cmach = \<lparr>cpu_id = 0, ncli = 0, intena = False, iflag = False\<rparr>"
  "crtc_pos demo_cmach = 0" "\<not> panicked demo_cmach" "in_buf demo_cmach = (replicate 128 0)[126 := 0x68]"
  "in_r demo_cmach = - 2" "in_w demo_cmach = - 2" "in_e demo_cmach = - 1"
  by (simp_all add: demo_cmach_def hmach.defs)

lemma demo_cmach_ok: "line_ok demo_cmach" "screen_ok demo_cmach" "calm l demo_cmach" "committed demo_cmach = []"
  "editing demo_cmach = [0x68]"
proof -
  have u: "unat (- 2 :: u32) mod 128 = 126"
    by simp
  show e: "editing demo_cmach = [0x68]" "committed demo_cmach = []"
    using u by (simp_all add: editing_def committed_def ring_slice_def)
  show "line_ok demo_cmach" "screen_ok demo_cmach" "calm l demo_cmach"
    by (simp_all add: line_ok_def input_ok_def e screen_ok_def calm_def cpu_ok_def)
qed

theorem console_line_editing_witness:
  "\<exists>s'. console_char 10 demo_cmach = Ret False s' \<and> committed s' = [0x68, 10] \<and> editing s' = [] \<and>
    ptable s' = map (wake_proc ConsChan) (ptable demo_cmach)"
  using console_line_editing [of demo_cmach 10] by (auto simp: demo_cmach_ok line_edit_def)

end
