(* ===== verification/Fs.thy ===== *)
theory Fs
  imports Console
begin

text \<open>
  The upper layers of the file system (\<open>src/fs.c\<close>): reading and writing the contents of an inode, directories and
  path names. A destination buffer is the list of bytes returned, a source buffer a list of bytes. Names and paths are lists of
  bytes without the terminating zero.
\<close>

section \<open>Contents of a file\<close>

text \<open>The pieces within one block each into which the loops of \<open>readi\<close> and \<open>writei\<close> divide a range: offset and length.\<close>

function chunks :: "nat \<Rightarrow> nat \<Rightarrow> (nat \<times> nat) list" where
  "chunks off n =
     (if n = 0 then []
      else let m = min n (BSIZE - off mod BSIZE) in (off, m) # chunks (off + m) (n - m))"
  by pat_completeness auto

termination chunks
  by (relation "measure snd") (auto simp: Let_def min_def)

declare chunks.simps [simp del]

fun readi_loop :: "nat \<Rightarrow> (nat \<times> nat) list \<Rightarrow> ('a imach_scheme, u8 list) op" where
  "readi_loop i [] = ret []"
| "readi_loop i ((off, m) # cs) =
     bind (get_inode i) (\<lambda>ip.
     bind (bmap i (of_nat (off div BSIZE))) (\<lambda>addr.
     bind (bread (i_dev ip) addr) (\<lambda>bp.
     bind (get_data bp) (\<lambda>d.
     seq (brelse bp)
    (bind (readi_loop i cs) (\<lambda>rest.
     ret (take m (drop (off mod BSIZE) d) @ rest)))))))"

definition dev_ok :: "inode \<Rightarrow> bool" where
  "dev_ok ip \<longleftrightarrow> 0 \<le> sint (i_major ip) \<and> sint (i_major ip) < int NDEV"

definition readi :: "nat \<Rightarrow> u32 \<Rightarrow> u32 \<Rightarrow> ('a cmach_scheme, int \<times> u8 list) op" where
  "readi i off n =
     bind (get_inode i) (\<lambda>ip.
     if i_type ip = T_DEV then
       bind (gets devsw) (\<lambda>dv.
       if \<not> dev_ok ip then ret (- 1, [])
       else
       case fst (dv ! unat (i_major ip)) of
         None \<Rightarrow> ret (- 1, [])
       | Some ConsoleDriver \<Rightarrow> consoleread i n)
     else if off > i_size ip \<or> off + n < off then ret (- 1, [])
     else
     let n = (if off + n > i_size ip then i_size ip - off else n) in
     bind (readi_loop i (chunks (unat off) (unat n))) (\<lambda>bs.
     ret (uint n, bs)))"

fun writei_loop :: "nat \<Rightarrow> (nat \<times> nat) list \<Rightarrow> u8 list \<Rightarrow> ('a imach_scheme, unit) op" where
  "writei_loop i [] src = ret ()"
| "writei_loop i ((off, m) # cs) src =
     bind (get_inode i) (\<lambda>ip.
     bind (bmap i (of_nat (off div BSIZE))) (\<lambda>addr.
     bind (bread (i_dev ip) addr) (\<lambda>bp.
     bind (get_data bp) (\<lambda>d.
     seq (set_data bp (overlay d (off mod BSIZE) (take m src)))
    (seq (log_write bp)
    (seq (brelse bp)
         (writei_loop i cs (drop m src))))))))"

text \<open>The number of bytes to write is the length of the source.\<close>

definition writei :: "nat \<Rightarrow> u8 list \<Rightarrow> u32 \<Rightarrow> ('a cmach_scheme, int) op" where
  "writei i src off =
     bind (get_inode i) (\<lambda>ip.
     let n = of_nat (length src) :: u32 in
     if i_type ip = T_DEV then
       bind (gets devsw) (\<lambda>dv.
       if \<not> dev_ok ip then ret (- 1)
       else
       case snd (dv ! unat (i_major ip)) of
         None \<Rightarrow> ret (- 1)
       | Some ConsoleDriver \<Rightarrow> consolewrite i src)
     else if off > i_size ip \<or> off + n < off then ret (- 1)
     else if unat (off + n) > MAXFILE * BSIZE then ret (- 1)
     else
     seq (writei_loop i (chunks (unat off) (length src)) src)
    (bind (get_inode i) (\<lambda>ip.
     seq (whenM (n > 0 \<and> off + n > i_size ip)
            (seq (upd_inode i (i_size_update (\<lambda>_. off + n)))
                 (iupdate i)))
         (ret (int (length src))))))"

section \<open>Directories\<close>

definition namecmp :: "u8 list \<Rightarrow> u8 list \<Rightarrow> int" where
  "namecmp s t = strncmp s t DIRSIZ"

definition de_inum :: "u8 list \<Rightarrow> u16" where
  "de_inum de = get16 de 0"

definition de_name :: "u8 list \<Rightarrow> u8 list" where
  "de_name de = take DIRSIZ (drop 2 de)"

text \<open>The offsets of the entries of a directory of the given size.\<close>

definition de_offs :: "u32 \<Rightarrow> nat list" where
  "de_offs sz = map (\<lambda>k. k * DIRENT_SIZE) [0..<(unat sz + DIRENT_SIZE - 1) div DIRENT_SIZE]"

text \<open>The result of \<open>dirlookup\<close> is the inode with the offset of its entry.\<close>

fun dirlookup_loop :: "nat \<Rightarrow> u8 list \<Rightarrow> nat list \<Rightarrow> ('a cmach_scheme, (nat \<times> nat) option) op" where
  "dirlookup_loop dp name [] = ret None"
| "dirlookup_loop dp name (off # offs) =
     bind (readi dp (of_nat off) (of_nat DIRENT_SIZE)) (\<lambda>(r, de).
     if r \<noteq> int DIRENT_SIZE then panic ''dirlink read''
     else if de_inum de = 0 then dirlookup_loop dp name offs
     else if namecmp name (de_name de) = 0 then
       bind (get_inode dp) (\<lambda>d.
       bind (iget (i_dev d) (ucast (de_inum de))) (\<lambda>ip.
       ret (Some (ip, off))))
     else dirlookup_loop dp name offs)"

definition dirlookup :: "nat \<Rightarrow> u8 list \<Rightarrow> ('a cmach_scheme, (nat \<times> nat) option) op" where
  "dirlookup dp name =
     bind (get_inode dp) (\<lambda>d.
     if i_type d \<noteq> T_DIR then panic ''dirlookup not DIR''
     else dirlookup_loop dp name (de_offs (i_size d)))"

text \<open>The offset of the first free entry, or behind the last one.\<close>

fun dirlink_loop :: "nat \<Rightarrow> nat list \<Rightarrow> nat \<Rightarrow> ('a cmach_scheme, nat) op" where
  "dirlink_loop dp [] off0 = ret off0"
| "dirlink_loop dp (off # offs) off0 =
     bind (readi dp (of_nat off) (of_nat DIRENT_SIZE)) (\<lambda>(r, de).
     if r \<noteq> int DIRENT_SIZE then panic ''dirlink read''
     else if de_inum de = 0 then ret off
     else dirlink_loop dp offs (off + DIRENT_SIZE))"

definition dirlink :: "nat \<Rightarrow> u8 list \<Rightarrow> u32 \<Rightarrow> ('a cmach_scheme, int) op" where
  "dirlink dp name inum =
     bind (dirlookup dp name) (\<lambda>found.
     case found of
       Some (ip, _) \<Rightarrow> seq (iput ip) (ret (- 1))
     | None \<Rightarrow>
       bind (get_inode dp) (\<lambda>d.
       bind (dirlink_loop dp (de_offs (i_size d)) 0) (\<lambda>off.
       bind (writei dp (le16 (ucast inum) @ strncpy name DIRSIZ) (of_nat off)) (\<lambda>r.
       if r \<noteq> int DIRENT_SIZE then panic ''dirlink'' else ret 0))))"

section \<open>Paths\<close>

definition SLASH :: u8 where [simp]: "SLASH = 47"

text \<open>
  The name buffer is written up to and including a terminating zero if the element is shorter than \<open>DIRSIZ\<close>; without the
  zero it is the element cut off after \<open>DIRSIZ\<close> bytes.
\<close>

definition skipelem :: "u8 list \<Rightarrow> (u8 list \<times> u8 list) option" where
  "skipelem path =
     (let path = dropWhile (\<lambda>c. c = SLASH) path in
      if path = [] then None
      else
      let elem = takeWhile (\<lambda>c. c \<noteq> SLASH) path;
          path = dropWhile (\<lambda>c. c \<noteq> SLASH) path;
          name = take DIRSIZ elem
      in Some (name, dropWhile (\<lambda>c. c = SLASH) path))"

lemma skipelem_shorter: "skipelem path = Some (name, rest) \<Longrightarrow> length rest < length path"
proof -
  assume s: "skipelem path = Some (name, rest)"
  define p where "p = dropWhile (\<lambda>c. c = SLASH) path"
  have p: "p \<noteq> []" "rest = dropWhile (\<lambda>c. c = SLASH) (dropWhile (\<lambda>c. c \<noteq> SLASH) p)" "hd p \<noteq> SLASH"
    using s hd_dropWhile [of "\<lambda>c. c = SLASH" path] by (auto simp: skipelem_def p_def Let_def split: if_splits)
  have "length rest \<le> length (dropWhile (\<lambda>c. c \<noteq> SLASH) p)"
    unfolding p(2) by (rule length_dropWhile_le)
  also have "\<dots> < length p"
    using p(1,3) by (cases p) (auto simp: le_imp_less_Suc length_dropWhile_le)
  also have "\<dots> \<le> length path"
    unfolding p_def by (rule length_dropWhile_le)
  finally show ?thesis .
qed

text \<open>The successive results of \<open>skipelem\<close>: each element, and whether the rest of the path is empty.\<close>

function path_elems :: "u8 list \<Rightarrow> (u8 list \<times> bool) list" where
  "path_elems path =
     (case skipelem path of
        None \<Rightarrow> []
      | Some (name, rest) \<Rightarrow> (name, rest = []) # path_elems rest)"
  by pat_completeness auto

termination path_elems
  by (relation "measure length") (auto dest: skipelem_shorter)

declare path_elems.simps [simp del]

text \<open>
  The loop of \<open>namex\<close> over the elements of the path. The result is the inode with the last element copied to \<open>name\<close> (the
  empty name if there was none).
\<close>

fun namex_loop :: "(u8 list \<times> bool) list \<Rightarrow> bool \<Rightarrow> nat \<Rightarrow> u8 list \<Rightarrow> ('a cmach_scheme, (nat \<times> u8 list) option) op" where
  "namex_loop [] parent ip name0 =
     (if parent then seq (iput ip) (ret None) else ret (Some (ip, name0)))"
| "namex_loop ((name, final) # es) parent ip name0 =
     seq (ilock ip)
    (bind (get_inode ip) (\<lambda>d.
     if i_type d \<noteq> T_DIR then seq (iunlockput ip) (ret None)
     else if parent \<and> final then seq (iunlock ip) (ret (Some (ip, name)))
     else
     bind (dirlookup ip name) (\<lambda>found.
     case found of
       None \<Rightarrow> seq (iunlockput ip) (ret None)
     | Some (nxt, _) \<Rightarrow> seq (iunlockput ip) (namex_loop es parent nxt name))))"

definition namex :: "u8 list \<Rightarrow> bool \<Rightarrow> ('a cmach_scheme, (nat \<times> u8 list) option) op" where
  "namex path parent =
     bind (if path \<noteq> [] \<and> hd path = SLASH then iget ROOTDEV ROOTINO
           else with_proc (\<lambda>p.
             bind (gets (\<lambda>s. p_cwd (ptable s ! p))) (\<lambda>cwd.
             case cwd of None \<Rightarrow> fault | Some c \<Rightarrow> idup c))) (\<lambda>ip.
     namex_loop (path_elems path) parent ip [])"

definition namei :: "u8 list \<Rightarrow> ('a cmach_scheme, nat option) op" where
  "namei path = bind (namex path False) (\<lambda>r. ret (map_option fst r))"

definition nameiparent :: "u8 list \<Rightarrow> ('a cmach_scheme, (nat \<times> u8 list) option) op" where
  "nameiparent path = namex path True"

end
