(* ===== verification/File.thy ===== *)
theory File
  imports Fs
begin

text \<open>
  Pipes (\<open>src/pipe.c\<close>) and the table of open files (\<open>src/file.c\<close>, \<open>src/file.h\<close>). A pipe lives in a page of its own and is
  known by the address of that page; a pointer to an open file is its index in the table. Data read from or written to a
  file is a list of bytes.
\<close>

section \<open>State\<close>

definition PIPESIZE :: nat where [simp]: "PIPESIZE = 512"

record pipe =
  pi_data :: "u8 list"
  pi_nread :: u32
  pi_nwrite :: u32
  pi_readopen :: bool
  pi_writeopen :: bool

datatype fdtype = FD_NONE | FD_PIPE | FD_INODE

record openfile =
  f_type :: fdtype
  f_ref :: int
  f_readable :: bool
  f_writable :: bool
  f_pipe :: u32
  f_ip :: nat
  f_off :: u32

record fmach = cmach +
  pipes :: "u32 \<Rightarrow> pipe"
  ftable :: "openfile list"

definition upd_pipe :: "u32 \<Rightarrow> (pipe \<Rightarrow> pipe) \<Rightarrow> ('a fmach_scheme, unit) op" where
  "upd_pipe p f = modify (\<lambda>s. s\<lparr>pipes := (pipes s)(p := f (pipes s p))\<rparr>)"

definition get_pipe :: "u32 \<Rightarrow> ('a fmach_scheme, pipe) op" where
  "get_pipe p = gets (\<lambda>s. pipes s p)"

definition upd_file :: "nat \<Rightarrow> (openfile \<Rightarrow> openfile) \<Rightarrow> ('a fmach_scheme, unit) op" where
  "upd_file i f = modify (\<lambda>s. s\<lparr>ftable := (ftable s)[i := f (ftable s ! i)]\<rparr>)"

definition get_file :: "nat \<Rightarrow> ('a fmach_scheme, openfile) op" where
  "get_file i = gets (\<lambda>s. ftable s ! i)"

definition proc_killed :: "('a pmach_scheme, bool) op" where
  "proc_killed = with_proc (\<lambda>p. gets (\<lambda>s. p_killed (ptable s ! p)))"

section \<open>Pipes\<close>

definition pipeclose :: "u32 \<Rightarrow> bool \<Rightarrow> ('a fmach_scheme, unit) op" where
  "pipeclose p writable =
     seq (acquire (PipeLock p))
    (seq (if writable then
            seq (upd_pipe p (pi_writeopen_update (\<lambda>_. False)))
                (wakeup (PipeReadChan p))
          else
            seq (upd_pipe p (pi_readopen_update (\<lambda>_. False)))
                (wakeup (PipeWriteChan p)))
    (bind (get_pipe p) (\<lambda>pp.
     if \<not> pi_readopen pp \<and> \<not> pi_writeopen pp then
       seq (release (PipeLock p)) (kfree p)
     else release (PipeLock p))))"

text \<open>One byte into, and one byte out of, the ring.\<close>

definition pipe_put :: "u8 \<Rightarrow> pipe \<Rightarrow> pipe" where
  "pipe_put c pp = pp\<lparr>pi_data := (pi_data pp)[unat (pi_nwrite pp) mod PIPESIZE := c], pi_nwrite := pi_nwrite pp + 1\<rparr>"

definition pipe_get :: "pipe \<Rightarrow> u8 \<times> pipe" where
  "pipe_get pp = (pi_data pp ! (unat (pi_nread pp) mod PIPESIZE), pp\<lparr>pi_nread := pi_nread pp + 1\<rparr>)"

text \<open>
  The loop of \<open>pipewrite\<close> over the bytes still to be written, entered with the pipe's lock held; \<open>n\<close> is the total. A writer that
  finds the pipe full wakes the readers, sleeps, and tests again when it runs again.
\<close>

fun pipewrite_loop :: "u32 \<Rightarrow> int \<Rightarrow> u8 list \<Rightarrow> ('a fmach_scheme, int) op" where
  "pipewrite_loop p n [] =
     seq (wakeup (PipeReadChan p))
    (seq (release (PipeLock p))
         (ret n))"
| "pipewrite_loop p n (c # cs) =
     bind (get_pipe p) (\<lambda>pp.
     if pi_nwrite pp = pi_nread pp + of_nat PIPESIZE then
       bind (if \<not> pi_readopen pp then ret True else proc_killed) (\<lambda>stop.
       if stop then seq (release (PipeLock p)) (ret (- 1))
       else
       seq (wakeup (PipeReadChan p))
      (seq (sleep (PipeWriteChan p) (PipeLock p))
            swtch))
     else
     seq (upd_pipe p (pipe_put c))
         (pipewrite_loop p n cs))"

text \<open>\<open>bs\<close> holds the \<open>n\<close> bytes to write; it is empty when \<open>n\<close> is negative, and the result is still \<open>n\<close>.\<close>

definition pipewrite :: "u32 \<Rightarrow> u8 list \<Rightarrow> int \<Rightarrow> ('a fmach_scheme, int) op" where
  "pipewrite p bs n = seq (acquire (PipeLock p)) (pipewrite_loop p n bs)"

fun piperead_copy :: "u32 \<Rightarrow> nat \<Rightarrow> ('a fmach_scheme, u8 list) op" where
  "piperead_copy p 0 = ret []"
| "piperead_copy p (Suc k) =
     bind (get_pipe p) (\<lambda>pp.
     if pi_nread pp = pi_nwrite pp then ret []
     else
     seq (upd_pipe p (\<lambda>pp. snd (pipe_get pp)))
    (bind (piperead_copy p k) (\<lambda>cs.
     ret (fst (pipe_get pp) # cs))))"

text \<open>\<open>piperead\<close> after the lock is acquired. A reader that finds the pipe empty sleeps and tests again.\<close>

definition piperead_loop :: "u32 \<Rightarrow> int \<Rightarrow> ('a fmach_scheme, int \<times> u8 list) op" where
  "piperead_loop p n =
     bind (get_pipe p) (\<lambda>pp.
     if pi_nread pp = pi_nwrite pp \<and> pi_writeopen pp then
       bind proc_killed (\<lambda>killed.
       if killed then seq (release (PipeLock p)) (ret (- 1, []))
       else seq (sleep (PipeReadChan p) (PipeLock p)) swtch)
     else
     bind (piperead_copy p (nat n)) (\<lambda>cs.
     seq (wakeup (PipeWriteChan p))
    (seq (release (PipeLock p))
         (ret (int (length cs), cs)))))"

definition piperead :: "u32 \<Rightarrow> int \<Rightarrow> ('a fmach_scheme, int \<times> u8 list) op" where
  "piperead p n = seq (acquire (PipeLock p)) (piperead_loop p n)"

section \<open>Open files\<close>

definition fileinit :: "('a fmach_scheme, unit) op" where
  "fileinit = initlock FtableLock"

definition filealloc :: "('a fmach_scheme, nat option) op" where
  "filealloc =
     seq (acquire FtableLock)
    (bind (gets (\<lambda>s. findi (\<lambda>f. f_ref f = 0) (ftable s))) (\<lambda>found.
     case found of
       Some i \<Rightarrow>
         seq (upd_file i (f_ref_update (\<lambda>_. 1)))
        (seq (release FtableLock)
             (ret (Some i)))
     | None \<Rightarrow> seq (release FtableLock) (ret None)))"

definition filedup :: "nat \<Rightarrow> ('a fmach_scheme, nat) op" where
  "filedup i =
     seq (acquire FtableLock)
    (bind (get_file i) (\<lambda>f.
     if f_ref f < 1 then panic ''filedup''
     else
     seq (upd_file i (\<lambda>f. f\<lparr>f_ref := f_ref f + 1\<rparr>))
    (seq (release FtableLock)
         (ret i))))"

definition fileclose :: "nat \<Rightarrow> ('a fmach_scheme, unit) op" where
  "fileclose i =
     seq (acquire FtableLock)
    (bind (get_file i) (\<lambda>f.
     if f_ref f < 1 then panic ''fileclose''
     else
     seq (upd_file i (\<lambda>f. f\<lparr>f_ref := f_ref f - 1\<rparr>))
    (if f_ref f - 1 > 0 then release FtableLock
     else
     bind (get_file i) (\<lambda>ff.
     seq (upd_file i (\<lambda>f. f\<lparr>f_ref := 0, f_type := FD_NONE\<rparr>))
    (seq (release FtableLock)
    (case f_type ff of
       FD_PIPE \<Rightarrow> pipeclose (f_pipe ff) (f_writable ff)
     | FD_INODE \<Rightarrow> seq begin_op (seq (iput (f_ip ff)) end_op)
     | FD_NONE \<Rightarrow> ret ()))))))"

definition filestat :: "nat \<Rightarrow> ('a fmach_scheme, stat option) op" where
  "filestat i =
     bind (get_file i) (\<lambda>f.
     if f_type f = FD_INODE then
       seq (ilock (f_ip f))
      (bind (stati (f_ip f)) (\<lambda>st.
       seq (iunlock (f_ip f))
           (ret (Some st))))
     else ret None)"

definition fileread :: "nat \<Rightarrow> int \<Rightarrow> ('a fmach_scheme, int \<times> u8 list) op" where
  "fileread i n =
     bind (get_file i) (\<lambda>f.
     if \<not> f_readable f then ret (- 1, [])
     else
     case f_type f of
       FD_PIPE \<Rightarrow> piperead (f_pipe f) n
     | FD_INODE \<Rightarrow>
       seq (ilock (f_ip f))
      (bind (readi (f_ip f) (f_off f) (word_of_int n)) (\<lambda>(r, bs).
       seq (whenM (r > 0) (upd_file i (\<lambda>f. f\<lparr>f_off := f_off f + word_of_int r\<rparr>)))
      (seq (iunlock (f_ip f))
           (ret (r, bs)))))
     | FD_NONE \<Rightarrow> panic ''fileread'')"

text \<open>The largest piece \<open>filewrite\<close> writes in one transaction.\<close>

definition filewrite_max :: nat where
  "filewrite_max = ((LOGSIZE - 1 - 1 - 2) div 2) * 512"

fun filewrite_loop :: "nat \<Rightarrow> nat \<Rightarrow> u8 list \<Rightarrow> ('a fmach_scheme, bool) op" where
  "filewrite_loop 0 i bs = ret (bs = [])"
| "filewrite_loop (Suc k) i bs =
     (if bs = [] then ret True
      else
      let piece = take filewrite_max bs in
      bind (get_file i) (\<lambda>f.
      seq begin_op
     (seq (ilock (f_ip f))
     (bind (writei (f_ip f) piece (f_off f)) (\<lambda>r.
      seq (whenM (r > 0) (upd_file i (\<lambda>f. f\<lparr>f_off := f_off f + word_of_int r\<rparr>)))
     (seq (iunlock (f_ip f))
     (seq end_op
     (if r < 0 then ret False
      else if r \<noteq> int (length piece) then panic ''short filewrite''
      else filewrite_loop k i (drop filewrite_max bs)))))))))"

text \<open>One iteration per piece; there are never more pieces than bytes.\<close>

definition filewrite :: "nat \<Rightarrow> u8 list \<Rightarrow> int \<Rightarrow> ('a fmach_scheme, int) op" where
  "filewrite i bs n =
     bind (get_file i) (\<lambda>f.
     if \<not> f_writable f then ret (- 1)
     else
     case f_type f of
       FD_PIPE \<Rightarrow> pipewrite (f_pipe f) bs n
     | FD_INODE \<Rightarrow>
       bind (filewrite_loop (length bs) i bs) (\<lambda>ok.
       ret (if ok \<and> int (length bs) = n then n else - 1))
     | FD_NONE \<Rightarrow> panic ''filewrite'')"

section \<open>Creating a pipe\<close>

definition pipealloc_bad :: "u32 \<Rightarrow> nat option \<Rightarrow> nat option \<Rightarrow> ('a fmach_scheme, (nat \<times> nat) option) op" where
  "pipealloc_bad p f0 f1 =
     seq (whenM (p \<noteq> 0) (kfree p))
    (seq (case f0 of None \<Rightarrow> ret () | Some i \<Rightarrow> fileclose i)
    (seq (case f1 of None \<Rightarrow> ret () | Some i \<Rightarrow> fileclose i)
         (ret None)))"

text \<open>The data bytes of a fresh pipe are whatever \<open>kalloc\<close> left in the page; they are read only after being written.\<close>

definition pipealloc :: "('a fmach_scheme, (nat \<times> nat) option) op" where
  "pipealloc =
     bind filealloc (\<lambda>f0.
     case f0 of
       None \<Rightarrow> pipealloc_bad 0 None None
     | Some i0 \<Rightarrow>
       bind filealloc (\<lambda>f1.
       case f1 of
         None \<Rightarrow> pipealloc_bad 0 (Some i0) None
       | Some i1 \<Rightarrow>
         bind kalloc (\<lambda>p.
         if p = 0 then pipealloc_bad 0 (Some i0) (Some i1)
         else
         bind (gets mem) (\<lambda>m.
         seq (upd_pipe p (\<lambda>_. \<lparr>pi_data = map (\<lambda>k. m (p + 52 + of_nat k)) [0..<PIPESIZE], pi_nread = 0, pi_nwrite = 0,
                pi_readopen = True, pi_writeopen = True\<rparr>))
        (seq (initlock (PipeLock p))
        (seq (upd_file i0 (\<lambda>f. f\<lparr>f_type := FD_PIPE, f_readable := True, f_writable := False, f_pipe := p\<rparr>))
        (seq (upd_file i1 (\<lambda>f. f\<lparr>f_type := FD_PIPE, f_readable := False, f_writable := True, f_pipe := p\<rparr>))
             (ret (Some (i0, i1))))))))))"

section \<open>Pipes are queues\<close>

text \<open>The bytes in a pipe, oldest first.\<close>

definition pipe_ok :: "pipe \<Rightarrow> bool" where
  "pipe_ok pp \<longleftrightarrow> length (pi_data pp) = PIPESIZE \<and> unat (pi_nwrite pp - pi_nread pp) \<le> PIPESIZE"

definition pipe_bytes :: "pipe \<Rightarrow> u8 list" where
  "pipe_bytes pp = ring_slice PIPESIZE (pi_data pp) (pi_nread pp) (unat (pi_nwrite pp - pi_nread pp))"

lemma ring_size_pipe: "ring_size PIPESIZE"
  by (simp add: ring_size_def)

lemma pipe_full: "pi_nwrite pp = pi_nread pp + of_nat PIPESIZE \<longleftrightarrow> length (pipe_bytes pp) = PIPESIZE"
  unfolding pipe_bytes_def length_ring_slice by (rule distance_full) simp

lemma pipe_empty: "pi_nread pp = pi_nwrite pp \<longleftrightarrow> pipe_bytes pp = []"
proof -
  have "pipe_bytes pp = [] \<longleftrightarrow> unat (pi_nwrite pp - pi_nread pp) = 0"
    by (metis length_0_conv length_ring_slice pipe_bytes_def)
  then show ?thesis
    by (auto simp: unat_eq_0)
qed

lemma pipe_put_open [simp]:
  "pi_readopen (pipe_put c pp) = pi_readopen pp" "pi_writeopen (pipe_put c pp) = pi_writeopen pp"
  by (simp_all add: pipe_put_def)

interpretation pq: byte_queue pipe_ok pipe_bytes PIPESIZE pipe_put pipe_get
proof
  fix pp c
  assume ok: "pipe_ok pp"
  let ?n = "unat (pi_nwrite pp - pi_nread pp)"
  have w: "pi_nwrite pp = pi_nread pp + of_nat ?n"
    by simp
  show "pipe_ok (pipe_put c pp)" and "pipe_bytes (pipe_put c pp) = pipe_bytes pp @ [c]"
    if lt: "length (pipe_bytes pp) < PIPESIZE"
  proof -
    have n: "?n < PIPESIZE"
      using lt by (simp only: pipe_bytes_def length_ring_slice)
    then have d: "unat (pi_nwrite pp + 1 - pi_nread pp) = Suc ?n"
      by (intro distance_Suc) simp
    show "pipe_ok (pipe_put c pp)"
      using ok n d by (simp add: pipe_ok_def pipe_put_def)
    show "pipe_bytes (pipe_put c pp) = pipe_bytes pp @ [c]"
      using ring_push [OF ring_size_pipe _ n, of "pi_data pp" "pi_nread pp" c] ok d w
      by (simp add: pipe_bytes_def pipe_put_def pipe_ok_def)
  qed
  assume ne: "pipe_bytes pp \<noteq> []"
  then have "pi_nread pp \<noteq> pi_nwrite pp"
    by (simp add: pipe_empty)
  note p = distance_pred [OF this]
  show "pipe_ok (snd (pipe_get pp))"
    using ok p by (auto simp: pipe_ok_def pipe_get_def)
  show "pipe_bytes pp = fst (pipe_get pp) # pipe_bytes (snd (pipe_get pp))"
    using ring_pop [of PIPESIZE "pi_data pp" "pi_nread pp" "?n - 1"] p
    by (simp add: pipe_bytes_def pipe_get_def)
qed

lemma fold_pipe_put_open [simp]:
  "pi_readopen (fold pipe_put cs pp) = pi_readopen pp" "pi_writeopen (fold pipe_put cs pp) = pi_writeopen pp"
  by (induction cs arbitrary: pp) simp_all

lemma dequeue_open [simp]:
  "pi_readopen (snd (dequeue pipe_get n pp)) = pi_readopen pp"
  "pi_writeopen (snd (dequeue pipe_get n pp)) = pi_writeopen pp"
  by (induction n arbitrary: pp) (simp_all add: pipe_get_def case_prod_unfold Let_def)

section \<open>Executing the operations\<close>

definition set_pipe :: "u32 \<Rightarrow> pipe \<Rightarrow> 'a fmach_scheme \<Rightarrow> 'a fmach_scheme" where
  "set_pipe p pp s = s\<lparr>pipes := (pipes s)(p := pp)\<rparr>"

lemma set_pipe_sel [simp]:
  "pipes (set_pipe p pp s) q = (if q = p then pp else pipes s q)" "locks (set_pipe p pp s) = locks s"
  "mycpu (set_pipe p pp s) = mycpu s" "ptable (set_pipe p pp s) = ptable s" "ftable (set_pipe p pp s) = ftable s"
  "curproc (set_pipe p pp s) = curproc s" "mem (set_pipe p pp s) = mem s"
  by (simp_all add: set_pipe_def)

lemma set_pipe_twice [simp]: "set_pipe p pp (set_pipe p qq s) = set_pipe p pp s" "set_pipe p (pipes s p) s = s"
  by (simp_all add: set_pipe_def)

text \<open>Updates of the fields of an upper layer are moved inside those of a lower one.\<close>

named_theorems layers "commuting the updates of different layers of the state"

lemma pipes_layer [layers]:
  "set_pipe p pp (locks_update g s) = locks_update g (set_pipe p pp s)"
  "set_pipe p pp (mycpu_update h s) = mycpu_update h (set_pipe p pp s)"
  "set_pipe p pp (ptable_update k s) = ptable_update k (set_pipe p pp s)"
  by (cases s; simp add: set_pipe_def)+

lemma ptable_layer [layers]:
  "ptable_update f (locks_update g s) = locks_update g (ptable_update f s)"
  "ptable_update f (mycpu_update h s) = mycpu_update h (ptable_update f s)"
  by (cases s; simp)+

lemma ftable_layer [layers]:
  "ftable_update f (locks_update g s) = locks_update g (ftable_update f s)"
  "ftable_update f (mycpu_update h s) = mycpu_update h (ftable_update f s)"
  "ftable_update f (ptable_update k s) = ptable_update k (ftable_update f s)"
  by (cases s; simp)+

lemma pipe_ops_run [run_simps]:
  "upd_pipe p f s = Ret () (set_pipe p (f (pipes s p)) s)" "get_pipe p s = Ret (pipes s p) s"
  "upd_file i g s = Ret () (s\<lparr>ftable := (ftable s)[i := g (ftable s ! i)]\<rparr>)" "get_file i s = Ret (ftable s ! i) s"
  by (simp_all add: upd_pipe_def get_pipe_def upd_file_def get_file_def set_pipe_def run_simps)

lemma pipewrite_loop_run:
  assumes "pipe_ok (pipes s p)" and "length (pipe_bytes (pipes s p)) + length cs \<le> PIPESIZE"
  shows "pipewrite_loop p n (cs @ ds) s = pipewrite_loop p n ds (set_pipe p (fold pipe_put cs (pipes s p)) s)"
  using assms
proof (induction cs arbitrary: s)
  case Nil
  then show ?case by simp
next
  case (Cons c cs)
  let ?s = "set_pipe p (pipe_put c (pipes s p)) s"
  have lt: "length (pipe_bytes (pipes s p)) < PIPESIZE"
    using Cons.prems(2) by simp
  then have "pi_nwrite (pipes s p) \<noteq> pi_nread (pipes s p) + of_nat PIPESIZE"
    unfolding pipe_full by simp
  then have "pipewrite_loop p n ((c # cs) @ ds) s = pipewrite_loop p n (cs @ ds) ?s"
    by (simp add: run_simps)
  also have "\<dots> = pipewrite_loop p n ds (set_pipe p (fold pipe_put cs (pipes ?s p)) ?s)"
    using Cons.prems pq.put_ok [OF Cons.prems(1) lt] pq.put_contents [OF Cons.prems(1) lt]
    by (intro Cons.IH) simp_all
  finally show ?case by (simp del: pipewrite_loop.simps)
qed

lemma piperead_copy_run:
  assumes "pipe_ok (pipes s p)"
  shows "piperead_copy p n s =
    (let k = min n (length (pipe_bytes (pipes s p)))
     in Ret (fst (dequeue pipe_get k (pipes s p))) (set_pipe p (snd (dequeue pipe_get k (pipes s p))) s))"
  using assms(1)
proof (induction n arbitrary: s)
  case 0
  then show ?case by (simp add: run_simps Let_def)
next
  case (Suc n)
  show ?case
  proof (cases "pipe_bytes (pipes s p) = []")
    case True
    then show ?thesis
      using pipe_empty [of "pipes s p"] by (simp add: run_simps Let_def)
  next
    case False
    let ?s = "set_pipe p (snd (pipe_get (pipes s p))) s"
    have "pipe_bytes (pipes s p) = fst (pipe_get (pipes s p)) # pipe_bytes (pipes ?s p)"
      using pq.get_contents [OF Suc.prems False] by simp
    then have len: "length (pipe_bytes (pipes s p)) = Suc (length (pipe_bytes (pipes ?s p)))"
      by (metis length_Cons)
    have "pi_nread (pipes s p) \<noteq> pi_nwrite (pipes s p)"
      using False by (simp add: pipe_empty)
    then show ?thesis
      using Suc.IH [of ?s] pq.get_ok [OF Suc.prems False] len
      by (simp add: run_simps case_prod_unfold Let_def)
  qed
qed

text \<open>A transfer that does not block: the pipe's lock and the process table are free.\<close>

lemma pipewrite_run:
  assumes ok: "pipe_ok (pipes s p)" and space: "length (pipe_bytes (pipes s p)) + length bs \<le> PIPESIZE"
    and calm: "calm (PipeLock p) s" "calm PtableLock s"
  shows "pipewrite p bs n s =
    Ret n (settled ((set_pipe p (fold pipe_put bs (pipes s p)) s)\<lparr>ptable := map (wake_proc (PipeReadChan p)) (ptable s)\<rparr>))"
proof -
  have "(locks s)(PipeLock p := unlocked) = locks s"
    using calm(1) by (simp add: calm_def fun_upd_idem)
  then show ?thesis
    using calm pipewrite_loop_run [of "acquired (PipeLock p) s" p bs n "[]"] ok space
    by (simp add: pipewrite_def run_simps calm_def wakeup_run release_run released_def cpu_pop_push acquired_def settled_def cpu_ok_def layers)
qed

lemma piperead_run:
  assumes ok: "pipe_ok (pipes s p)" and ready: "pipe_bytes (pipes s p) \<noteq> [] \<or> \<not> pi_writeopen (pipes s p)"
    and calm: "calm (PipeLock p) s" "calm PtableLock s"
    and k: "k = min (nat n) (length (pipe_bytes (pipes s p)))"
  shows "piperead p n s =
    Ret (int k, take k (pipe_bytes (pipes s p))) (settled ((set_pipe p (snd (dequeue pipe_get k (pipes s p))) s)\<lparr>ptable := map (wake_proc (PipeWriteChan p)) (ptable s)\<rparr>))"
proof -
  have l: "(locks s)(PipeLock p := unlocked) = locks s"
    using calm(1) by (simp add: calm_def fun_upd_idem)
  have "\<not> (pi_nread (pipes s p) = pi_nwrite (pipes s p) \<and> pi_writeopen (pipes s p))"
    using ready by (auto simp: pipe_empty)
  moreover have "fst (dequeue pipe_get k (pipes s p)) = take k (pipe_bytes (pipes s p))"
    using pq.get_all [OF ok, of k] by (simp add: k)
  ultimately show ?thesis
    using calm piperead_copy_run [of "acquired (PipeLock p) s" p "nat n"] ok l
    unfolding piperead_def piperead_loop_def
    by (cases "pi_nread (pipes s p) = pi_nwrite (pipes s p)")
      (simp_all add: run_simps calm_def wakeup_run release_run released_def cpu_pop_push acquired_def settled_def
        cpu_ok_def k Let_def layers)
qed

text \<open>A writer that finds the pipe full: it wakes the readers and sleeps, with the pipe's lock free.\<close>

lemma pipewrite_full_run:
  assumes ok: "pipe_ok (pipes s p)" and full: "length (pipe_bytes (pipes s p)) + length cs = PIPESIZE"
    and calm: "calm (PipeLock p) s" "calm PtableLock s" and cpu: "ncli (mycpu s) = 0"
    and me: "curproc s = Some i" "i < length (ptable s)" "\<not> p_killed (ptable s ! i)" and op: "pi_readopen (pipes s p)"
    and awake: "p_state (ptable s ! i) = RUNNING"
  shows "pipewrite p (cs @ d # ds) n s = Switch ((set_pipe p (fold pipe_put cs (pipes s p)) s)\<lparr>
    ptable := (map (wake_proc (PipeReadChan p)) (ptable s))[i := asleep (PipeWriteChan p) (ptable s ! i)],
    locks := (locks s)(PtableLock := locked_by (cpu_id (mycpu s))), mycpu := cpu_push (mycpu s)\<rparr>)"
proof -
  let ?a = "acquired (PipeLock p) s" and ?pp = "fold pipe_put cs (pipes s p)"
  let ?b = "(set_pipe p ?pp ?a)\<lparr>ptable := map (wake_proc (PipeReadChan p)) (ptable s)\<rparr>"
  have lp: "(locks s)(PipeLock p := unlocked) = locks s"
    using calm(1) by (simp add: calm_def fun_upd_idem)
  have a: "locks ?a (PipeLock p) = locked_by (cpu_id (mycpu s))" "locks ?a PtableLock = unlocked"
    "mycpu ?a = cpu_push (mycpu s)" "curproc ?a = Some i" "ptable ?a = ptable s" "pipes ?a = pipes s"
    using calm me by (simp_all add: calm_def acquired_def)
  have "pipe_bytes ?pp = pipe_bytes (pipes s p) @ cs"
    using pq.put_all [OF ok] full by simp
  then have "pi_nwrite ?pp = pi_nread ?pp + of_nat PIPESIZE"
    using full unfolding pipe_full by simp
  moreover have "wakeup (PipeReadChan p) (set_pipe p ?pp ?a) = Ret () ?b"
    using calm cpu wakeup_run [of "set_pipe p ?pp ?a" "PipeReadChan p"]
    by (simp add: calm_def a settled_def)
  moreover have wk: "wake_proc (PipeReadChan p) (ptable s ! i) = ptable s ! i"
    using awake by (simp add: wake_proc_def)
  then have "sleep (PipeWriteChan p) (PipeLock p) ?b = Switch (?b\<lparr>
      locks := (locks ?b)(PtableLock := locked_by (cpu_id (mycpu ?b)), PipeLock p := unlocked),
      ptable := (ptable ?b)[i := asleep (PipeWriteChan p) (ptable ?b ! i)]\<rparr>)"
    using cpu me by (intro sleep_run) (simp_all add: a)
  moreover have "pipewrite_loop p n (cs @ d # ds) ?a = pipewrite_loop p n (d # ds) (set_pipe p ?pp ?a)"
    using pipewrite_loop_run [of ?a p cs n "d # ds"] ok full by (simp add: a)
  moreover have "proc_killed (set_pipe p ?pp ?a) = Ret False (set_pipe p ?pp ?a)"
    using me by (simp add: proc_killed_def with_proc_def run_simps a)
  ultimately show ?thesis
    using calm_acquire [OF calm(1)] op me wk lp
    by (simp add: pipewrite_def run_simps a layers acquired_def fun_upd_twist)
qed

section \<open>Properties\<close>

definition demo_file :: openfile where
  "demo_file = \<lparr>f_type = FD_NONE, f_ref = 0, f_readable = False, f_writable = False, f_pipe = 0, f_ip = 0, f_off = 0\<rparr>"

text \<open>A machine with a pipe whose counters are about to wrap and a running process.\<close>

definition demo_pipe :: pipe where
  "demo_pipe = \<lparr>pi_data = replicate 512 0, pi_nread = 0xFFFFFFFF, pi_nwrite = 0xFFFFFFFF, pi_readopen = True, pi_writeopen = True\<rparr>"

definition demo_fmach :: fmach where
  "demo_fmach = (cmach.extend (hmach.extend demo_hmach \<lparr>in_buf = replicate 128 0, in_r = 0, in_w = 0, in_e = 0,
       devsw = replicate 10 (None, None), kbd_shift = 0, kbd_in = [], uart_in = []\<rparr>)
     \<lparr>pipes = (\<lambda>_. demo_pipe), ftable = replicate 100 demo_file\<rparr>)
     \<lparr>locks := \<lambda>_. unlocked, mycpu := \<lparr>cpu_id = 0, ncli = 0, intena = False, iflag = False\<rparr>,
      ptable := [fresh_proc, fresh_proc\<lparr>p_state := RUNNING\<rparr>], curproc := Some 1\<rparr>"

lemma demo_fmach_sel [simp]:
  "locks demo_fmach l = unlocked" "mycpu demo_fmach = \<lparr>cpu_id = 0, ncli = 0, intena = False, iflag = False\<rparr>"
  "pipes demo_fmach p = demo_pipe" "ftable demo_fmach = replicate 100 demo_file" "curproc demo_fmach = Some 1"
  "ptable demo_fmach = [fresh_proc, fresh_proc\<lparr>p_state := RUNNING\<rparr>]"
  by (simp_all add: demo_fmach_def cmach.defs hmach.defs)

lemma demo_fmach_calm [simp]: "calm l demo_fmach"
  by (simp add: calm_def cpu_ok_def)

lemma demo_pipe_ok [simp]: "pipe_ok demo_pipe" "pipe_bytes demo_pipe = []"
  by (simp_all add: pipe_ok_def pipe_bytes_def demo_pipe_def ring_slice_def)

lemma piperead_gives:
  assumes "pipe_ok (pipes s p)" and "pipe_bytes (pipes s p) \<noteq> [] \<or> \<not> pi_writeopen (pipes s p)"
    and "calm (PipeLock p) s" and "calm PtableLock s"
  shows "\<exists>s'. piperead p n s =
      Ret (int (min (nat n) (length (pipe_bytes (pipes s p)))), take (nat n) (pipe_bytes (pipes s p))) s' \<and>
    pipe_ok (pipes s' p) \<and> pipe_bytes (pipes s' p) = drop (nat n) (pipe_bytes (pipes s p)) \<and>
    ptable s' = map (wake_proc (PipeWriteChan p)) (ptable s)"
proof -
  let ?k = "min (nat n) (length (pipe_bytes (pipes s p)))"
  have "take ?k (pipe_bytes (pipes s p)) = take (nat n) (pipe_bytes (pipes s p))"
    "drop ?k (pipe_bytes (pipes s p)) = drop (nat n) (pipe_bytes (pipes s p))"
    by (auto simp: min_def)
  then show ?thesis
    using piperead_run [OF assms refl, of n] pq.get_all [OF assms(1), of ?k] by (simp add: settled_def)
qed

text \<open>
  C26: A pipe is a first-in first-out queue of bytes, also when its 32-bit counters wrap. Writing bytes for which there is room
  returns at once and appends them to what the pipe holds, leaving the other pipes alone; reading \<open>m\<close> bytes then returns
  the oldest \<open>m\<close> bytes, or all there are, and leaves the rest.
\<close>

theorem pipe_fifo:
  assumes "pipe_ok (pipes s p)" and "length (pipe_bytes (pipes s p)) + length bs \<le> PIPESIZE"
    and "calm (PipeLock p) s" and "calm PtableLock s" and "bs \<noteq> []"
  shows "\<exists>s'. pipewrite p bs n s = Ret n s' \<and> pipe_ok (pipes s' p) \<and> pipe_bytes (pipes s' p) = pipe_bytes (pipes s p) @ bs \<and>
    (\<forall>q. q \<noteq> p \<longrightarrow> pipes s' q = pipes s q) \<and>
    (\<forall>m. \<exists>s''. piperead p m s' =
        Ret (int (min (nat m) (length (pipe_bytes (pipes s p) @ bs))), take (nat m) (pipe_bytes (pipes s p) @ bs)) s'' \<and>
      pipe_ok (pipes s'' p) \<and> pipe_bytes (pipes s'' p) = drop (nat m) (pipe_bytes (pipes s p) @ bs))"
proof -
  let ?s = "settled ((set_pipe p (fold pipe_put bs (pipes s p)) s)\<lparr>ptable := map (wake_proc (PipeReadChan p)) (ptable s)\<rparr>)"
  have w: "pipe_ok (pipes ?s p)" "pipe_bytes (pipes ?s p) = pipe_bytes (pipes s p) @ bs"
    using pq.put_all [OF assms(1,2)] by (simp_all add: settled_def)
  have c: "calm (PipeLock p) ?s" "calm PtableLock ?s" "\<forall>q. q \<noteq> p \<longrightarrow> pipes ?s q = pipes s q"
    using assms(3,4) by (simp_all add: settled_def calm_def)
  have ne: "pipe_bytes (pipes ?s p) \<noteq> [] \<or> \<not> pi_writeopen (pipes ?s p)"
    using assms(5) w(2) by simp
  have "\<exists>s''. piperead p m ?s =
        Ret (int (min (nat m) (length (pipe_bytes (pipes s p) @ bs))), take (nat m) (pipe_bytes (pipes s p) @ bs)) s'' \<and>
      pipe_ok (pipes s'' p) \<and> pipe_bytes (pipes s'' p) = drop (nat m) (pipe_bytes (pipes s p) @ bs)" for m
    using piperead_gives [OF w(1) ne c(1,2), of m] unfolding w(2) by blast
  then show ?thesis
    using pipewrite_run [OF assms(1-4), of n] w c(3) by blast
qed

theorem pipe_fifo_witness:
  "\<exists>s'. pipewrite 0x80400000 [1, 2, 3] 3 demo_fmach = Ret 3 s' \<and> pipe_bytes (pipes s' 0x80400000) = [1, 2, 3] \<and>
    (\<exists>s''. piperead 0x80400000 2 s' = Ret (2, [1, 2]) s'' \<and> pipe_bytes (pipes s'' 0x80400000) = [3])"
proof -
  obtain s' where "pipewrite 0x80400000 [1, 2, 3] 3 demo_fmach = Ret 3 s'" "pipe_bytes (pipes s' 0x80400000) = [1, 2, 3]"
    and r: "\<And>m. \<exists>s''. piperead 0x80400000 m s' = Ret (int (min (nat m) (Suc (Suc (Suc 0)))), take (nat m) [1, 2, 3]) s'' \<and>
      pipe_bytes (pipes s'' 0x80400000) = drop (nat m) [1, 2, 3]"
    using pipe_fifo [of demo_fmach "0x80400000" "[1, 2, 3]" 3] by auto blast
  with r [of 2] show ?thesis
    by (auto simp: numeral_2_eq_2)
qed

text \<open>
  C27: Pipes lose no wakeup. A process that writes more than fits fills the pipe, and gives up the processor asleep on the
  pipe's write channel, with the pipe's lock free. Whatever else has run meanwhile, as long as the process still sleeps there, any \<open>read\<close>
  from the pipe takes out at least one byte and makes the writer runnable again.
\<close>

theorem pipe_writer_woken:
  assumes "pipe_ok (pipes s p)" and "length (pipe_bytes (pipes s p)) + length bs > PIPESIZE"
    and "calm (PipeLock p) s" and "calm PtableLock s" and "ncli (mycpu s) = 0" and "curproc s = Some i"
    and "i < length (ptable s)" and "p_state (ptable s ! i) = RUNNING" and "\<not> p_killed (ptable s ! i)" and "pi_readopen (pipes s p)"
  shows "\<exists>s'. pipewrite p bs n s = Switch s' \<and> locks s' (PipeLock p) = unlocked \<and>
    pipe_ok (pipes s' p) \<and> length (pipe_bytes (pipes s' p)) = PIPESIZE \<and>
    length (ptable s') = length (ptable s) \<and> p_state (ptable s' ! i) = SLEEPING \<and>
    p_chan (ptable s' ! i) = Some (PipeWriteChan p) \<and>
    (\<forall>t m. pipes t p = pipes s' p \<and> i < length (ptable t) \<and> ptable t ! i = ptable s' ! i \<and> calm (PipeLock p) t \<and>
      calm PtableLock t \<and> 0 < m \<longrightarrow>
      (\<exists>t'. piperead p m t = Ret (min m (int PIPESIZE), take (nat m) (pipe_bytes (pipes s' p))) t' \<and>
        p_state (ptable t' ! i) = RUNNABLE))"
proof -
  let ?k = "PIPESIZE - length (pipe_bytes (pipes s p))"
  let ?pp = "fold pipe_put (take ?k bs) (pipes s p)"
  have le: "length (pipe_bytes (pipes s p)) \<le> PIPESIZE"
    using assms(1) by (simp add: pipe_ok_def pipe_bytes_def)
  then have k: "?k < length bs"
    using assms(2) by simp
  then obtain d ds where bs: "bs = take ?k bs @ d # ds"
    by (metis id_take_nth_drop)
  have full: "length (pipe_bytes (pipes s p)) + length (take ?k bs) = PIPESIZE"
    using k le by simp
  have w: "pipe_ok ?pp" "length (pipe_bytes ?pp) = PIPESIZE"
    using pq.put_all [OF assms(1), of "take ?k bs"] full by (simp_all del: PIPESIZE_def)
  note run = pipewrite_full_run [OF assms(1) full assms(3,4,5,6,7,9,10,8), of d ds n, folded bs]
  have rd: "\<exists>t'. piperead p m t = Ret (min m (int PIPESIZE), take (nat m) (pipe_bytes ?pp)) t' \<and>
      p_state (ptable t' ! i) = RUNNABLE"
    if t: "pipes t p = ?pp" "i < length (ptable t)" "ptable t ! i = asleep (PipeWriteChan p) (ptable s ! i)"
      "calm (PipeLock p) t" "calm PtableLock t" "0 < m" for t m
  proof -
    have "pipe_bytes (pipes t p) \<noteq> []"
      using w(2) t(1) by auto
    then obtain t' where "piperead p m t = Ret (int (min (nat m) PIPESIZE), take (nat m) (pipe_bytes ?pp)) t'"
      "ptable t' = map (wake_proc (PipeWriteChan p)) (ptable t)"
      using piperead_gives [of t p m] w t by auto
    moreover have "int (min (nat m) PIPESIZE) = min m (int PIPESIZE)"
      using t(6) by simp
    ultimately show ?thesis
      using t(2,3) by (simp add: wake_proc_def asleep_def)
  qed
  show ?thesis
    unfolding run using assms(3,7) w rd
    by (auto simp: calm_def asleep_def)
qed

theorem pipe_writer_woken_witness:
  "\<exists>s'. pipewrite 0x80400000 (replicate 600 7) 600 demo_fmach = Switch s' \<and> p_state (ptable s' ! 1) = SLEEPING \<and>
    length (pipe_bytes (pipes s' 0x80400000)) = 512 \<and>
    (\<exists>t'. piperead 0x80400000 1 (demo_fmach\<lparr>pipes := pipes s', ptable := ptable s'\<rparr>) =
        Ret (1, take 1 (pipe_bytes (pipes s' 0x80400000))) t' \<and>
      p_state (ptable t' ! 1) = RUNNABLE)"
proof -
  have pre: "pipe_ok (pipes demo_fmach 0x80400000)"
    "length (pipe_bytes (pipes demo_fmach 0x80400000)) + length (replicate 600 (7 :: u8)) > PIPESIZE"
    by simp_all
  obtain s' where s': "pipewrite 0x80400000 (replicate 600 7) 600 demo_fmach = Switch s'" "p_state (ptable s' ! 1) = SLEEPING"
    "length (pipe_bytes (pipes s' 0x80400000)) = 512" "length (ptable s') = 2"
    and r: "\<And>t m. pipes (t :: fmach) 0x80400000 = pipes s' 0x80400000 \<and> 1 < length (ptable t) \<and> ptable t ! 1 = ptable s' ! 1 \<and>
      calm (PipeLock 0x80400000) t \<and> calm PtableLock t \<and> 0 < m \<longrightarrow>
      (\<exists>t'. piperead 0x80400000 m t = Ret (min m 512, take (nat m) (pipe_bytes (pipes s' 0x80400000))) t' \<and>
        p_state (ptable t' ! 1) = RUNNABLE)"
    using pipe_writer_woken [OF pre, of 1 600] by (auto simp: demo_pipe_def fresh_proc_def) blast
  have "calm l (demo_fmach\<lparr>pipes := pipes s', ptable := ptable s'\<rparr>)" for l
    by (simp add: calm_def cpu_ok_def)
  then show ?thesis
    using s' r [of "demo_fmach\<lparr>pipes := pipes s', ptable := ptable s'\<rparr>" 1] by simp
qed

text \<open>The table of open files: what \<open>filealloc\<close>, \<open>filedup\<close> and a \<open>fileclose\<close> that is not the last one do.\<close>

lemma filealloc_run:
  assumes "calm FtableLock s"
  shows "filealloc s = (case findi (\<lambda>f. f_ref f = 0) (ftable s) of
      Some i \<Rightarrow> Ret (Some i) (settled (s\<lparr>ftable := (ftable s)[i := (ftable s ! i)\<lparr>f_ref := 1\<rparr>]\<rparr>))
    | None \<Rightarrow> Ret None (settled s))"
proof -
  have "(locks s)(FtableLock := unlocked) = locks s"
    using assms by (simp add: calm_def fun_upd_idem)
  then show ?thesis
    using assms
    by (simp add: filealloc_def run_simps calm_def release_run released_def cpu_pop_push acquired_def settled_def cpu_ok_def layers
        split: option.split)
qed

lemma filedup_run:
  assumes "calm FtableLock s" and "1 \<le> f_ref (ftable s ! i)"
  shows "filedup i s = Ret i (settled (s\<lparr>ftable := (ftable s)[i := (ftable s ! i)\<lparr>f_ref := f_ref (ftable s ! i) + 1\<rparr>]\<rparr>))"
proof -
  have "(locks s)(FtableLock := unlocked) = locks s"
    using assms by (simp add: calm_def fun_upd_idem)
  then show ?thesis
    using assms
    by (simp add: filedup_def run_simps calm_def release_run released_def cpu_pop_push acquired_def settled_def cpu_ok_def layers)
qed

lemma fileclose_shared_run:
  assumes "calm FtableLock s" and "1 < f_ref (ftable s ! i)"
  shows "fileclose i s = Ret () (settled (s\<lparr>ftable := (ftable s)[i := (ftable s ! i)\<lparr>f_ref := f_ref (ftable s ! i) - 1\<rparr>]\<rparr>))"
proof -
  have "(locks s)(FtableLock := unlocked) = locks s"
    using assms by (simp add: calm_def fun_upd_idem)
  then show ?thesis
    using assms
    by (simp add: fileclose_def run_simps calm_def release_run released_def cpu_pop_push acquired_def settled_def cpu_ok_def layers)
qed

text \<open>
  C28: Reference counts of open files. \<open>filealloc\<close> hands out a slot that nobody refers to and makes the caller its only holder, or
  returns null exactly when every slot is taken; each \<open>filedup\<close> is undone by a \<open>fileclose\<close>, which frees nothing
  while another reference is left; duplicating or closing a file without a reference panics.
\<close>

theorem file_references:
  assumes "calm FtableLock s"
  shows "(\<exists>r s'. filealloc s = Ret r s' \<and> (r = None \<longleftrightarrow> (\<forall>f \<in> set (ftable s). f_ref f \<noteq> 0)) \<and>
      (\<forall>i. r = Some i \<longrightarrow> i < length (ftable s) \<and> f_ref (ftable s ! i) = 0 \<and> f_ref (ftable s' ! i) = 1 \<and>
        (\<forall>j. j \<noteq> i \<longrightarrow> ftable s' ! j = ftable s ! j))) \<and>
    (\<forall>i. i < length (ftable s) \<longrightarrow>
      (if f_ref (ftable s ! i) < 1 then filedup i s = Panic ''filedup'' \<and> fileclose i s = Panic ''fileclose''
       else \<exists>s'. filedup i s = Ret i s' \<and> fileclose i s' = Ret () (settled s)))"
proof (intro conjI allI impI)
  show "\<exists>r s'. filealloc s = Ret r s' \<and> (r = None \<longleftrightarrow> (\<forall>f \<in> set (ftable s). f_ref f \<noteq> 0)) \<and>
      (\<forall>i. r = Some i \<longrightarrow> i < length (ftable s) \<and> f_ref (ftable s ! i) = 0 \<and> f_ref (ftable s' ! i) = 1 \<and>
        (\<forall>j. j \<noteq> i \<longrightarrow> ftable s' ! j = ftable s ! j))"
  proof (cases "findi (\<lambda>f. f_ref f = 0) (ftable s)")
    case None
    then have "\<forall>f \<in> set (ftable s). f_ref f \<noteq> 0"
      by (simp add: findi_None)
    then show ?thesis
      using filealloc_run [OF assms] by (simp add: None)
  next
    case (Some i)
    note i = findi_SomeD [OF Some]
    then have "ftable s ! i \<in> set (ftable s)"
      by simp
    then show ?thesis
      using filealloc_run [OF assms] i Some by (auto simp: settled_def)
  qed
  fix i
  assume i: "i < length (ftable s)"
  show "if f_ref (ftable s ! i) < 1 then filedup i s = Panic ''filedup'' \<and> fileclose i s = Panic ''fileclose''
       else \<exists>s'. filedup i s = Ret i s' \<and> fileclose i s' = Ret () (settled s)"
  proof (cases "f_ref (ftable s ! i) < 1")
    case True
    then show ?thesis
      using assms by (simp add: filedup_def fileclose_def run_simps calm_def acquired_def)
  next
    case False
    let ?s = "settled (s\<lparr>ftable := (ftable s)[i := (ftable s ! i)\<lparr>f_ref := f_ref (ftable s ! i) + 1\<rparr>]\<rparr>)"
    have "calm FtableLock ?s" "1 < f_ref (ftable ?s ! i)"
      using assms i False by (simp_all add: settled_def calm_def)
    then have "fileclose i ?s = Ret () (settled s)"
      using i fileclose_shared_run [of ?s i] by (simp add: settled_def layers)
    then show ?thesis
      using filedup_run [OF assms] False by simp
  qed
qed

theorem file_references_witness:
  "\<exists>s'. filealloc demo_fmach = Ret (Some 0) s' \<and> f_ref (ftable s' ! 0) = 1 \<and>
    filedup 0 demo_fmach = Panic ''filedup'' \<and> fileclose 0 demo_fmach = Panic ''fileclose''"
proof -
  have f: "demo_file \<in> set (ftable demo_fmach)" "f_ref demo_file = 0" "f_ref (ftable demo_fmach ! 0) < 1" "0 < length (ftable demo_fmach)"
    by (simp_all add: demo_file_def)
  have "findi (\<lambda>f. f_ref f = 0) (ftable demo_fmach) = Some 0"
    by (simp add: demo_file_def numeral_eq_Suc)
  then obtain s' where "filealloc demo_fmach = Ret (Some 0) s'"
    using filealloc_run [OF demo_fmach_calm] by simp
  with file_references [OF demo_fmach_calm] f show ?thesis
    by fastforce
qed


end
