(* ===== verification/Process.thy ===== *)
theory Process
  imports File
begin

text \<open>
  The life of a process: \<open>userinit\<close>, \<open>growproc\<close>, \<open>fork\<close>, \<open>exit\<close>, \<open>wait\<close> and \<open>forkret\<close> of \<open>src/proc.c\<close>. These are the
  routines of that file that use address spaces, open files and inodes together; the rest of it is in theory \<open>ProcTable\<close>.
\<close>

section \<open>State\<close>

text \<open>
  \<open>first\<close> is the static variable of \<open>forkret\<close>; \<open>ticks\<close> belongs to \<open>src/trap.c\<close>, and \<open>ports16\<close> records the 16-bit port writes.
\<close>

record umach = fmach +
  first :: bool
  ticks :: u32
  ports16 :: "(u16 \<times> u16) list"

text \<open>The fields of a \<open>struct trapframe\<close> (\<open>src/x86.h\<close>) by their offsets.\<close>

definition tf_eax :: u32 where [simp]: "tf_eax = 28"
definition tf_es :: u32 where [simp]: "tf_es = 40"
definition tf_ds :: u32 where [simp]: "tf_ds = 44"
definition tf_trapno :: u32 where [simp]: "tf_trapno = 48"
definition tf_err :: u32 where [simp]: "tf_err = 52"
definition tf_eip :: u32 where [simp]: "tf_eip = 56"
definition tf_cs :: u32 where [simp]: "tf_cs = 60"
definition tf_eflags :: u32 where [simp]: "tf_eflags = 64"
definition tf_esp :: u32 where [simp]: "tf_esp = 68"
definition tf_ss :: u32 where [simp]: "tf_ss = 72"

definition SEG_UCODE :: u16 where [simp]: "SEG_UCODE = 4"
definition SEG_UDATA :: u16 where [simp]: "SEG_UDATA = 5"
definition DPL_USER :: u16 where [simp]: "DPL_USER = 3"
definition FL_IF :: u32 where [simp]: "FL_IF = 0x200"

definition put32 :: "u32 \<Rightarrow> u32 \<Rightarrow> ('a machine_scheme, unit) op" where
  "put32 a v = modify (\<lambda>s. s\<lparr>mem := store32 (mem s) a v\<rparr>)"

text \<open>A name without its terminating zero, as \<open>safestrcpy\<close> leaves it in an array of \<open>n\<close> bytes.\<close>

definition copied_name :: "u8 list \<Rightarrow> int \<Rightarrow> u8 list" where
  "copied_name t n = takeWhile (\<lambda>c. c \<noteq> 0) (safestrcpy t n)"

section \<open>The first process\<close>

text \<open>\<open>start\<close> and \<open>sz\<close> stand for the linker's symbols \<open>_binary_initcode_start\<close> and \<open>_binary_initcode_size\<close>.\<close>

definition userinit :: "u32 \<Rightarrow> u32 \<Rightarrow> ('a umach_scheme, unit) op" where
  "userinit start sz =
     bind allocproc (\<lambda>found.
     seq (modify (\<lambda>s. s\<lparr>initproc := found\<rparr>))
    (case found of
       None \<Rightarrow> fault
     | Some i \<Rightarrow>
       bind setupkvm (\<lambda>pgdir.
       seq (upd_proc i (p_pgdir_update (\<lambda>_. pgdir)))
      (if pgdir = 0 then panic ''userinit: out of memory?''
       else
       seq (inituvm pgdir start sz)
      (seq (upd_proc i (p_sz_update (\<lambda>_. PGSIZE)))
      (bind (gets (\<lambda>s. p_tf (ptable s ! i))) (\<lambda>tf.
       seq (modify (\<lambda>s. s\<lparr>mem := memset tf 0 TRAPFRAME_SIZE (mem s)\<rparr>))
      (seq (store16 (tf + tf_cs) (push_bit 3 SEG_UCODE OR DPL_USER))
      (seq (store16 (tf + tf_ds) (push_bit 3 SEG_UDATA OR DPL_USER))
      (seq (store16 (tf + tf_es) (push_bit 3 SEG_UDATA OR DPL_USER))
      (seq (store16 (tf + tf_ss) (push_bit 3 SEG_UDATA OR DPL_USER))
      (seq (put32 (tf + tf_eflags) FL_IF)
      (seq (put32 (tf + tf_esp) PGSIZE)
      (seq (put32 (tf + tf_eip) 0)
      (seq (upd_proc i (p_name_update (\<lambda>_. copied_name (bytes ''initcode'') 16)))
      (bind (namei (bytes ''/'')) (\<lambda>cwd.
       seq (upd_proc i (p_cwd_update (\<lambda>_. cwd)))
           (upd_proc i (p_state_update (\<lambda>_. RUNNABLE))))))))))))))))))))"

section \<open>Growing\<close>

definition growproc :: "int \<Rightarrow> ('a umach_scheme, int) op" where
  "growproc n =
     with_proc (\<lambda>i.
     bind (gets (\<lambda>s. ptable s ! i)) (\<lambda>p.
     bind (if n > 0 then allocuvm (p_pgdir p) (p_sz p) (p_sz p + word_of_int n)
           else if n < 0 then deallocuvm (p_pgdir p) (p_sz p) (p_sz p + word_of_int n)
           else ret (p_sz p)) (\<lambda>sz.
     if n \<noteq> 0 \<and> sz = 0 then ret (- 1)
     else
     seq (upd_proc i (p_sz_update (\<lambda>_. sz)))
    (bind (gets (\<lambda>s. ptable s ! i)) (\<lambda>p.
     seq (switchuvm (p_kstack p) (p_pgdir p))
         (ret 0))))))"

section \<open>Fork\<close>

definition fork_files :: "nat \<Rightarrow> nat \<Rightarrow> ('a umach_scheme, unit) op" where
  "fork_files me np =
     forM [0..<NOFILE] (\<lambda>k.
       bind (gets (\<lambda>s. p_ofile (ptable s ! me) ! k)) (\<lambda>fo.
       case fo of
         None \<Rightarrow> ret ()
       | Some f \<Rightarrow>
         bind (filedup f) (\<lambda>f'.
         upd_proc np (\<lambda>p. p\<lparr>p_ofile := (p_ofile p)[k := Some f']\<rparr>))))"

definition fork :: "('a umach_scheme, int) op" where
  "fork =
     bind allocproc (\<lambda>found.
     case found of
       None \<Rightarrow> ret (- 1)
     | Some np \<Rightarrow>
       with_proc (\<lambda>me.
       bind (gets (\<lambda>s. ptable s ! me)) (\<lambda>p.
       bind (copyuvm (p_pgdir p) (p_sz p)) (\<lambda>pgdir.
       seq (upd_proc np (p_pgdir_update (\<lambda>_. pgdir)))
      (bind (gets (\<lambda>s. ptable s ! np)) (\<lambda>q.
       if pgdir = 0 then
         seq (kfree (p_kstack q))
        (seq (upd_proc np (p_kstack_update (\<lambda>_. 0)))
        (seq (upd_proc np (p_state_update (\<lambda>_. UNUSED)))
             (ret (- 1))))
       else
       seq (upd_proc np (p_sz_update (\<lambda>_. p_sz p)))
      (seq (upd_proc np (p_parent_update (\<lambda>_. Some me)))
      (seq (modify (\<lambda>s. s\<lparr>mem := memmove (p_tf q) (p_tf p) TRAPFRAME_SIZE (mem s)\<rparr>))
      (seq (put32 (p_tf q + tf_eax) 0)
      (seq (fork_files me np)
      (bind (case p_cwd p of None \<Rightarrow> fault | Some d \<Rightarrow> idup d) (\<lambda>d.
       seq (upd_proc np (p_cwd_update (\<lambda>_. Some d)))
      (seq (upd_proc np (p_name_update (\<lambda>_. copied_name (p_name p) 16)))
      (bind (gets (\<lambda>s. p_pid (ptable s ! np))) (\<lambda>pid.
       seq (acquire PtableLock)
      (seq (upd_proc np (p_state_update (\<lambda>_. RUNNABLE)))
      (seq (release PtableLock)
           (ret (sint pid)))))))))))))))))))"

section \<open>Exit\<close>

definition exit_files :: "nat \<Rightarrow> ('a umach_scheme, unit) op" where
  "exit_files me =
     forM [0..<NOFILE] (\<lambda>fd.
       bind (gets (\<lambda>s. p_ofile (ptable s ! me) ! fd)) (\<lambda>fo.
       case fo of
         None \<Rightarrow> ret ()
       | Some f \<Rightarrow>
         seq (fileclose f)
             (upd_proc me (\<lambda>p. p\<lparr>p_ofile := (p_ofile p)[fd := None]\<rparr>))))"

text \<open>\<open>wakeup1\<close> with a pointer to a process as channel; nothing sleeps on the null pointer.\<close>

definition wakeup1_proc :: "nat option \<Rightarrow> ('a pmach_scheme, unit) op" where
  "wakeup1_proc po = (case po of None \<Rightarrow> ret () | Some i \<Rightarrow> wakeup1 (ProcChan i))"

definition pass_children :: "nat \<Rightarrow> ('a pmach_scheme, unit) op" where
  "pass_children me =
     forM [0..<NPROC] (\<lambda>k.
       bind (gets (\<lambda>s. p_parent (ptable s ! k))) (\<lambda>par.
       whenM (par = Some me)
        (bind (gets initproc) (\<lambda>ini.
         seq (upd_proc k (p_parent_update (\<lambda>_. ini)))
        (bind (gets (\<lambda>s. p_state (ptable s ! k))) (\<lambda>st.
         whenM (st = ZOMBIE) (wakeup1_proc ini)))))))"

definition exit :: "('a umach_scheme, 'b) op" where
  "exit =
     bind (gets curproc) (\<lambda>cur.
     bind (gets initproc) (\<lambda>ini.
     if cur = ini then panic ''init exiting''
     else
     with_proc (\<lambda>me.
     seq (exit_files me)
    (seq begin_op
    (bind (gets (\<lambda>s. p_cwd (ptable s ! me))) (\<lambda>cwd.
     seq (case cwd of None \<Rightarrow> fault | Some d \<Rightarrow> iput d)
    (seq end_op
    (seq (upd_proc me (p_cwd_update (\<lambda>_. None)))
    (seq (acquire PtableLock)
    (bind (gets (\<lambda>s. p_parent (ptable s ! me))) (\<lambda>par.
     seq (wakeup1_proc par)
    (seq (pass_children me)
    (seq (upd_proc me (p_state_update (\<lambda>_. ZOMBIE)))
    (seq sched
         (panic ''zombie exit'')))))))))))))))"

section \<open>Wait\<close>

text \<open>What \<open>wait\<close> does to a zombie child it finds in slot \<open>k\<close>; \<open>ptable.lock\<close> is held.\<close>

definition reap :: "nat \<Rightarrow> ('a pmach_scheme, int) op" where
  "reap k =
     bind (gets (\<lambda>s. ptable s ! k)) (\<lambda>p.
     seq (kfree (p_kstack p))
    (seq (upd_proc k (p_kstack_update (\<lambda>_. 0)))
    (seq (freevm (p_pgdir p))
    (seq (upd_proc k (\<lambda>p. p\<lparr>p_state := UNUSED, p_pid := 0, p_parent := None, p_name := [], p_killed := False\<rparr>))
    (seq (release PtableLock)
         (ret (sint (p_pid p))))))))"

text \<open>One pass over the table, and then the sleep; the loop starts again when a child exits.\<close>

definition wait_loop :: "('a pmach_scheme, int) op" where
  "wait_loop =
     with_proc (\<lambda>me.
     bind (gets ptable) (\<lambda>ps.
     case findi (\<lambda>p. p_parent p = Some me \<and> p_state p = ZOMBIE) ps of
       Some k \<Rightarrow> reap k
     | None \<Rightarrow>
       (if (\<forall>p \<in> set ps. p_parent p \<noteq> Some me) \<or> p_killed (ps ! me) then
          seq (release PtableLock) (ret (- 1))
        else seq (sleep (ProcChan me) PtableLock) swtch)))"

definition wait :: "('a pmach_scheme, int) op" where
  "wait = seq (acquire PtableLock) wait_loop"

section \<open>The first return to user space\<close>

definition forkret :: "('a umach_scheme, unit) op" where
  "forkret =
     seq (release PtableLock)
    (bind (gets first) (\<lambda>f.
     whenM f
      (seq (modify (\<lambda>s. s\<lparr>first := False\<rparr>))
      (seq (iinit ROOTDEV)
           (initlog ROOTDEV)))))"

end
