(* ===== verification/Syscall.thy ===== *)
theory Syscall
  imports Process
begin

text \<open>
  How a system call reads its arguments (\<open>src/syscall.c\<close>) and the calls about processes (\<open>src/sysproc.c\<close>). The kernel reads user
  memory through the page table in \<open>%cr3\<close>; an access to an unmapped address is a page fault in the kernel, the
  outcome \<open>Fault\<close>. Fetched strings are lists of bytes without the terminating zero. The dispatch is in theory \<open>Trap\<close>.
\<close>

section \<open>User memory\<close>

definition uread :: "u32 \<Rightarrow> ('a vmach_scheme, u8) op" where
  "uread va =
     bind (gets (\<lambda>s. translate (mem s) (p2v (cr3 s)) va)) (\<lambda>t.
     case t of None \<Rightarrow> fault | Some (pa, _) \<Rightarrow> gets (\<lambda>s. mem s (p2v pa)))"

text \<open>The kernel runs with write protection on (\<open>CR0_WP\<close>), so a store also needs the page to be writable.\<close>

definition uwrite :: "u32 \<Rightarrow> u8 \<Rightarrow> ('a vmach_scheme, unit) op" where
  "uwrite va c =
     bind (gets (\<lambda>s. translate (mem s) (p2v (cr3 s)) va)) (\<lambda>t.
     bind (gets (\<lambda>s. pt_entry (mem s) (p2v (cr3 s)) va AND PTE_W)) (\<lambda>w.
     case t of
       None \<Rightarrow> fault
     | Some (pa, _) \<Rightarrow> if w = 0 then fault else modify (\<lambda>s. s\<lparr>mem := (mem s)(p2v pa := c)\<rparr>)))"

fun ureads :: "u32 \<Rightarrow> nat \<Rightarrow> ('a vmach_scheme, u8 list) op" where
  "ureads va 0 = ret []"
| "ureads va (Suc n) = bind (uread va) (\<lambda>c. bind (ureads (va + 1) n) (\<lambda>cs. ret (c # cs)))"

fun uwrites :: "u32 \<Rightarrow> u8 list \<Rightarrow> ('a vmach_scheme, unit) op" where
  "uwrites va [] = ret ()"
| "uwrites va (c # cs) = seq (uwrite va c) (uwrites (va + 1) cs)"

section \<open>Arguments\<close>

definition proc_sz :: "('a pmach_scheme, u32) op" where
  "proc_sz = with_proc (\<lambda>i. gets (\<lambda>s. p_sz (ptable s ! i)))"

text \<open>A word of the trap frame of the current process.\<close>

definition tf_get :: "u32 \<Rightarrow> ('a pmach_scheme, u32) op" where
  "tf_get off = with_proc (\<lambda>i. gets (\<lambda>s. load32 (mem s) (p_tf (ptable s ! i) + off)))"

definition tf_put :: "u32 \<Rightarrow> u32 \<Rightarrow> ('a pmach_scheme, unit) op" where
  "tf_put off v = with_proc (\<lambda>i. bind (gets (\<lambda>s. p_tf (ptable s ! i))) (\<lambda>tf. put32 (tf + off) v))"

definition fetchint :: "u32 \<Rightarrow> ('a pmach_scheme, u32 option) op" where
  "fetchint addr =
     bind proc_sz (\<lambda>sz.
     if addr \<ge> sz \<or> addr + 4 > sz then ret None
     else bind (ureads addr 4) (\<lambda>bs. ret (Some (get32 bs 0))))"

fun fetchstr_loop :: "nat \<Rightarrow> u32 \<Rightarrow> ('a vmach_scheme, u8 list option) op" where
  "fetchstr_loop 0 s = ret None"
| "fetchstr_loop (Suc k) s =
     bind (uread s) (\<lambda>c.
     if c = 0 then ret (Some [])
     else bind (fetchstr_loop k (s + 1)) (\<lambda>r. ret (map_option (\<lambda>cs. c # cs) r)))"

definition fetchstr :: "u32 \<Rightarrow> ('a pmach_scheme, u8 list option) op" where
  "fetchstr addr =
     bind proc_sz (\<lambda>sz.
     if addr \<ge> sz then ret None
     else fetchstr_loop (unat (sz - addr)) addr)"

definition argint :: "nat \<Rightarrow> ('a pmach_scheme, u32 option) op" where
  "argint n = bind (tf_get tf_esp) (\<lambda>esp. fetchint (esp + 4 + 4 * of_nat n))"

definition argptr :: "nat \<Rightarrow> int \<Rightarrow> ('a pmach_scheme, u32 option) op" where
  "argptr n sze =
     bind (argint n) (\<lambda>a.
     case a of
       None \<Rightarrow> ret None
     | Some i \<Rightarrow>
       bind proc_sz (\<lambda>sz.
       if i \<ge> sz \<or> i + word_of_int sze > sz then ret None else ret (Some i)))"

definition argstr :: "nat \<Rightarrow> ('a pmach_scheme, u8 list option) op" where
  "argstr n =
     bind (argint n) (\<lambda>a.
     case a of None \<Rightarrow> ret None | Some addr \<Rightarrow> fetchstr addr)"

section \<open>Calls about processes\<close>

definition sys_fork :: "('a umach_scheme, int) op" where
  "sys_fork = fork"

definition sys_exit :: "('a umach_scheme, int) op" where
  "sys_exit = exit"

definition sys_wait :: "('a umach_scheme, int) op" where
  "sys_wait = wait"

definition sys_kill :: "('a umach_scheme, int) op" where
  "sys_kill =
     bind (argint 0) (\<lambda>a.
     case a of None \<Rightarrow> ret (- 1) | Some pid \<Rightarrow> kill pid)"

definition sys_getpid :: "('a umach_scheme, int) op" where
  "sys_getpid = with_proc (\<lambda>i. gets (\<lambda>s. sint (p_pid (ptable s ! i))))"

definition sys_sbrk :: "('a umach_scheme, int) op" where
  "sys_sbrk =
     bind (argint 0) (\<lambda>a.
     case a of
       None \<Rightarrow> ret (- 1)
     | Some n \<Rightarrow>
       bind proc_sz (\<lambda>addr.
       bind (growproc (sint n)) (\<lambda>r.
       ret (if r < 0 then - 1 else sint addr))))"

text \<open>The loop of \<open>sys_sleep\<close>, entered with \<open>tickslock\<close> held; the comparison is between unsigned numbers.\<close>

definition sys_sleep_loop :: "u32 \<Rightarrow> u32 \<Rightarrow> ('a umach_scheme, int) op" where
  "sys_sleep_loop ticks0 n =
     bind (gets ticks) (\<lambda>t.
     if t - ticks0 < n then
       bind proc_killed (\<lambda>killed.
       if killed then seq (release TicksLock) (ret (- 1))
       else seq (sleep TicksChan TicksLock) swtch)
     else seq (release TicksLock) (ret 0))"

definition sys_sleep :: "('a umach_scheme, int) op" where
  "sys_sleep =
     bind (argint 0) (\<lambda>a.
     case a of
       None \<Rightarrow> ret (- 1)
     | Some n \<Rightarrow>
       seq (acquire TicksLock)
      (bind (gets ticks) (\<lambda>ticks0.
       sys_sleep_loop ticks0 n)))"

definition sys_uptime :: "('a umach_scheme, int) op" where
  "sys_uptime =
     seq (acquire TicksLock)
    (bind (gets ticks) (\<lambda>xticks.
     seq (release TicksLock)
         (ret (sint xticks))))"

definition sys_enable_sched_trace :: "('a umach_scheme, int) op" where
  "sys_enable_sched_trace =
     bind (argint 0) (\<lambda>a.
     seq (case a of
            None \<Rightarrow> cprintf ''enable_sched_trace() failed!\<newline>'' []
          | Some v \<Rightarrow> modify (\<lambda>s. s\<lparr>sched_trace_enabled := (v \<noteq> 0)\<rparr>))
         (ret 0))"

definition outw :: "u16 \<Rightarrow> u16 \<Rightarrow> ('a umach_scheme, unit) op" where
  "outw port v = modify (\<lambda>s. s\<lparr>ports16 := ports16 s @ [(port, v)]\<rparr>)"

definition sys_uprog_shut :: "('a umach_scheme, int) op" where
  "sys_uprog_shut =
     seq (outw 0xB004 (0x0 OR 0x2000))
    (seq (outw 0x604 (0x0 OR 0x2000))
         (ret 0))"

section \<open>What the argument checks guarantee\<close>

lemma proc_sz_run:
  "proc_sz s = (case curproc s of None \<Rightarrow> Fault | Some i \<Rightarrow> Ret (p_sz (ptable s ! i)) s)"
  by (simp add: proc_sz_def with_proc_def run_simps split: option.split)

lemma tf_get_run:
  "tf_get off s = (case curproc s of None \<Rightarrow> Fault | Some i \<Rightarrow> Ret (load32 (mem s) (p_tf (ptable s ! i) + off)) s)"
  by (simp add: tf_get_def with_proc_def run_simps split: option.split)

text \<open>The byte the process sees at a user address.\<close>

definition user_byte :: "'a vmach_scheme \<Rightarrow> u32 \<Rightarrow> u8 option" where
  "user_byte s va = map_option (\<lambda>(pa, _). mem s (p2v pa)) (translate (mem s) (p2v (cr3 s)) va)"

lemma uread_run: "uread va s = (case user_byte s va of None \<Rightarrow> Fault | Some c \<Rightarrow> Ret c s)"
  by (auto simp: uread_def user_byte_def run_simps split: option.split)

lemma ureads_run:
  "ureads va n s =
     (if \<forall>i < n. user_byte s (va + of_nat i) \<noteq> None
      then Ret (map (\<lambda>i. the (user_byte s (va + of_nat i))) [0..<n]) s else Fault)"
proof (induction n arbitrary: va)
  case 0
  then show ?case by (simp add: run_simps)
next
  case (Suc n)
  have "(\<forall>i < Suc n. user_byte s (va + of_nat i) \<noteq> None) \<longleftrightarrow>
      user_byte s va \<noteq> None \<and> (\<forall>i < n. user_byte s (va + 1 + of_nat i) \<noteq> None)"
    by (simp add: All_less_Suc2 add.assoc)
  moreover have "map (\<lambda>i. the (user_byte s (va + of_nat i))) [0..<Suc n] =
      the (user_byte s va) # map (\<lambda>i. the (user_byte s (va + 1 + of_nat i))) [0..<n]"
    by (simp add: upt_conv_Cons map_Suc_upt [symmetric] add.assoc del: upt_Suc)
  ultimately show ?case
    by (auto simp: run_simps uread_run Suc.IH split: option.split simp del: upt_Suc)
qed

lemma fetchint_run:
  assumes "curproc s = Some i"
  defines "sz \<equiv> p_sz (ptable s ! i)"
  shows "fetchint addr s =
    (if addr \<ge> sz \<or> addr + 4 > sz then Ret None s
     else if \<forall>k < 4. user_byte s (addr + of_nat k) \<noteq> None
     then Ret (Some (get32 (map (\<lambda>k. the (user_byte s (addr + of_nat k))) [0..<4]) 0)) s else Fault)"
  using assms(1) by (auto simp: fetchint_def proc_sz_run run_simps ureads_run sz_def simp del: upt_rec_numeral)

lemma in_range_iff:
  fixes a n sz :: u32
  assumes "sz \<le> KERNBASE" and "n \<le> KERNBASE"
  shows "\<not> (a \<ge> sz \<or> a + n > sz) \<longleftrightarrow> unat a < unat sz \<and> unat a + unat n \<le> unat sz"
proof -
  have "unat sz \<le> 2147483648" "unat n \<le> 2147483648"
    using assms by (simp_all add: word_le_nat_alt)
  then have "unat (a + n) = unat a + unat n" if "a < sz"
    using that by (simp add: word_less_nat_alt unat_word_ariths)
  then show ?thesis
    by (auto simp: not_le not_less word_less_nat_alt word_le_nat_alt)
qed

section \<open>A process with one page\<close>

text \<open>
  A machine to apply the properties to. The process has one page of memory, at physical address 0x402000, mapped by the page table at
  0x401000; the page starts with the string \<open>hi\<close>, and the arguments of a system call are at address 20.
\<close>

definition demo_umem :: memory where
  "demo_umem =
     store32 (store32 (store32 (store32 (store32 (store32 (\<lambda>_. 0) 0x80400000 0x401007) 0x80401000 0x402007)
       0x80402000 0x6968) 0x80402014 5) 0x80402018 0x20) 0x80403044 16"

definition demo_user :: pmach where
  "demo_user = demo_pmach\<lparr>mem := demo_umem, cr3 := 0x400000, curproc := Some 0,
     ptable := [fresh_proc\<lparr>p_sz := 4096, p_state := RUNNING, p_tf := 0x80403000\<rparr>]\<rparr>"

lemma demo_user_sel [simp]:
  "mem demo_user = demo_umem" "cr3 demo_user = 0x400000" "curproc demo_user = Some 0"
  "p_sz (ptable demo_user ! 0) = 4096" "p_tf (ptable demo_user ! 0) = 0x80403000"
  by (simp_all add: demo_user_def)

lemma demo_umem_load:
  "load32 demo_umem 0x80400000 = 0x401007" "load32 demo_umem 0x80401000 = 0x402007" "load32 demo_umem 0x80402014 = 5"
  "load32 demo_umem 0x80402018 = 0x20" "load32 demo_umem 0x80403044 = 16"
  by (simp_all add: demo_umem_def load32_store32_other)

lemma demo_user_byte:
  assumes "va < 4096"
  shows "user_byte demo_user va = Some (demo_umem (0x80402000 + va))"
proof -
  have "unat va < 4096"
    using assms by (simp add: word_less_nat_alt)
  then have "PDX va = 0" "PTX va = 0" "va AND 0xFFF = va"
    by (simp_all add: word_unat_eq_iff unat_PDX unat_PTX and_4095 unat_mod)
  then show ?thesis
    by (simp add: user_byte_def translate_def pt_entry_def pt_page_def p2v_def demo_umem_load PTE_ADDR_def add.commute)
qed

text \<open>
  \<open>fetchint\<close> reads only memory of the process. It leaves the state alone; it returns a word exactly when its
  four bytes lie below the size of the process (which is at most \<open>KERNBASE\<close>, so that the sum in the check cannot wrap) and are mapped,
  and the word is the little-endian value the process sees there.
\<close>

theorem fetchint_in_bounds:
  assumes "curproc s = Some i" and "p_sz (ptable s ! i) \<le> KERNBASE"
    and "\<And>va. va < p_sz (ptable s ! i) \<Longrightarrow> user_byte s va \<noteq> None"
  shows "fetchint addr s =
    (if unat addr + 4 \<le> unat (p_sz (ptable s ! i))
     then Ret (Some (get32 (map (\<lambda>k. the (user_byte s (addr + of_nat k))) [0..<4]) 0)) s
     else Ret None s)"
proof -
  let ?sz = "p_sz (ptable s ! i)"
  have iff: "\<not> (addr \<ge> ?sz \<or> addr + 4 > ?sz) \<longleftrightarrow> unat addr + 4 \<le> unat ?sz"
    using in_range_iff [OF assms(2), of 4 addr] by auto
  have "user_byte s (addr + of_nat k) \<noteq> None" if le: "unat addr + 4 \<le> unat ?sz" and "k < 4" for k
  proof -
    have "unat (addr + of_nat k) \<le> unat addr + k"
      by (simp add: unat_word_ariths unat_of_nat)
    then have "addr + of_nat k < ?sz"
      using that by (simp add: word_less_nat_alt)
    then show ?thesis by (rule assms(3))
  qed
  then show ?thesis
    unfolding fetchint_run [OF assms(1)] using iff by (auto simp del: upt_rec_numeral)
qed

theorem fetchint_in_bounds_witness:
  "fetchint 20 demo_user = Ret (Some 5) demo_user \<and> fetchint 4093 demo_user = Ret None demo_user"
proof -
  have m: "user_byte demo_user va \<noteq> None" if "va < p_sz (ptable demo_user ! 0)" for va
    using that demo_user_byte by simp
  have "get32 (map (\<lambda>k. the (user_byte demo_user (20 + of_nat k))) [0..<4]) 0 = load32 demo_umem 0x80402014"
    by (simp add: demo_user_byte load32_def upt_rec)
  then show ?thesis
    using fetchint_in_bounds [of demo_user 0 20] fetchint_in_bounds [of demo_user 0 4093] m
    by (simp add: demo_umem_load del: upt_rec_numeral)
qed

lemma demo_argint: "argint 0 demo_user = Ret (Some 5) demo_user" "argint 1 demo_user = Ret (Some 0x20) demo_user"
proof -
  have "get32 (map (\<lambda>k. the (user_byte demo_user (20 + of_nat k))) [0..<4]) 0 = load32 demo_umem 0x80402014"
    "get32 (map (\<lambda>k. the (user_byte demo_user (24 + of_nat k))) [0..<4]) 0 = load32 demo_umem 0x80402018"
    by (simp_all add: demo_user_byte load32_def upt_rec)
  moreover have "user_byte demo_user (20 + of_nat k) \<noteq> None" "user_byte demo_user (24 + of_nat k) \<noteq> None" if "k < 4" for k
  proof -
    have "k = 0 \<or> k = 1 \<or> k = 2 \<or> k = 3"
      using that by linarith
    then show "user_byte demo_user (20 + of_nat k) \<noteq> None" "user_byte demo_user (24 + of_nat k) \<noteq> None"
      by (auto simp: demo_user_byte)
  qed
  ultimately show "argint 0 demo_user = Ret (Some 5) demo_user" "argint 1 demo_user = Ret (Some 0x20) demo_user"
    by (simp_all add: argint_def tf_get_run run_simps fetchint_run [where i = 0] demo_umem_load del: upt_rec_numeral)
qed

text \<open>
  C30: \<open>argptr\<close> checks a buffer completely when its length is not negative: an accepted pointer leaves the whole buffer below the size of the
  process, and every such pointer is accepted.
\<close>

theorem argptr_in_bounds:
  assumes "curproc s = Some i" and "p_sz (ptable s ! i) \<le> KERNBASE" and "0 \<le> n" and "n \<le> 0x7FFFFFFF"
    and "argint k s = Ret (Some a) s"
  shows "argptr k n s =
    Ret (if unat a < unat (p_sz (ptable s ! i)) \<and> unat a + nat n \<le> unat (p_sz (ptable s ! i)) then Some a else None) s"
proof -
  let ?sz = "p_sz (ptable s ! i)"
  have u: "unat (word_of_int n :: u32) = nat n"
    using assms(3,4) by (simp add: unsigned_of_int take_bit_int_eq_self)
  then have "(word_of_int n :: u32) \<le> KERNBASE"
    using assms(3,4) by (simp add: word_le_nat_alt)
  from in_range_iff [OF assms(2) this, of a]
  have "(a \<ge> ?sz \<or> a + word_of_int n > ?sz) \<longleftrightarrow> \<not> (unat a < unat ?sz \<and> unat a + nat n \<le> unat ?sz)"
    unfolding u by blast
  then show ?thesis
    using assms(1,5) by (auto simp: argptr_def proc_sz_run run_simps)
qed

theorem argptr_in_bounds_witness:
  "argptr 0 4091 demo_user = Ret (Some 5) demo_user \<and> argptr 0 4092 demo_user = Ret None demo_user"
  using argptr_in_bounds [of demo_user 0 4091 0 5] argptr_in_bounds [of demo_user 0 4092 0 5] by (simp add: demo_argint)

text \<open>
  C31: A negative length defeats the check of \<open>argptr\<close>: whenever the absolute value does not exceed the pointer, the sum wraps
  below the pointer, and the call succeeds although the callers then treat the length as a huge number.
\<close>

theorem argptr_negative_size:
  assumes "curproc s = Some i" and "argint k s = Ret (Some a) s" and "a < p_sz (ptable s ! i)"
    and "0 < n" and "n \<le> uint a"
  shows "argptr k (- n) s = Ret (Some a) s"
proof -
  have "uint (word_of_int n :: u32) = n"
    using assms(4,5) uint_lt2p [of a] by (simp add: unsigned_of_int take_bit_int_eq_self)
  then have "a - word_of_int n \<le> a"
    using assms(5) by (intro word_sub_le) (simp add: word_le_def)
  then have "a + word_of_int (- n) \<le> p_sz (ptable s ! i)"
    using assms(3) by simp
  then show ?thesis
    using assms by (simp add: argptr_def proc_sz_run run_simps not_le not_less)
qed

theorem argptr_negative_size_witness: "argptr 1 (- 1) demo_user = Ret (Some 0x20) demo_user"
  using argptr_negative_size [OF _ demo_argint(2), of 0 1] by simp

text \<open>The loop of \<open>fetchstr\<close> looks at no more than \<open>n\<close> bytes.\<close>

lemma fetchstr_loop_run:
  assumes "\<And>i. i < n \<Longrightarrow> user_byte s (a + of_nat i) \<noteq> None"
  shows "fetchstr_loop n a s = Ret
    (let cs = map (\<lambda>i. the (user_byte s (a + of_nat i))) [0..<n]
     in if 0 \<in> set cs then Some (takeWhile (\<lambda>c. c \<noteq> 0) cs) else None) s"
  using assms
proof (induction n arbitrary: a)
  case 0
  then show ?case by (simp add: run_simps)
next
  case (Suc n)
  have a: "user_byte s a = Some (the (user_byte s a))"
    using Suc.prems [of 0] by auto
  have "user_byte s (a + 1 + of_nat i) \<noteq> None" if "i < n" for i
    using Suc.prems [of "Suc i"] that by (simp add: add.assoc)
  note IH = Suc.IH [OF this]
  have m: "map (\<lambda>i. the (user_byte s (a + of_nat i))) [0..<Suc n] =
      the (user_byte s a) # map (\<lambda>i. the (user_byte s (a + 1 + of_nat i))) [0..<n]"
    by (simp add: upt_conv_Cons map_Suc_upt [symmetric] add.assoc del: upt_Suc)
  show ?case
    unfolding m using a by (auto simp: run_simps uread_run IH Let_def split: option.split)
qed

text \<open>
  C32: \<open>fetchstr\<close> returns a string only if it ends inside the process: no byte of the result is zero, the result is what the process sees from
  the address on, and the terminating zero lies below the size of the process. It fails exactly when there is no
  such zero, and never reads beyond the process.
\<close>

theorem fetchstr_terminated:
  assumes "curproc s = Some i" and "\<And>va. va < p_sz (ptable s ! i) \<Longrightarrow> user_byte s va \<noteq> None"
  shows "\<exists>r. fetchstr addr s = Ret r s \<and>
    (r = None \<longleftrightarrow> (\<forall>va. addr \<le> va \<and> va < p_sz (ptable s ! i) \<longrightarrow> user_byte s va \<noteq> Some 0)) \<and>
    (\<forall>cs. r = Some cs \<longrightarrow> 0 \<notin> set cs \<and> unat addr + length cs < unat (p_sz (ptable s ! i)) \<and>
      (\<forall>k < length cs. user_byte s (addr + of_nat k) = Some (cs ! k)) \<and> user_byte s (addr + of_nat (length cs)) = Some 0)"
proof -
  let ?sz = "p_sz (ptable s ! i)" and ?n = "unat (p_sz (ptable s ! i) - addr)"
  let ?cs = "map (\<lambda>k. the (user_byte s (addr + of_nat k))) [0..<?n]"
  consider "addr \<ge> ?sz" | "addr < ?sz"
    by force
  then show ?thesis
  proof cases
    case 1
    then show ?thesis
      using assms(1) by (auto simp: fetchstr_def proc_sz_run run_simps not_less)
  next
    case 2
    have n: "unat addr + ?n = unat ?sz"
      using 2 by (simp add: unat_sub word_less_nat_alt word_le_nat_alt)
    have k: "unat (addr + of_nat k) = unat addr + k" "addr + of_nat k < ?sz" if "k < ?n" for k
    proof -
      show e: "unat (addr + of_nat k) = unat addr + k"
        using that n unat32_less [of ?sz] by (simp add: unat_word_ariths unat_of_nat)
      show "addr + of_nat k < ?sz"
        using that n e by (simp add: word_less_nat_alt)
    qed
    have run: "fetchstr addr s = Ret (if 0 \<in> set ?cs then Some (takeWhile (\<lambda>c. c \<noteq> 0) ?cs) else None) s"
      using fetchstr_loop_run [of ?n s addr, OF assms(2) [OF k(2)]] assms(1) 2
      by (simp add: fetchstr_def proc_sz_run run_simps Let_def not_le)
    have byte: "user_byte s (addr + of_nat j) = Some (?cs ! j)" if "j < ?n" for j
      using assms(2) [OF k(2) [OF that]] that by simp
    show ?thesis
    proof (cases "0 \<in> set ?cs")
      case True
      let ?t = "takeWhile (\<lambda>c. c \<noteq> 0) ?cs"
      have len: "length ?t < ?n"
      proof (rule ccontr)
        assume "\<not> length ?t < ?n"
        then have "?t = ?cs"
          using takeWhile_eq_take [of "\<lambda>c. c \<noteq> 0" ?cs] by simp
        then show False
          using True by (metis (mono_tags, lifting) set_takeWhileD)
      qed
      then have z: "?cs ! length ?t = 0"
        using nth_length_takeWhile [of "\<lambda>c. c \<noteq> 0" ?cs] by simp
      have b: "user_byte s (addr + of_nat (length ?t)) = Some 0"
        using byte [OF len] z by simp
      have "user_byte s (addr + of_nat j) = Some (?t ! j)" if "j < length ?t" for j
        using byte [of j] takeWhile_nth [OF that] that len by simp
      moreover have "0 \<notin> set ?t"
        by (auto dest: set_takeWhileD)
      moreover have "addr \<le> addr + of_nat (length ?t)" "unat addr + length ?t < unat ?sz"
        using k(1) [OF len] n len by (simp_all add: word_le_nat_alt)
      ultimately show ?thesis
        using b k(2) [OF len] by (auto simp only: run True if_True)
    next
      case False
      have "user_byte s va \<noteq> Some 0" if va: "addr \<le> va" "va < ?sz" for va
      proof -
        have "unat (va - addr) < ?n"
          using va n by (simp add: unat_sub word_less_nat_alt word_le_nat_alt)
        then have "?cs ! unat (va - addr) \<in> set ?cs" and "user_byte s va = Some (?cs ! unat (va - addr))"
          using nth_mem [of "unat (va - addr)" ?cs] byte [of "unat (va - addr)"] by (simp_all only: length_map length_upt diff_zero) simp
        then show ?thesis
          using False by (metis option.inject)
      qed
      moreover have "fetchstr addr s = Ret None s"
        using run False by (simp only: if_False)
      ultimately show ?thesis
        by simp
    qed
  qed
qed

theorem fetchstr_terminated_witness:
  "fetchstr 0 demo_user = Ret (Some [0x68, 0x69]) demo_user \<and> fetchstr 4096 demo_user = Ret None demo_user"
proof -
  have m: "user_byte demo_user va \<noteq> None" if "va < p_sz (ptable demo_user ! 0)" for va
    using that demo_user_byte by simp
  note t = fetchstr_terminated [of demo_user 0, OF _ m]
  have b: "user_byte demo_user 0 = Some 0x68" "user_byte demo_user 1 = Some 0x69" "user_byte demo_user 2 = Some 0"
    by (simp_all add: demo_user_byte demo_umem_def store32_def)
  obtain r where r: "fetchstr 0 demo_user = Ret r demo_user"
    "r = None \<longleftrightarrow> (\<forall>va. 0 \<le> va \<and> va < 4096 \<longrightarrow> user_byte demo_user va \<noteq> Some 0)"
    "\<And>cs. r = Some cs \<Longrightarrow> 0 \<notin> set cs \<and> (\<forall>k < length cs. user_byte demo_user (0 + of_nat k) = Some (cs ! k)) \<and>
      user_byte demo_user (0 + of_nat (length cs)) = Some 0"
    using t [of 0] by auto
  have "r \<noteq> None"
    using b(3) r(2) by auto
  then obtain cs where cs: "r = Some cs" by blast
  note c = r(3) [OF cs]
  have "length cs \<noteq> 0" "length cs \<noteq> 1"
    using c b by auto
  moreover have "\<not> 2 < length cs"
  proof
    assume "2 < length cs"
    then have "user_byte demo_user (0 + of_nat 2) = Some (cs ! 2)" "cs ! 2 \<in> set cs"
      using c by (blast, simp)
    then show False
      using c b(3) by auto
  qed
  ultimately have "length cs = 2"
    by linarith
  then have "cs = [cs ! 0, cs ! 1]"
    by (auto simp: numeral_2_eq_2 length_Suc_conv)
  moreover have "user_byte demo_user (0 + of_nat 0) = Some (cs ! 0)" "user_byte demo_user (0 + of_nat 1) = Some (cs ! 1)"
    using c \<open>length cs = 2\<close> by (metis zero_less_numeral, metis one_less_numeral_iff semiring_norm(76))
  then have "cs ! 0 = 0x68" "cs ! 1 = 0x69"
    using b by simp_all
  ultimately show ?thesis
    using r(1) cs t [of 4096] by force
qed

end
