(* ===== verification/Sysfile.thy ===== *)
theory Sysfile
  imports Syscall
begin

text \<open>
  The system calls about files (\<open>src/sysfile.c\<close>), \<open>exec\<close> (\<open>src/exec.c\<close>) and \<open>loaduvm\<close> of \<open>src/vm.c\<close>. The bytes a \<open>write\<close>
  takes are fetched from user memory before, and those a \<open>read\<close> yields are stored after, the call into \<open>File\<close>.
\<close>

section \<open>Descriptors\<close>

definition argfd :: "nat \<Rightarrow> ('a umach_scheme, (nat \<times> nat) option) op" where
  "argfd n =
     bind (argint n) (\<lambda>a.
     case a of
       None \<Rightarrow> ret None
     | Some fd \<Rightarrow>
       (if sint fd < 0 \<or> sint fd \<ge> int NOFILE then ret None
        else
        with_proc (\<lambda>i.
        bind (gets (\<lambda>s. p_ofile (ptable s ! i) ! unat fd)) (\<lambda>fo.
        ret (map_option (\<lambda>f. (unat fd, f)) fo)))))"

definition fdalloc :: "nat \<Rightarrow> ('a pmach_scheme, nat option) op" where
  "fdalloc f =
     with_proc (\<lambda>i.
     bind (gets (\<lambda>s. findi (\<lambda>fo. fo = None) (p_ofile (ptable s ! i)))) (\<lambda>found.
     case found of
       None \<Rightarrow> ret None
     | Some fd \<Rightarrow>
       seq (upd_proc i (\<lambda>p. p\<lparr>p_ofile := (p_ofile p)[fd := Some f]\<rparr>))
           (ret (Some fd))))"

definition clear_fd :: "nat \<Rightarrow> ('a pmach_scheme, unit) op" where
  "clear_fd fd = with_proc (\<lambda>i. upd_proc i (\<lambda>p. p\<lparr>p_ofile := (p_ofile p)[fd := None]\<rparr>))"

definition sys_dup :: "('a umach_scheme, int) op" where
  "sys_dup =
     bind (argfd 0) (\<lambda>a.
     case a of
       None \<Rightarrow> ret (- 1)
     | Some (_, f) \<Rightarrow>
       bind (fdalloc f) (\<lambda>r.
       case r of
         None \<Rightarrow> ret (- 1)
       | Some fd \<Rightarrow> bind (filedup f) (\<lambda>_. ret (int fd))))"

definition sys_read :: "('a umach_scheme, int) op" where
  "sys_read =
     bind (argfd 0) (\<lambda>a.
     case a of
       None \<Rightarrow> ret (- 1)
     | Some (_, f) \<Rightarrow>
       bind (argint 2) (\<lambda>b.
       case b of
         None \<Rightarrow> ret (- 1)
       | Some n \<Rightarrow>
         bind (argptr 1 (sint n)) (\<lambda>c.
         case c of
           None \<Rightarrow> ret (- 1)
         | Some p \<Rightarrow>
           bind (fileread f (sint n)) (\<lambda>(r, bs).
           seq (uwrites p bs)
               (ret r)))))"

definition sys_write :: "('a umach_scheme, int) op" where
  "sys_write =
     bind (argfd 0) (\<lambda>a.
     case a of
       None \<Rightarrow> ret (- 1)
     | Some (_, f) \<Rightarrow>
       bind (argint 2) (\<lambda>b.
       case b of
         None \<Rightarrow> ret (- 1)
       | Some n \<Rightarrow>
         bind (argptr 1 (sint n)) (\<lambda>c.
         case c of
           None \<Rightarrow> ret (- 1)
         | Some p \<Rightarrow>
           bind (ureads p (nat (sint n))) (\<lambda>bs.
           filewrite f bs (sint n)))))"

definition sys_close :: "('a umach_scheme, int) op" where
  "sys_close =
     bind (argfd 0) (\<lambda>a.
     case a of
       None \<Rightarrow> ret (- 1)
     | Some (fd, f) \<Rightarrow>
       seq (clear_fd fd)
      (seq (fileclose f)
           (ret 0)))"

text \<open>A \<open>struct stat\<close> is twenty bytes: the fields at 0, 4, 8, 12 and 16, with two bytes of padding after each short.\<close>

definition put_stat :: "u32 \<Rightarrow> stat \<Rightarrow> ('a vmach_scheme, unit) op" where
  "put_stat a st =
     seq (uwrites a (le16 (st_type st)))
    (seq (uwrites (a + 4) (le32 (st_dev st)))
    (seq (uwrites (a + 8) (le32 (st_ino st)))
    (seq (uwrites (a + 12) (le16 (st_nlink st)))
         (uwrites (a + 16) (le32 (st_size st))))))"

definition sys_fstat :: "('a umach_scheme, int) op" where
  "sys_fstat =
     bind (argfd 0) (\<lambda>a.
     case a of
       None \<Rightarrow> ret (- 1)
     | Some (_, f) \<Rightarrow>
       bind (argptr 1 20) (\<lambda>c.
       case c of
         None \<Rightarrow> ret (- 1)
       | Some p \<Rightarrow>
         bind (filestat f) (\<lambda>r.
         case r of
           None \<Rightarrow> ret (- 1)
         | Some st \<Rightarrow> seq (put_stat p st) (ret 0))))"

section \<open>Links\<close>

definition sys_link_bad :: "nat \<Rightarrow> ('a umach_scheme, int) op" where
  "sys_link_bad ip =
     seq (ilock ip)
    (seq (upd_inode ip (\<lambda>i. i\<lparr>i_nlink := i_nlink i - 1\<rparr>))
    (seq (iupdate ip)
    (seq (iunlockput ip)
    (seq end_op
         (ret (- 1))))))"

definition sys_link_to :: "nat \<Rightarrow> u8 list \<Rightarrow> ('a umach_scheme, int) op" where
  "sys_link_to ip new =
     bind (nameiparent new) (\<lambda>par.
     case par of
       None \<Rightarrow> sys_link_bad ip
     | Some (dp, name) \<Rightarrow>
       seq (ilock dp)
      (bind (get_inode dp) (\<lambda>d.
       bind (get_inode ip) (\<lambda>i.
       bind (if i_dev d \<noteq> i_dev i then ret True
             else bind (dirlink dp name (i_inum i)) (\<lambda>r. ret (r < 0))) (\<lambda>bad.
       if bad then seq (iunlockput dp) (sys_link_bad ip)
       else
       seq (iunlockput dp)
      (seq (iput ip)
      (seq end_op
           (ret 0))))))))"

definition sys_link :: "('a umach_scheme, int) op" where
  "sys_link =
     bind (argstr 0) (\<lambda>a.
     case a of
       None \<Rightarrow> ret (- 1)
     | Some old \<Rightarrow>
       bind (argstr 1) (\<lambda>b.
       case b of
         None \<Rightarrow> ret (- 1)
       | Some new \<Rightarrow>
         seq begin_op
        (bind (namei old) (\<lambda>found.
         case found of
           None \<Rightarrow> seq end_op (ret (- 1))
         | Some ip \<Rightarrow>
           seq (ilock ip)
          (bind (get_inode ip) (\<lambda>i.
           if i_type i = T_DIR then
             seq (iunlockput ip)
            (seq end_op
                 (ret (- 1)))
           else
           seq (upd_inode ip (\<lambda>i. i\<lparr>i_nlink := i_nlink i + 1\<rparr>))
          (seq (iupdate ip)
          (seq (iunlock ip)
               (sys_link_to ip new)))))))))"

section \<open>Removing\<close>

fun isdirempty_loop :: "nat \<Rightarrow> nat list \<Rightarrow> ('a umach_scheme, bool) op" where
  "isdirempty_loop dp [] = ret True"
| "isdirempty_loop dp (off # offs) =
     bind (readi dp (of_nat off) (of_nat DIRENT_SIZE)) (\<lambda>(r, de).
     if r \<noteq> int DIRENT_SIZE then panic ''isdirempty: readi''
     else if de_inum de \<noteq> 0 then ret False
     else isdirempty_loop dp offs)"

definition isdirempty :: "nat \<Rightarrow> ('a umach_scheme, bool) op" where
  "isdirempty dp = bind (get_inode dp) (\<lambda>d. isdirempty_loop dp (drop 2 (de_offs (i_size d))))"

definition sys_unlink_bad :: "nat \<Rightarrow> ('a umach_scheme, int) op" where
  "sys_unlink_bad dp = seq (iunlockput dp) (seq end_op (ret (- 1)))"

text \<open>The part of \<open>sys_unlink\<close> after the entry was found at offset \<open>off\<close> of \<open>dp\<close>.\<close>

definition sys_unlink_entry :: "nat \<Rightarrow> nat \<Rightarrow> nat \<Rightarrow> ('a umach_scheme, int) op" where
  "sys_unlink_entry dp ip off =
     seq (ilock ip)
    (bind (get_inode ip) (\<lambda>i.
     if sint (i_nlink i) < 1 then panic ''unlink: nlink < 1''
     else
     bind (if i_type i = T_DIR then isdirempty ip else ret True) (\<lambda>ok.
     if \<not> ok then seq (iunlockput ip) (sys_unlink_bad dp)
     else
     bind (writei dp (replicate DIRENT_SIZE 0) (of_nat off)) (\<lambda>r.
     if r \<noteq> int DIRENT_SIZE then panic ''unlink: writei''
     else
     seq (whenM (i_type i = T_DIR)
            (seq (upd_inode dp (\<lambda>d. d\<lparr>i_nlink := i_nlink d - 1\<rparr>))
                 (iupdate dp)))
    (seq (iunlockput dp)
    (seq (upd_inode ip (\<lambda>i. i\<lparr>i_nlink := i_nlink i - 1\<rparr>))
    (seq (iupdate ip)
    (seq (iunlockput ip)
    (seq end_op
         (ret 0))))))))))"

definition sys_unlink :: "('a umach_scheme, int) op" where
  "sys_unlink =
     bind (argstr 0) (\<lambda>a.
     case a of
       None \<Rightarrow> ret (- 1)
     | Some path \<Rightarrow>
       seq begin_op
      (bind (nameiparent path) (\<lambda>par.
       case par of
         None \<Rightarrow> seq end_op (ret (- 1))
       | Some (dp, name) \<Rightarrow>
         seq (ilock dp)
        (if namecmp name (bytes ''.'') = 0 \<or> namecmp name (bytes ''..'') = 0 then sys_unlink_bad dp
         else
         bind (dirlookup dp name) (\<lambda>found.
         case found of
           None \<Rightarrow> sys_unlink_bad dp
         | Some (ip, off) \<Rightarrow> sys_unlink_entry dp ip off)))))"

section \<open>Creating and opening\<close>

definition O_RDONLY :: u32 where [simp]: "O_RDONLY = 0x000"
definition O_WRONLY :: u32 where [simp]: "O_WRONLY = 0x001"
definition O_RDWR :: u32 where [simp]: "O_RDWR = 0x002"
definition O_CREATE :: u32 where [simp]: "O_CREATE = 0x200"

text \<open>The part of \<open>create\<close> after the name was found to be free in the locked directory \<open>dp\<close>.\<close>

definition create_new :: "nat \<Rightarrow> u8 list \<Rightarrow> u16 \<Rightarrow> u16 \<Rightarrow> u16 \<Rightarrow> ('a umach_scheme, nat option) op" where
  "create_new dp name typ major minor =
     bind (get_inode dp) (\<lambda>d.
     bind (ialloc (i_dev d) typ) (\<lambda>ip.
     seq (ilock ip)
    (seq (upd_inode ip (\<lambda>i. i\<lparr>i_major := major, i_minor := minor, i_nlink := 1\<rparr>))
    (seq (iupdate ip)
    (bind (get_inode ip) (\<lambda>i.
     seq (whenM (typ = T_DIR)
            (seq (upd_inode dp (\<lambda>d. d\<lparr>i_nlink := i_nlink d + 1\<rparr>))
            (seq (iupdate dp)
            (bind (dirlink ip (bytes ''.'') (i_inum i)) (\<lambda>r.
             if r < 0 then panic ''create dots''
             else
             bind (dirlink ip (bytes ''..'') (i_inum d)) (\<lambda>r.
             if r < 0 then panic ''create dots'' else ret ()))))))
    (bind (dirlink dp name (i_inum i)) (\<lambda>r.
     if r < 0 then panic ''create: dirlink''
     else
     seq (iunlockput dp)
         (ret (Some ip))))))))))"

definition create :: "u8 list \<Rightarrow> u16 \<Rightarrow> u16 \<Rightarrow> u16 \<Rightarrow> ('a umach_scheme, nat option) op" where
  "create path typ major minor =
     bind (nameiparent path) (\<lambda>par.
     case par of
       None \<Rightarrow> ret None
     | Some (dp, name) \<Rightarrow>
       seq (ilock dp)
      (bind (dirlookup dp name) (\<lambda>found.
       case found of
         Some (ip, _) \<Rightarrow>
           seq (iunlockput dp)
          (seq (ilock ip)
          (bind (get_inode ip) (\<lambda>i.
           if typ = T_FILE \<and> i_type i = T_FILE then ret (Some ip)
           else seq (iunlockput ip) (ret None))))
       | None \<Rightarrow> create_new dp name typ major minor)))"

text \<open>The part of \<open>sys_open\<close> after the inode was found or made and locked.\<close>

definition sys_open_inode :: "nat \<Rightarrow> u32 \<Rightarrow> ('a umach_scheme, int) op" where
  "sys_open_inode ip omode =
     bind filealloc (\<lambda>fo.
     case fo of
       None \<Rightarrow> seq (iunlockput ip) (seq end_op (ret (- 1)))
     | Some f \<Rightarrow>
       bind (fdalloc f) (\<lambda>fdo.
       case fdo of
         None \<Rightarrow> seq (fileclose f) (seq (iunlockput ip) (seq end_op (ret (- 1))))
       | Some fd \<Rightarrow>
         seq (iunlock ip)
        (seq end_op
        (seq (upd_file f (\<lambda>ff. ff\<lparr>f_type := FD_INODE, f_ip := ip, f_off := 0,
                f_readable := (omode AND O_WRONLY = 0),
                f_writable := (omode AND O_WRONLY \<noteq> 0 \<or> omode AND O_RDWR \<noteq> 0)\<rparr>))
             (ret (int fd))))))"

definition sys_open :: "('a umach_scheme, int) op" where
  "sys_open =
     bind (argstr 0) (\<lambda>a.
     case a of
       None \<Rightarrow> ret (- 1)
     | Some path \<Rightarrow>
       bind (argint 1) (\<lambda>b.
       case b of
         None \<Rightarrow> ret (- 1)
       | Some omode \<Rightarrow>
         seq begin_op
        (if omode AND O_CREATE \<noteq> 0 then
           bind (create path T_FILE 0 0) (\<lambda>r.
           case r of
             None \<Rightarrow> seq end_op (ret (- 1))
           | Some ip \<Rightarrow> sys_open_inode ip omode)
         else
           bind (namei path) (\<lambda>r.
           case r of
             None \<Rightarrow> seq end_op (ret (- 1))
           | Some ip \<Rightarrow>
             seq (ilock ip)
            (bind (get_inode ip) (\<lambda>i.
             if i_type i = T_DIR \<and> omode \<noteq> O_RDONLY then
               seq (iunlockput ip)
              (seq end_op
                   (ret (- 1)))
             else sys_open_inode ip omode))))))"

definition sys_mkdir :: "('a umach_scheme, int) op" where
  "sys_mkdir =
     seq begin_op
    (bind (argstr 0) (\<lambda>a.
     bind (case a of None \<Rightarrow> ret None | Some path \<Rightarrow> create path T_DIR 0 0) (\<lambda>r.
     case r of
       None \<Rightarrow> seq end_op (ret (- 1))
     | Some ip \<Rightarrow>
       seq (iunlockput ip)
      (seq end_op
           (ret 0)))))"

text \<open>\<open>major\<close> and \<open>minor\<close> are converted to shorts.\<close>

definition sys_mknod :: "('a umach_scheme, int) op" where
  "sys_mknod =
     seq begin_op
    (bind (argstr 0) (\<lambda>a.
     bind (case a of
             None \<Rightarrow> ret None
           | Some path \<Rightarrow>
             bind (argint 1) (\<lambda>b.
             case b of
               None \<Rightarrow> ret None
             | Some major \<Rightarrow>
               bind (argint 2) (\<lambda>c.
               case c of
                 None \<Rightarrow> ret None
               | Some minor \<Rightarrow> create path T_DEV (ucast major) (ucast minor)))) (\<lambda>r.
     case r of
       None \<Rightarrow> seq end_op (ret (- 1))
     | Some ip \<Rightarrow>
       seq (iunlockput ip)
      (seq end_op
           (ret 0)))))"

definition sys_chdir :: "('a umach_scheme, int) op" where
  "sys_chdir =
     seq begin_op
    (bind (argstr 0) (\<lambda>a.
     bind (case a of None \<Rightarrow> ret None | Some path \<Rightarrow> namei path) (\<lambda>r.
     case r of
       None \<Rightarrow> seq end_op (ret (- 1))
     | Some ip \<Rightarrow>
       seq (ilock ip)
      (bind (get_inode ip) (\<lambda>i.
       if i_type i \<noteq> T_DIR then
         seq (iunlockput ip)
        (seq end_op
             (ret (- 1)))
       else
       seq (iunlock ip)
      (with_proc (\<lambda>me.
       bind (gets (\<lambda>s. p_cwd (ptable s ! me))) (\<lambda>cwd.
       seq (case cwd of None \<Rightarrow> fault | Some d \<Rightarrow> iput d)
      (seq end_op
      (seq (upd_proc me (p_cwd_update (\<lambda>_. Some ip)))
           (ret 0)))))))))))"

definition sys_pipe :: "('a umach_scheme, int) op" where
  "sys_pipe =
     bind (argptr 0 8) (\<lambda>a.
     case a of
       None \<Rightarrow> ret (- 1)
     | Some fd \<Rightarrow>
       bind pipealloc (\<lambda>r.
       case r of
         None \<Rightarrow> ret (- 1)
       | Some (rdf, wrf) \<Rightarrow>
         bind (fdalloc rdf) (\<lambda>r0.
         case r0 of
           None \<Rightarrow> seq (fileclose rdf) (seq (fileclose wrf) (ret (- 1)))
         | Some fd0 \<Rightarrow>
           bind (fdalloc wrf) (\<lambda>r1.
           case r1 of
             None \<Rightarrow> seq (clear_fd fd0) (seq (fileclose rdf) (seq (fileclose wrf) (ret (- 1))))
           | Some fd1 \<Rightarrow>
             seq (uwrites fd (le32 (of_nat fd0)))
            (seq (uwrites (fd + 4) (le32 (of_nat fd1)))
                 (ret 0))))))"

section \<open>Executing a program\<close>

text \<open>\<open>loaduvm\<close>: each round reads at most one page of the file, straight into the page's memory.\<close>

fun loaduvm_loop :: "u32 \<Rightarrow> u32 \<Rightarrow> nat \<Rightarrow> u32 \<Rightarrow> u32 \<Rightarrow> nat list \<Rightarrow> ('a umach_scheme, int) op" where
  "loaduvm_loop pgdir addr ip offset sz [] = ret 0"
| "loaduvm_loop pgdir addr ip offset sz (k # ks) =
     bind (walkpgdir pgdir (addr + of_nat k) False) (\<lambda>pte.
     if pte = 0 then panic ''loaduvm: address should exist''
     else
     bind (gets (\<lambda>s. PTE_ADDR (load32 (mem s) pte))) (\<lambda>pa.
     let n = (if sz - of_nat k < PGSIZE then sz - of_nat k else PGSIZE) in
     bind (readi ip (offset + of_nat k) n) (\<lambda>(r, bs).
     seq (modify (\<lambda>s. s\<lparr>mem := store_bytes (mem s) (p2v pa) bs\<rparr>))
    (if word_of_int r \<noteq> n then ret (- 1)
     else loaduvm_loop pgdir addr ip offset sz ks))))"

definition loaduvm :: "u32 \<Rightarrow> u32 \<Rightarrow> nat \<Rightarrow> u32 \<Rightarrow> u32 \<Rightarrow> ('a umach_scheme, int) op" where
  "loaduvm pgdir addr ip offset sz =
     (if addr mod PGSIZE \<noteq> 0 then panic ''loaduvm: addr must be page aligned''
      else loaduvm_loop pgdir addr ip offset sz
             (map (\<lambda>k. k * 4096) [0..<(unat sz + 4095) div 4096]))"

definition ELF_MAGIC :: u32 where [simp]: "ELF_MAGIC = 0x464C457F"
definition ELF_PROG_LOAD :: u32 where [simp]: "ELF_PROG_LOAD = 1"
definition SIZEOF_ELFHDR :: nat where [simp]: "SIZEOF_ELFHDR = 52"
definition SIZEOF_PROGHDR :: nat where [simp]: "SIZEOF_PROGHDR = 32"

text \<open>The label \<open>bad\<close> of \<open>exec\<close>; \<open>ip\<close> is \<open>None\<close> once the inode has been released.\<close>

definition exec_bad :: "u32 \<Rightarrow> nat option \<Rightarrow> ('a umach_scheme, int) op" where
  "exec_bad pgdir ipo =
     seq (whenM (pgdir \<noteq> 0) (freevm pgdir))
    (seq (case ipo of None \<Rightarrow> ret () | Some ip \<Rightarrow> seq (iunlockput ip) end_op)
         (ret (- 1)))"

text \<open>The program headers; the result is the size of the image, \<open>None\<close> standing for the jump to \<open>bad\<close>.\<close>

fun exec_load :: "u32 \<Rightarrow> nat \<Rightarrow> u32 \<Rightarrow> u32 \<Rightarrow> nat \<Rightarrow> ('a umach_scheme, u32 option) op" where
  "exec_load pgdir ip off sz 0 = ret (Some sz)"
| "exec_load pgdir ip off sz (Suc k) =
     bind (readi ip off (of_nat SIZEOF_PROGHDR)) (\<lambda>(r, ph).
     if r \<noteq> int SIZEOF_PROGHDR then ret None
     else if get32 ph 0 \<noteq> ELF_PROG_LOAD then exec_load pgdir ip (off + of_nat SIZEOF_PROGHDR) sz k
     else if get32 ph 20 < get32 ph 16 then ret None
     else
     bind (allocuvm pgdir sz (get32 ph 8 + get32 ph 20)) (\<lambda>sz'.
     if sz' = 0 then ret None
     else
     bind (loaduvm pgdir (get32 ph 8) ip (get32 ph 4) (get32 ph 16)) (\<lambda>r.
     if r < 0 then ret None
     else exec_load pgdir ip (off + of_nat SIZEOF_PROGHDR) sz' k)))"

text \<open>The argument strings, pushed from \<open>sp\<close> down; the result is the stack pointer with the addresses of the strings.\<close>

fun exec_args :: "u32 \<Rightarrow> u32 \<Rightarrow> u8 list list \<Rightarrow> u32 list \<Rightarrow> ('a umach_scheme, (u32 \<times> u32 list) option) op" where
  "exec_args pgdir sp [] ust = ret (Some (sp, ust))"
| "exec_args pgdir sp (arg # args) ust =
     (if length ust \<ge> MAXARG then ret None
      else
      let sp' = (sp - (of_nat (strlen arg) + 1)) AND NOT 3 in
      bind (copyout pgdir sp' (take (strlen arg) arg @ [0])) (\<lambda>r.
      if r < 0 then ret None
      else exec_args pgdir sp' args (ust @ [sp'])))"

fun last_elem :: "u8 list \<Rightarrow> u8 list \<Rightarrow> u8 list" where
  "last_elem [] l = l"
| "last_elem (c # s) l = last_elem s (if c = SLASH then s else l)"

text \<open>The commit to the new image.\<close>

definition exec_commit :: "u8 list \<Rightarrow> u32 \<Rightarrow> u32 \<Rightarrow> u32 \<Rightarrow> u32 \<Rightarrow> ('a umach_scheme, int) op" where
  "exec_commit path pgdir sz entry sp =
     with_proc (\<lambda>me.
     seq (upd_proc me (p_name_update (\<lambda>_. copied_name (last_elem path path) 16)))
    (bind (gets (\<lambda>s. p_pgdir (ptable s ! me))) (\<lambda>oldpgdir.
     seq (upd_proc me (\<lambda>p. p\<lparr>p_pgdir := pgdir, p_sz := sz\<rparr>))
    (seq (tf_put tf_eip entry)
    (seq (tf_put tf_esp sp)
    (bind (gets (\<lambda>s. ptable s ! me)) (\<lambda>p.
     seq (switchuvm (p_kstack p) (p_pgdir p))
    (seq (freevm oldpgdir)
         (ret 0)))))))))"

definition exec_stack :: "u8 list \<Rightarrow> u8 list list \<Rightarrow> u32 \<Rightarrow> u32 \<Rightarrow> u32 \<Rightarrow> ('a umach_scheme, int) op" where
  "exec_stack path argv pgdir sz0 entry =
     (let sz1 = PGROUNDUP sz0 in
      bind (allocuvm pgdir sz1 (sz1 + 2 * PGSIZE)) (\<lambda>sz.
      if sz = 0 then exec_bad pgdir None
      else
      seq (clearpteu pgdir (sz - 2 * PGSIZE))
     (bind (exec_args pgdir sz argv []) (\<lambda>res.
      case res of
        None \<Rightarrow> exec_bad pgdir None
      | Some (sp, ust) \<Rightarrow>
        let argc = of_nat (length ust); sp' = sp - (3 + argc + 1) * 4;
            ustack = [0xFFFFFFFF, argc, sp - (argc + 1) * 4] @ ust @ [0] in
        bind (copyout pgdir sp' (concat (map le32 ustack))) (\<lambda>r.
        if r < 0 then exec_bad pgdir None
        else exec_commit path pgdir sz entry sp')))))"

text \<open>
  \<open>exec\<close>. The test of the length of the ELF header compares an \<open>int\<close> with a \<open>size_t\<close>, so that the error value \<open>-1\<close> passes as a huge
  number; the header is then what \<open>junk\<close>, the uninitialised variable on the stack, holds.
\<close>

definition exec :: "u8 list \<Rightarrow> u8 list \<Rightarrow> u8 list list \<Rightarrow> ('a umach_scheme, int) op" where
  "exec junk path argv =
     seq begin_op
    (bind (namei path) (\<lambda>found.
     case found of
       None \<Rightarrow> seq end_op (ret (- 1))
     | Some ip \<Rightarrow>
       seq (ilock ip)
      (bind (readi ip 0 (of_nat SIZEOF_ELFHDR)) (\<lambda>(r, bs).
       if (word_of_int r :: u32) < of_nat SIZEOF_ELFHDR then exec_bad 0 (Some ip)
       else
       let elf = overlay junk 0 bs in
       if get32 elf 0 \<noteq> ELF_MAGIC then exec_bad 0 (Some ip)
       else
       bind setupkvm (\<lambda>pgdir.
       if pgdir = 0 then exec_bad 0 (Some ip)
       else
       bind (exec_load pgdir ip (get32 elf 28) 0 (unat (get16 elf 44))) (\<lambda>szo.
       case szo of
         None \<Rightarrow> exec_bad pgdir (Some ip)
       | Some sz \<Rightarrow>
         seq (iunlockput ip)
        (seq end_op
             (exec_stack path argv pgdir sz (get32 elf 24)))))))))"

fun fetch_argv :: "nat \<Rightarrow> u32 \<Rightarrow> ('a umach_scheme, u8 list list option) op" where
  "fetch_argv 0 a = ret None"
| "fetch_argv (Suc k) a =
     bind (fetchint a) (\<lambda>u.
     case u of
       None \<Rightarrow> ret None
     | Some uarg \<Rightarrow>
       (if uarg = 0 then ret (Some [])
        else
        bind (fetchstr uarg) (\<lambda>so.
        case so of
          None \<Rightarrow> ret None
        | Some str \<Rightarrow>
          bind (fetch_argv k (a + 4)) (\<lambda>r.
          ret (map_option (\<lambda>ss. str # ss) r)))))"

definition sys_exec :: "u8 list \<Rightarrow> ('a umach_scheme, int) op" where
  "sys_exec junk =
     bind (argstr 0) (\<lambda>a.
     case a of
       None \<Rightarrow> ret (- 1)
     | Some path \<Rightarrow>
       bind (argint 1) (\<lambda>b.
       case b of
         None \<Rightarrow> ret (- 1)
       | Some uargv \<Rightarrow>
         bind (fetch_argv MAXARG uargv) (\<lambda>r.
         case r of
           None \<Rightarrow> ret (- 1)
         | Some argv \<Rightarrow> exec junk path argv)))"

end
