(* ===== verification/Trap.thy ===== *)
theory Trap
  imports Sysfile
begin

text \<open>
  Traps: the dispatch of system calls (\<open>syscall\<close> of \<open>src/syscall.c\<close>), the interrupt descriptor table and \<open>trap\<close> of
  \<open>src/trap.c\<close>. The disk driver is the memory disk, whose interrupt handler does nothing. The addresses of the entry points
  (\<open>vectors\<close>, a table made by the build) are an argument of \<open>tvinit\<close>.
\<close>

section \<open>System calls\<close>

text \<open>The table \<open>syscalls\<close>, with the numbers of \<open>src/syscall.h\<close>; \<open>junk\<close> is handed to \<open>exec\<close>.\<close>

definition syscalls :: "u8 list \<Rightarrow> int \<Rightarrow> ('a umach_scheme, int) op option" where
  "syscalls junk num =
     (if num < 1 \<or> num > 23 then None
      else Some ([sys_fork, sys_exit, sys_wait, sys_pipe, sys_read, sys_kill, sys_exec junk, sys_fstat, sys_chdir, sys_dup,
        sys_getpid, sys_sbrk, sys_sleep, sys_uptime, sys_open, sys_write, sys_mknod, sys_unlink, sys_link, sys_mkdir,
        sys_close, sys_enable_sched_trace, sys_uprog_shut] ! (nat num - 1)))"

definition syscall :: "u8 list \<Rightarrow> ('a umach_scheme, unit) op" where
  "syscall junk =
     bind (tf_get tf_eax) (\<lambda>num.
     case syscalls junk (sint num) of
       Some f \<Rightarrow> bind f (\<lambda>r. tf_put tf_eax (word_of_int r))
     | None \<Rightarrow>
       with_proc (\<lambda>i.
       bind (gets (\<lambda>s. ptable s ! i)) (\<lambda>p.
       seq (cprintf ''%d %s: unknown sys call %d\<newline>'' [Word (p_pid p), Str (Some (p_name p)), Word num])
           (tf_put tf_eax (- 1)))))"

section \<open>The descriptor table\<close>

record gatedesc =
  off_15_0 :: u16
  gd_cs :: u16
  gd_args :: u8
  gd_rsv1 :: u8
  gd_type :: u8
  gd_s :: bool
  gd_dpl :: u8
  gd_p :: bool
  off_31_16 :: u16

record tmach = umach +
  idt :: "gatedesc list"
  idtr :: bool
  cr2 :: u32

definition T_SYSCALL :: nat where [simp]: "T_SYSCALL = 64"
definition SEG_KCODE :: u16 where [simp]: "SEG_KCODE = 1"

definition SETGATE :: "bool \<Rightarrow> u16 \<Rightarrow> u32 \<Rightarrow> u8 \<Rightarrow> gatedesc" where
  "SETGATE istrap sel off d =
     \<lparr>off_15_0 = ucast (off AND 0xFFFF), gd_cs = sel, gd_args = 0, gd_rsv1 = 0,
      gd_type = (if istrap then 0xF else 0xE), gd_s = False, gd_dpl = d, gd_p = True,
      off_31_16 = ucast (drop_bit 16 off)\<rparr>"

definition tvinit :: "(nat \<Rightarrow> u32) \<Rightarrow> ('a tmach_scheme, unit) op" where
  "tvinit vectors =
     seq (forM [0..<256] (\<lambda>i. modify (\<lambda>s. s\<lparr>idt := (idt s)[i := SETGATE False (push_bit 3 SEG_KCODE) (vectors i) 0]\<rparr>)))
    (seq (modify (\<lambda>s. s\<lparr>idt := (idt s)[T_SYSCALL := SETGATE True (push_bit 3 SEG_KCODE) (vectors T_SYSCALL) 3]\<rparr>))
         (initlock TicksLock))"

definition idtinit :: "('a tmach_scheme, unit) op" where
  "idtinit = modify (\<lambda>s. s\<lparr>idtr := True\<rparr>)"

section \<open>The trap handler\<close>

text \<open>\<open>ideintr\<close> of \<open>src/memide.c\<close>.\<close>

definition ideintr :: "('a bmach_scheme, unit) op" where
  "ideintr = ret ()"

definition trap_timer :: "('a tmach_scheme, unit) op" where
  "trap_timer =
     bind (gets (\<lambda>s. cpu_id (mycpu s))) (\<lambda>id.
     seq (whenM (id = 0)
            (seq (acquire TicksLock)
            (seq (modify (\<lambda>s. s\<lparr>ticks := ticks s + 1\<rparr>))
            (seq (wakeup TicksChan)
                 (release TicksLock)))))
          lapiceoi)"

text \<open>The \<open>default\<close> case; \<open>trapno\<close>, \<open>cs\<close>, \<open>eip\<close> and \<open>err\<close> are fields of the trap frame.\<close>

definition trap_unexpected :: "u32 \<Rightarrow> u16 \<Rightarrow> u32 \<Rightarrow> u32 \<Rightarrow> ('a tmach_scheme, unit) op" where
  "trap_unexpected trapno cs eip err =
     bind (gets (\<lambda>s. s)) (\<lambda>g.
     case curproc g of
       None \<Rightarrow>
         seq (cprintf ''unexpected trap %d from cpu %d eip %x (cr2=0x%x)\<newline>''
                [Word trapno, Word (of_nat (cpu_id (mycpu g))), Word eip, Word (cr2 g)])
             (panic ''trap'')
     | Some i \<Rightarrow>
       if cs AND 3 = 0 then
         seq (cprintf ''unexpected trap %d from cpu %d eip %x (cr2=0x%x)\<newline>''
                [Word trapno, Word (of_nat (cpu_id (mycpu g))), Word eip, Word (cr2 g)])
             (panic ''trap'')
       else
         seq (cprintf ''pid %d %s: trap %d err %d on cpu %d eip 0x%x addr 0x%x--kill proc\<newline>''
                [Word (p_pid (ptable g ! i)), Str (Some (p_name (ptable g ! i))), Word trapno, Word err,
                 Word (of_nat (cpu_id (mycpu g))), Word eip, Word (cr2 g)])
             (upd_proc i (p_killed_update (\<lambda>_. True))))"

text \<open>The test for a killed process that is about to return to user space.\<close>

definition exit_if_killed :: "u16 \<Rightarrow> ('a tmach_scheme, unit) op" where
  "exit_if_killed cs =
     bind (gets (\<lambda>s. s)) (\<lambda>g.
     case curproc g of
       None \<Rightarrow> ret ()
     | Some i \<Rightarrow> whenM (p_killed (ptable g ! i) \<and> cs AND 3 = DPL_USER) exit)"

text \<open>Every interrupt but a timer tick ends here at once; the last test is made again after the process has run again.\<close>

definition trap_return :: "u32 \<Rightarrow> u16 \<Rightarrow> ('a tmach_scheme, unit) op" where
  "trap_return trapno cs =
     seq (exit_if_killed cs)
    (bind (gets (\<lambda>s. s)) (\<lambda>g.
     seq (case curproc g of
            None \<Rightarrow> ret ()
          | Some i \<Rightarrow> whenM (p_state (ptable g ! i) = RUNNING \<and> trapno = T_IRQ0 + of_nat IRQ_TIMER) yield)
         (exit_if_killed cs)))"

definition trap_syscall :: "u8 list \<Rightarrow> u32 \<Rightarrow> ('a tmach_scheme, unit) op" where
  "trap_syscall junk tf =
     with_proc (\<lambda>i.
     bind (gets (\<lambda>s. p_killed (ptable s ! i))) (\<lambda>k.
     seq (whenM k exit)
    (seq (upd_proc i (p_tf_update (\<lambda>_. tf)))
    (seq (syscall junk)
    (bind (gets (\<lambda>s. p_killed (ptable s ! i))) (\<lambda>k.
     whenM k exit))))))"

definition trap :: "u8 list \<Rightarrow> u32 \<Rightarrow> ('a tmach_scheme, unit) op" where
  "trap junk tf =
     bind (gets (\<lambda>s. load32 (mem s) (tf + tf_trapno))) (\<lambda>trapno.
     if trapno = of_nat T_SYSCALL then trap_syscall junk tf
     else
     bind (gets (\<lambda>s. load16 (mem s) (tf + tf_cs))) (\<lambda>cs.
     bind (gets (\<lambda>s. load32 (mem s) (tf + tf_eip))) (\<lambda>eip.
     bind (gets (\<lambda>s. load32 (mem s) (tf + tf_err))) (\<lambda>err.
     bind (gets (\<lambda>s. cpu_id (mycpu s))) (\<lambda>id.
     seq (if trapno = T_IRQ0 + of_nat IRQ_TIMER then trap_timer
          else if trapno = T_IRQ0 + of_nat IRQ_IDE then seq ideintr lapiceoi
          else if trapno = T_IRQ0 + of_nat IRQ_IDE + 1 then ret ()
          else if trapno = T_IRQ0 + of_nat IRQ_KBD then seq kbdintr lapiceoi
          else if trapno = T_IRQ0 + of_nat IRQ_COM1 then seq uartintr lapiceoi
          else if trapno = T_IRQ0 + 7 \<or> trapno = T_IRQ0 + of_nat IRQ_SPURIOUS then
            seq (cprintf ''cpu%d: spurious interrupt at %x:%x\<newline>'' [Word (of_nat id), Word (ucast cs), Word eip])
                 lapiceoi
          else trap_unexpected trapno cs eip err)
         (trap_return trapno cs))))))"

end
