(* ===== verification/Boot.thy ===== *)
theory Boot
  imports Trap
begin

text \<open>
  Starting the machine: the boot loader (\<open>src/bootmain.c\<close>), which runs alone on the bare memory, the segment descriptors
  (\<open>seginit\<close> of \<open>src/vm.c\<close>), and \<open>src/main.c\<close>. Addresses fixed by the linker, and what the devices answer, are arguments.
\<close>

section \<open>The boot loader\<close>

text \<open>\<open>b_status\<close> holds the values the disk's status port will show, \<open>b_sect\<close> the sectors of the boot disk.\<close>

record boot =
  b_mem :: memory
  b_ports :: "(u16 \<times> u8) list"
  b_status :: "u8 list"
  b_sect :: "u32 \<Rightarrow> u8 list"

definition SECTSIZE :: nat where [simp]: "SECTSIZE = 512"

text \<open>The result \<open>None\<close> stands for waiting for a disk that never gets ready.\<close>

definition waitdisk :: "boot \<Rightarrow> boot option" where
  "waitdisk b =
     (case dropWhile (\<lambda>r. r AND 0xC0 \<noteq> 0x40) (b_status b) of
        [] \<Rightarrow> None
      | _ # st \<Rightarrow> Some (b\<lparr>b_status := st\<rparr>))"

definition readsect :: "u32 \<Rightarrow> u32 \<Rightarrow> boot \<Rightarrow> boot option" where
  "readsect dst offset b =
     (case waitdisk b of
        None \<Rightarrow> None
      | Some b1 \<Rightarrow>
        (let b2 = b1\<lparr>b_ports := b_ports b1 @ [(0x1F2, 1), (0x1F3, ucast offset), (0x1F4, ucast (drop_bit 8 offset)),
               (0x1F5, ucast (drop_bit 16 offset)), (0x1F6, ucast (drop_bit 24 offset OR 0xE0)), (0x1F7, 0x20)]\<rparr>
         in case waitdisk b2 of
              None \<Rightarrow> None
            | Some b3 \<Rightarrow> Some (b3\<lparr>b_mem := store_bytes (b_mem b3) dst (take SECTSIZE (b_sect b3 offset))\<rparr>)))"

fun readseg_loop :: "nat \<Rightarrow> u32 \<Rightarrow> u32 \<Rightarrow> u32 \<Rightarrow> boot \<Rightarrow> boot option" where
  "readseg_loop 0 pa epa offset b = None"
| "readseg_loop (Suc k) pa epa offset b =
     (if pa < epa then
        (case readsect pa offset b of
           None \<Rightarrow> None
         | Some b' \<Rightarrow> readseg_loop k (pa + of_nat SECTSIZE) epa (offset + 1) b')
      else Some b)"

text \<open>No segment has more sectors than the address space.\<close>

definition readseg :: "u32 \<Rightarrow> u32 \<Rightarrow> u32 \<Rightarrow> boot \<Rightarrow> boot option" where
  "readseg pa count offset b =
     readseg_loop 8388610 (pa - offset mod of_nat SECTSIZE) (pa + count) (offset div of_nat SECTSIZE + 1) b"

fun bootmain_loop :: "nat \<Rightarrow> u32 \<Rightarrow> boot \<Rightarrow> boot option" where
  "bootmain_loop 0 ph b = Some b"
| "bootmain_loop (Suc k) ph b =
     (let pa = load32 (b_mem b) (ph + 12); filesz = load32 (b_mem b) (ph + 16)
      in case readseg pa filesz (load32 (b_mem b) (ph + 4)) b of
           None \<Rightarrow> None
         | Some b1 \<Rightarrow>
           (let memsz = load32 (b_mem b1) (ph + 20); filesz1 = load32 (b_mem b1) (ph + 16);
                b2 = (if memsz > filesz1
                      then b1\<lparr>b_mem := stosb (pa + filesz1) 0 (unat (memsz - filesz1)) (b_mem b1)\<rparr> else b1)
            in bootmain_loop k (ph + 32) b2))"

text \<open>The result is the entry point the loader jumps to, \<open>0\<close> when the image is not an ELF file and it returns.\<close>

definition bootmain :: "boot \<Rightarrow> (u32 \<times> boot) option" where
  "bootmain b =
     (let elf = 0x10000
      in case readseg elf 4096 0 b of
           None \<Rightarrow> None
         | Some b1 \<Rightarrow>
           (if load32 (b_mem b1) elf \<noteq> ELF_MAGIC then Some (0, b1)
            else
            (case bootmain_loop (unat (load16 (b_mem b1) (elf + 44))) (elf + load32 (b_mem b1) (elf + 28)) b1 of
               None \<Rightarrow> None
             | Some b2 \<Rightarrow> Some (load32 (b_mem b2) (elf + 24), b2))))"

section \<open>Segments\<close>

record segdesc =
  lim_15_0 :: u16
  base_15_0 :: u16
  base_23_16 :: u8
  sg_type :: u8
  sg_s :: bool
  sg_dpl :: u8
  sg_p :: bool
  lim_19_16 :: u8
  sg_avl :: bool
  sg_rsv1 :: bool
  sg_db :: bool
  sg_g :: bool
  base_31_24 :: u8

definition SEG :: "u8 \<Rightarrow> u32 \<Rightarrow> u32 \<Rightarrow> u8 \<Rightarrow> segdesc" where
  "SEG typ base lim dpl =
     \<lparr>lim_15_0 = ucast (drop_bit 12 lim AND 0xFFFF), base_15_0 = ucast (base AND 0xFFFF),
      base_23_16 = ucast (drop_bit 16 base AND 0xFF), sg_type = typ, sg_s = True, sg_dpl = dpl, sg_p = True,
      lim_19_16 = ucast (drop_bit 28 lim), sg_avl = False, sg_rsv1 = False, sg_db = True, sg_g = True,
      base_31_24 = ucast (drop_bit 24 base)\<rparr>"

text \<open>
  The descriptor tables of the processors, \<open>cpu->started\<close>, and \<open>gdtr\<close>, the processor whose table is loaded. \<open>cpus_cpu i\<close> is the
  address of the field \<open>cpu\<close> of \<open>cpus[i]\<close>.
\<close>

record gmach = tmach +
  gdts :: "segdesc list list"
  started :: "bool list"
  gdtr :: nat
  gs :: u32

definition seginit :: "(nat \<Rightarrow> u32) \<Rightarrow> ('a gmach_scheme, unit) op" where
  "seginit cpus_cpu =
     bind cpunum (\<lambda>k.
     let c = unat k in
     seq (modify (\<lambda>s. s\<lparr>gdts := (gdts s)[c := (gdts s ! c)
            [1 := SEG 0xA 0 0xFFFFFFFF 0, 2 := SEG 0x2 0 0xFFFFFFFF 0, 4 := SEG 0xA 0 0xFFFFFFFF 3,
             5 := SEG 0x2 0 0xFFFFFFFF 3, 3 := SEG 0x2 (cpus_cpu c) 8 0]]\<rparr>))
    (seq (modify (\<lambda>s. s\<lparr>gdtr := c, gs := push_bit 3 3\<rparr>))
         (modify (\<lambda>s. s\<lparr>mycpu := (mycpu s)\<lparr>cpu_id := c\<rparr>, curproc := None\<rparr>))))"

section \<open>The kernel's main\<close>

definition ideinit :: "u32 \<Rightarrow> ('a bmach_scheme, unit) op" where
  "ideinit fs_img_size = modify (\<lambda>s. s\<lparr>disksize := fs_img_size div of_nat BSIZE\<rparr>)"

record image =
  im_end :: u32
  im_vectors :: "nat \<Rightarrow> u32"
  im_cpus_cpu :: "nat \<Rightarrow> u32"
  im_fs_size :: u32
  im_entryother :: u32
  im_entryother_size :: u32
  im_mpenter :: u32
  im_entrypgdir :: u32
  im_initcode :: u32
  im_initcode_size :: u32

definition mpmain :: "('a gmach_scheme, unit) op" where
  "mpmain =
     bind (gets (\<lambda>s. cpu_id (mycpu s))) (\<lambda>id.
     seq (cprintf ''cpu%d: starting\<newline>'' [Word (of_nat id)])
    (seq idtinit
    (seq (modify (\<lambda>s. s\<lparr>started := (started s)[id := True]\<rparr>))
          scheduler)))"

definition mpenter :: "image \<Rightarrow> ('a gmach_scheme, unit) op" where
  "mpenter im = seq switchkvm (seq (seginit (im_cpus_cpu im)) (seq lapicinit mpmain))"

text \<open>
  \<open>startothers\<close> waits for each processor it starts; \<open>up c\<close> says that processor \<open>c\<close> sets its flag \<open>started\<close>. The result
  \<open>Some c\<close> stands for waiting forever for processor \<open>c\<close>.
\<close>

fun startothers_loop :: "image \<Rightarrow> (nat \<Rightarrow> bool) \<Rightarrow> nat list \<Rightarrow> ('a gmach_scheme, nat option) op" where
  "startothers_loop im up [] = ret None"
| "startothers_loop im up (c # cs) =
     bind cpunum (\<lambda>me.
     if c = unat me then startothers_loop im up cs
     else
     bind kalloc (\<lambda>stack.
     seq (put32 (p2v 0x7000 - 4) (stack + KSTACKSIZE))
    (seq (put32 (p2v 0x7000 - 8) (im_mpenter im))
    (seq (put32 (p2v 0x7000 - 12) (v2p (im_entrypgdir im)))
    (bind (gets (\<lambda>s. cpus_id s ! c)) (\<lambda>id.
     seq (lapicstartap (of_nat id) 0x7000)
    (if \<not> up c then ret (Some c)
     else
     seq (modify (\<lambda>s. s\<lparr>started := (started s)[c := True]\<rparr>))
         (startothers_loop im up cs))))))))"

definition startothers :: "image \<Rightarrow> (nat \<Rightarrow> bool) \<Rightarrow> ('a gmach_scheme, nat option) op" where
  "startothers im up =
     seq (modify (\<lambda>s. s\<lparr>mem := memmove (p2v 0x7000) (im_entryother im) (im_entryother_size im) (mem s)\<rparr>))
    (bind (gets ncpu) (\<lambda>n.
     startothers_loop im up [0..<n]))"

text \<open>
  \<open>n\<close> bounds the entries of the multiprocessor table, \<open>imcr\<close> and \<open>lsr\<close> are what the devices answer to \<open>mpinit\<close> and \<open>uartinit\<close>.
  The result is that of \<open>startothers\<close>, or \<open>None\<close> when the first pass of the scheduler found nothing to run.
\<close>

definition main :: "image \<Rightarrow> nat \<Rightarrow> u8 \<Rightarrow> u8 \<Rightarrow> (nat \<Rightarrow> bool) \<Rightarrow> ('a gmach_scheme, nat option) op" where
  "main im n imcr lsr up =
     seq (kinit1 (im_end im) (p2v (4 * 1024 * 1024)))
    (seq kvmalloc
    (seq (mpinit n imcr)
    (seq lapicinit
    (seq (seginit (im_cpus_cpu im))
    (bind (gets (\<lambda>s. cpu_id (mycpu s))) (\<lambda>id.
     seq (cprintf ''\<newline>cpu%d: starting xv6\<newline>\<newline>'' [Word (of_nat id)])
    (seq picinit
    (seq ioapicinit
    (seq consoleinit
    (seq (uartinit lsr)
    (seq pinit
    (seq (tvinit (im_vectors im))
    (seq binit
    (seq fileinit
    (seq (ideinit (im_fs_size im))
    (bind (gets ismp) (\<lambda>mp.
     seq (whenM (\<not> mp) timerinit)
    (bind (startothers im up) (\<lambda>w.
     case w of
       Some c \<Rightarrow> ret (Some c)
     | None \<Rightarrow>
       seq (kinit2 (p2v (4 * 1024 * 1024)) (p2v PHYSTOP))
      (seq (userinit (im_initcode im) (im_initcode_size im))
      (seq mpmain
           (ret None))))))))))))))))))))))"

text \<open>The page directory the processors start with: two entries of 4 MB, for the low and for the high addresses.\<close>

definition entrypgdir :: "nat \<Rightarrow> u32" where
  "entrypgdir i = (if i = 0 \<or> i = unat (drop_bit 22 KERNBASE) then 0 OR PTE_P OR PTE_W OR 0x80 else 0)"

end
