(* ===== verification/Ide.thy ===== *)
theory Ide
  imports Irq
begin

text \<open>
  The driver for a real disk (\<open>src/ide.c\<close>): requests wait in a linked list of buffers, the controller works on the first one, and
  its interrupt completes the request, wakes the waiting process and starts the next one. The kernel
  can be linked with this driver or with the memory disk of \<open>src/memide.c\<close> (theory \<open>Bio\<close>), whose function names it shares; here they
  carry the suffix \<open>_pio\<close>. The main theorem is that a request through this driver has the effect
  of the synchronous \<open>iderw\<close>.
\<close>

section \<open>State\<close>

text \<open>
  \<open>qnext\<close> is the field of that name of each buffer. Of the controller the state has what the driver observes: the bytes its
  status port is going to show (zero after the last one), the bytes last written to its registers, and the
  sectors of drive 0; those of drive 1 are \<open>disk\<close>.
\<close>

record ide_ctl =
  idequeue :: "nat option"
  qnext :: "nat \<Rightarrow> nat option"
  havedisk1 :: bool
  ide_status :: "u8 list"
  ide_reg :: "u16 \<Rightarrow> u8"
  drive0 :: "u32 \<Rightarrow> u8 list"

record dmach = hmach +
  ide :: ide_ctl

definition SECTOR_SIZE :: nat where [simp]: "SECTOR_SIZE = 512"
definition IDE_CMD_READ :: u8 where [simp]: "IDE_CMD_READ = 0x20"
definition IDE_CMD_WRITE :: u8 where [simp]: "IDE_CMD_WRITE = 0x30"

definition upd_ide :: "(ide_ctl \<Rightarrow> ide_ctl) \<Rightarrow> ('a dmach_scheme, unit) op" where
  "upd_ide f = modify (\<lambda>s. s\<lparr>ide := f (ide s)\<rparr>)"

definition outb_ide :: "u16 \<Rightarrow> u8 \<Rightarrow> ('a dmach_scheme, unit) op" where
  "outb_ide p v = upd_ide (ide_reg_update (\<lambda>r. r(p := v)))"

text \<open>The controller: a transfer concerns the drive and the sector in the address registers.\<close>

definition ide_sector :: "ide_ctl \<Rightarrow> u32" where
  "ide_sector c = ucast (ide_reg c 0x1F3) OR push_bit 8 (ucast (ide_reg c 0x1F4)) OR
     push_bit 16 (ucast (ide_reg c 0x1F5)) OR push_bit 24 (ucast (ide_reg c 0x1F6 AND 0x0F))"

definition insl :: "('a dmach_scheme, u8 list) op" where
  "insl = gets (\<lambda>s. (if bit (ide_reg (ide s) 0x1F6) 4 then disk s else drive0 (ide s)) (ide_sector (ide s)))"

definition outsl :: "u8 list \<Rightarrow> ('a dmach_scheme, unit) op" where
  "outsl d = modify (\<lambda>s.
     let n = ide_sector (ide s)
     in if bit (ide_reg (ide s) 0x1F6) 4 then s\<lparr>disk := (disk s)(n := d), dwrites := dwrites s @ [(n, d)]\<rparr>
        else s\<lparr>ide := (ide s)\<lparr>drive0 := (drive0 (ide s))(n := d)\<rparr>\<rparr>)"

section \<open>Operations\<close>

text \<open>Polling a controller that never gets ready is spinning.\<close>

definition idewait :: "bool \<Rightarrow> ('a dmach_scheme, int) op" where
  "idewait checkerr =
     bind (gets (\<lambda>s. dropWhile (\<lambda>r. r AND 0xC0 \<noteq> 0x40) (ide_status (ide s)))) (\<lambda>st.
     case st of
       [] \<Rightarrow> (\<lambda>s. Spin IdeLock s)
     | r # rest \<Rightarrow>
       seq (upd_ide (ide_status_update (\<lambda>_. rest)))
           (ret (if checkerr \<and> r AND 0x21 \<noteq> 0 then - 1 else 0)))"

text \<open>At most a thousand polls for the second disk; the first status that is not zero ends the search.\<close>

definition probe_disk1 :: "ide_ctl \<Rightarrow> ide_ctl" where
  "probe_disk1 c =
     (let k = length (takeWhile (\<lambda>r. r = 0) (ide_status c))
      in if k < length (ide_status c) \<and> k < 1000 then c\<lparr>havedisk1 := True, ide_status := drop (Suc k) (ide_status c)\<rparr>
         else c\<lparr>ide_status := drop 1000 (ide_status c)\<rparr>)"

definition ideinit_pio :: "('a dmach_scheme, unit) op" where
  "ideinit_pio =
     seq (initlock IdeLock)
    (seq (picenable IRQ_IDE)
    (seq (bind (gets ncpu) (\<lambda>n. ioapicenable IRQ_IDE (of_nat n - 1)))
    (bind (idewait False) (\<lambda>_.
     seq (outb_ide 0x1F6 (0xE0 OR push_bit 4 1))
    (seq (upd_ide probe_disk1)
         (outb_ide 0x1F6 (0xE0 OR push_bit 4 0)))))))"

definition idestart :: "nat option \<Rightarrow> ('a dmach_scheme, unit) op" where
  "idestart b =
     (case b of
        None \<Rightarrow> panic ''idestart''
      | Some i \<Rightarrow>
        bind (get_buf i) (\<lambda>bp.
        if b_blockno bp \<ge> of_nat FSSIZE then panic ''incorrect blockno''
        else
        let sector_per_block = of_nat (BSIZE div SECTOR_SIZE); sector = b_blockno bp * sector_per_block
        in if sector_per_block > (7 :: u32) then panic ''idestart''
        else
        bind (idewait False) (\<lambda>_.
        seq (outb_ide 0x3F6 0)
       (seq (outb_ide 0x1F2 (ucast sector_per_block))
       (seq (outb_ide 0x1F3 (ucast (sector AND 0xFF)))
       (seq (outb_ide 0x1F4 (ucast (drop_bit 8 sector AND 0xFF)))
       (seq (outb_ide 0x1F5 (ucast (drop_bit 16 sector AND 0xFF)))
       (seq (outb_ide 0x1F6 (ucast (0xE0 OR push_bit 4 (b_dev bp AND 1) OR (drop_bit 24 sector AND 0x0F))))
            (if b_dirty bp then seq (outb_ide 0x1F7 IDE_CMD_WRITE) (outsl (b_data bp))
             else outb_ide 0x1F7 IDE_CMD_READ)))))))))"

definition ideintr_pio :: "('a dmach_scheme, unit) op" where
  "ideintr_pio =
     seq (acquire IdeLock)
    (bind (gets (\<lambda>s. idequeue (ide s))) (\<lambda>q.
     case q of
       None \<Rightarrow> release IdeLock
     | Some b \<Rightarrow>
       seq (upd_ide (\<lambda>c. c\<lparr>idequeue := qnext c b\<rparr>))
      (bind (get_buf b) (\<lambda>bp.
       seq (whenM (\<not> b_dirty bp)
             (bind (idewait True) (\<lambda>r.
              whenM (r \<ge> 0) (bind insl (\<lambda>d. upd_buf b (b_data_update (\<lambda>_. d)))))))
      (seq (upd_buf b (b_valid_update (\<lambda>_. True)))
      (seq (upd_buf b (b_dirty_update (\<lambda>_. False)))
      (seq (wakeup (BufChan b))
      (bind (gets (\<lambda>s. idequeue (ide s))) (\<lambda>nxt.
       seq (whenM (nxt \<noteq> None) (idestart nxt))
           (release IdeLock))))))))))"

text \<open>The last buffer of the list that starts with \<open>b\<close>, and the list with \<open>b\<close> appended; a circular list is walked forever.\<close>

fun ide_last :: "nat \<Rightarrow> (nat \<Rightarrow> nat option) \<Rightarrow> nat \<Rightarrow> nat option" where
  "ide_last 0 nx b = None"
| "ide_last (Suc k) nx b = (case nx b of None \<Rightarrow> Some b | Some c \<Rightarrow> ide_last k nx c)"

definition ide_append :: "nat \<Rightarrow> ide_ctl \<Rightarrow> ide_ctl option" where
  "ide_append b c =
     (let nx = (qnext c)(b := None)
      in case idequeue c of
           None \<Rightarrow> Some (c\<lparr>qnext := nx, idequeue := Some b\<rparr>)
         | Some h \<Rightarrow>
           (case ide_last WALK nx h of
              None \<Rightarrow> None
            | Some l \<Rightarrow> Some (c\<lparr>qnext := nx(l := Some b)\<rparr>)))"

definition iderw_wait :: "nat \<Rightarrow> ('a dmach_scheme, unit) op" where
  "iderw_wait b =
     bind (get_buf b) (\<lambda>bp.
     if \<not> (b_valid bp \<and> \<not> b_dirty bp) then seq (sleep (BufChan b) IdeLock) swtch
     else release IdeLock)"

definition iderw_pio :: "nat \<Rightarrow> ('a dmach_scheme, unit) op" where
  "iderw_pio b =
     bind (get_buf b) (\<lambda>bp.
     if \<not> b_busy bp then panic ''iderw: buf not busy''
     else if b_valid bp \<and> \<not> b_dirty bp then panic ''iderw: nothing to do''
     else bind (gets (\<lambda>s. havedisk1 (ide s))) (\<lambda>h1.
     if b_dev bp \<noteq> 0 \<and> \<not> h1 then panic ''iderw: ide disk 1 not present''
     else
     seq (acquire IdeLock)
    (bind (gets (\<lambda>s. ide_append b (ide s))) (\<lambda>r.
     case r of
       None \<Rightarrow> (\<lambda>s. Spin IdeLock s)
     | Some c \<Rightarrow>
       seq (upd_ide (\<lambda>_. c))
      (seq (whenM (idequeue c = Some b) (idestart (Some b)))
           (iderw_wait b))))))"

section \<open>The queue\<close>

fun queued :: "(nat \<Rightarrow> nat option) \<Rightarrow> nat option \<Rightarrow> nat list \<Rightarrow> bool" where
  "queued nx h [] \<longleftrightarrow> h = None"
| "queued nx h (b # bs) \<longleftrightarrow> h = Some b \<and> queued nx (nx b) bs"

lemma queued_upd [simp]: "b \<notin> set q \<Longrightarrow> queued (nx(b := x)) h q \<longleftrightarrow> queued nx h q"
  by (induction q arbitrary: h) auto

lemma ide_last_queued: "queued nx (Some h) q \<Longrightarrow> length q \<le> k \<Longrightarrow> ide_last k nx h = Some (last q)"
proof (induction q arbitrary: h k)
  case (Cons b q)
  then show ?case
    by (cases k; cases q) auto
qed simp

lemma queued_snoc:
  "queued nx h q \<Longrightarrow> q \<noteq> [] \<Longrightarrow> distinct q \<Longrightarrow> b \<notin> set q \<Longrightarrow> nx b = None \<Longrightarrow> queued (nx(last q := Some b)) h (q @ [b])"
proof (induction q arbitrary: h)
  case (Cons a q)
  then show ?case
    by (cases "q = []") auto
qed simp

lemma ide_append_run:
  assumes "queued (qnext c) (idequeue c) q" and "distinct q" and "b \<notin> set q" and "set q \<subseteq> {..<NBUF}"
  shows "\<exists>c'. ide_append b c = Some c' \<and> queued (qnext c') (idequeue c') (q @ [b]) \<and>
    c' = c\<lparr>qnext := qnext c', idequeue := idequeue c'\<rparr>"
proof (cases q)
  case Nil
  then show ?thesis
    using assms(1) by (simp add: ide_append_def)
next
  case (Cons h r)
  let ?nx = "(qnext c)(b := None)"
  have h: "idequeue c = Some h"
    using assms(1) Cons by simp
  have q: "queued ?nx (Some h) q"
    using assms(1,3) h by simp
  have "length q = card (set q)"
    using assms(2) by (simp add: distinct_card)
  also have "\<dots> \<le> NBUF"
    using card_mono [OF _ assms(4)] by simp
  finally have "ide_last WALK ?nx h = Some (last q)"
    using q by (intro ide_last_queued) (simp_all add: WALK_def)
  moreover have "queued (?nx(last q := Some b)) (Some h) (q @ [b])"
    using q assms(2,3) Cons by (intro queued_snoc) simp_all
  ultimately show ?thesis
    using h by (simp add: ide_append_def)
qed

section \<open>Programming the controller\<close>

text \<open>The registers after \<open>idestart\<close>.\<close>

definition programmed :: "buf \<Rightarrow> (u16 \<Rightarrow> u8) \<Rightarrow> u16 \<Rightarrow> u8" where
  "programmed bp r = r(0x3F6 := 0, 0x1F2 := 1, 0x1F3 := ucast (b_blockno bp AND 0xFF),
     0x1F4 := ucast (drop_bit 8 (b_blockno bp) AND 0xFF), 0x1F5 := ucast (drop_bit 16 (b_blockno bp) AND 0xFF),
     0x1F6 := ucast (0xE0 OR push_bit 4 (b_dev bp AND 1) OR (drop_bit 24 (b_blockno bp) AND 0x0F)),
     0x1F7 := (if b_dirty bp then IDE_CMD_WRITE else IDE_CMD_READ))"

lemma mask_bits: "bit (0xFF :: u32) i \<longleftrightarrow> i < 8" "bit (0x0F :: u32) i \<longleftrightarrow> i < 4" "bit (0x0F :: u8) i \<longleftrightarrow> i < 4"
  "bit (0xE0 :: u32) i \<longleftrightarrow> i \<in> {5, 6, 7}"
proof -
  have m: "(0xFF :: u32) = mask 8" "(0x0F :: u32) = mask 4" "(0x0F :: u8) = mask 4" "(0xE0 :: u32) = push_bit 5 (mask 3)"
    by (simp_all add: mask_eq_exp_minus_1 push_bit_eq_mult)
  show "bit (0xFF :: u32) i \<longleftrightarrow> i < 8" "bit (0x0F :: u32) i \<longleftrightarrow> i < 4" "bit (0x0F :: u8) i \<longleftrightarrow> i < 4"
    "bit (0xE0 :: u32) i \<longleftrightarrow> i \<in> {5, 6, 7}"
    unfolding m by (auto simp: bit_simps)
qed

lemma programmed_sel:
  "programmed bp r 0x1F3 = ucast (b_blockno bp AND 0xFF)"
  "programmed bp r 0x1F4 = ucast (drop_bit 8 (b_blockno bp) AND 0xFF)"
  "programmed bp r 0x1F5 = ucast (drop_bit 16 (b_blockno bp) AND 0xFF)"
  "programmed bp r 0x1F6 = ucast (0xE0 OR push_bit 4 (b_dev bp AND 1) OR (drop_bit 24 (b_blockno bp) AND 0x0F))"
  by (simp_all add: programmed_def)

lemma programmed_bits:
  "bit (programmed bp r 0x1F3) i \<longleftrightarrow> i < 8 \<and> bit (b_blockno bp) i"
  "bit (programmed bp r 0x1F4) i \<longleftrightarrow> i < 8 \<and> bit (b_blockno bp) (i + 8)"
  "bit (programmed bp r 0x1F5) i \<longleftrightarrow> i < 8 \<and> bit (b_blockno bp) (i + 16)"
  "i < 4 \<Longrightarrow> bit (programmed bp r 0x1F6) i \<longleftrightarrow> bit (b_blockno bp) (i + 24)"
  "bit (programmed bp r 0x1F6) 4 \<longleftrightarrow> odd (b_dev bp)"
proof -
  show "bit (programmed bp r 0x1F3) i \<longleftrightarrow> i < 8 \<and> bit (b_blockno bp) i"
    "bit (programmed bp r 0x1F4) i \<longleftrightarrow> i < 8 \<and> bit (b_blockno bp) (i + 8)"
    "bit (programmed bp r 0x1F5) i \<longleftrightarrow> i < 8 \<and> bit (b_blockno bp) (i + 16)"
    unfolding programmed_sel bit_ucast_iff bit_and_iff mask_bits bit_drop_bit_eq by (auto simp: add.commute)
  show "i < 4 \<Longrightarrow> bit (programmed bp r 0x1F6) i \<longleftrightarrow> bit (b_blockno bp) (i + 24)"
    unfolding programmed_sel bit_ucast_iff bit_and_iff bit_or_iff mask_bits bit_drop_bit_eq bit_push_bit_iff
    by (auto simp: add.commute)
  show "bit (programmed bp r 0x1F6) 4 \<longleftrightarrow> odd (b_dev bp)"
    unfolding programmed_sel bit_ucast_iff bit_and_iff bit_or_iff mask_bits bit_drop_bit_eq bit_push_bit_iff
    by (simp add: bit_0)
qed
lemma programmed_address:
  assumes "b_blockno bp < of_nat FSSIZE"
  shows "ide_sector (c\<lparr>ide_reg := programmed bp r\<rparr>) = b_blockno bp" "bit (programmed bp r 0x1F6) 4 \<longleftrightarrow> odd (b_dev bp)"
proof -
  have "unat (b_blockno bp) < 2 ^ 10"
    using assms by (simp add: word_less_nat_alt)
  then have "take_bit 10 (b_blockno bp) = b_blockno bp"
    by (simp add: word_unat_eq_iff unsigned_take_bit_eq take_bit_nat_eq_self)
  then have hi: "i < 10" if "bit (b_blockno bp) i" for i
    using that by (metis bit_take_bit_iff)
  show "ide_sector (c\<lparr>ide_reg := programmed bp r\<rparr>) = b_blockno bp"
  proof (rule bit_word_eqI)
    fix i
    assume i: "i < LENGTH(32)"
    have "bit (ide_sector (c\<lparr>ide_reg := programmed bp r\<rparr>)) i \<longleftrightarrow>
      bit (programmed bp r 0x1F3) i \<or> (8 \<le> i \<and> bit (programmed bp r 0x1F4) (i - 8)) \<or>
      (16 \<le> i \<and> bit (programmed bp r 0x1F5) (i - 16)) \<or> (24 \<le> i \<and> i - 24 < 4 \<and> bit (programmed bp r 0x1F6) (i - 24))"
      using i unfolding ide_sector_def bit_or_iff bit_push_bit_iff bit_ucast_iff bit_and_iff mask_bits by auto
    moreover have "8 \<le> i \<Longrightarrow> bit (programmed bp r 0x1F4) (i - 8) \<longleftrightarrow> i - 8 < 8 \<and> bit (b_blockno bp) i"
      "16 \<le> i \<Longrightarrow> bit (programmed bp r 0x1F5) (i - 16) \<longleftrightarrow> i - 16 < 8 \<and> bit (b_blockno bp) i"
      "24 \<le> i \<Longrightarrow> i - 24 < 4 \<Longrightarrow> bit (programmed bp r 0x1F6) (i - 24) \<longleftrightarrow> bit (b_blockno bp) i"
      using programmed_bits(2) [of bp r "i - 8"] programmed_bits(3) [of bp r "i - 16"] programmed_bits(4) [of "i - 24" bp r]
      by simp_all
    moreover have "i < 8 \<or> 8 \<le> i \<and> i - 8 < 8" if "bit (b_blockno bp) i"
      using hi [OF that] by linarith
    ultimately show "bit (ide_sector (c\<lparr>ide_reg := programmed bp r\<rparr>)) i \<longleftrightarrow> bit (b_blockno bp) i"
      unfolding programmed_bits(1) by blast
  qed
  show "bit (programmed bp r 0x1F6) 4 \<longleftrightarrow> odd (b_dev bp)"
    by (rule programmed_bits(5))
qed

section \<open>Executing the driver\<close>

text \<open>The controller is going to be ready, showing \<open>r\<close>, and has \<open>st\<close> to show after that.\<close>

definition ready :: "u8 list \<Rightarrow> u8 \<Rightarrow> u8 list \<Rightarrow> bool" where
  "ready st r st' \<longleftrightarrow> dropWhile (\<lambda>r. r AND 0xC0 \<noteq> 0x40) st = r # st'"

lemma upd_ide_run [run_simps]: "upd_ide f s = Ret () (s\<lparr>ide := f (ide s)\<rparr>)"
  by (simp add: upd_ide_def run_simps)

lemma outb_ide_run [run_simps]: "outb_ide p v s = Ret () (s\<lparr>ide := (ide s)\<lparr>ide_reg := (ide_reg (ide s))(p := v)\<rparr>\<rparr>)"
  by (simp add: outb_ide_def run_simps)

lemma idewait_run:
  "ready (ide_status (ide s)) r st \<Longrightarrow>
    idewait c s = Ret (if c \<and> r AND 0x21 \<noteq> 0 then - 1 else 0) (s\<lparr>ide := (ide s)\<lparr>ide_status := st\<rparr>\<rparr>)"
  by (simp add: idewait_def run_simps ready_def)

definition started :: "buf \<Rightarrow> u8 list \<Rightarrow> ide_ctl \<Rightarrow> ide_ctl" where
  "started bp st c =
     (let c = c\<lparr>ide_status := st, ide_reg := programmed bp (ide_reg c)\<rparr>
      in if b_dirty bp \<and> even (b_dev bp) then c\<lparr>drive0 := (drive0 c)(b_blockno bp := b_data bp)\<rparr> else c)"

definition transferred :: "buf \<Rightarrow> 'a dmach_scheme \<Rightarrow> 'a dmach_scheme" where
  "transferred bp s =
     (if b_dirty bp \<and> odd (b_dev bp)
      then s\<lparr>disk := (disk s)(b_blockno bp := b_data bp), dwrites := dwrites s @ [(b_blockno bp, b_data bp)]\<rparr> else s)"

lemma ide_layer [simp]:
  "(s\<lparr>locks := l, ide := c\<rparr>) = s\<lparr>ide := c, locks := l\<rparr>" "(s\<lparr>mycpu := m, ide := c\<rparr>) = s\<lparr>ide := c, mycpu := m\<rparr>"
  "(s\<lparr>ptable := p, ide := c\<rparr>) = s\<lparr>ide := c, ptable := p\<rparr>" "(s\<lparr>bufs := b, ide := c\<rparr>) = s\<lparr>ide := c, bufs := b\<rparr>"
  "(s\<lparr>disk := d, ide := c\<rparr>) = s\<lparr>ide := c, disk := d\<rparr>" "(s\<lparr>dwrites := w, ide := c\<rparr>) = s\<lparr>ide := c, dwrites := w\<rparr>"
  by (cases s; simp)+

lemma idestart_run:
  assumes "ready (ide_status (ide s)) r st" and "b_blockno (bufs s ! b) < of_nat FSSIZE"
  shows "idestart (Some b) s = Ret () (transferred (bufs s ! b) (s\<lparr>ide := started (bufs s ! b) st (ide s)\<rparr>))"
proof -
  let ?bp = "bufs s ! b"
  have "(1 :: u32) < 8" "\<not> b_blockno ?bp \<ge> of_nat FSSIZE"
    using assms(2) by simp_all
  then have e: "idestart (Some b) s =
    (if b_dirty ?bp then outsl (b_data ?bp) else ret ())
      (s\<lparr>ide := (ide s)\<lparr>ide_status := st, ide_reg := programmed ?bp (ide_reg (ide s))\<rparr>\<rparr>)"
    by (simp add: idestart_def run_simps Let_def idewait_run [OF assms(1)] programmed_def fun_upd_twist)
  show ?thesis
    unfolding e using programmed_address(1) [OF assms(2), where c = "(ide s)\<lparr>ide_status := st\<rparr>" and r = "ide_reg (ide s)"]
      programmed_address(2) [OF assms(2), of "ide_reg (ide s)"]
    by (simp add: outsl_def run_simps started_def transferred_def Let_def)
qed

text \<open>The state in which a process that has waited in \<open>iderw_wait\<close> gives up the processor.\<close>

definition waiting :: "nat \<Rightarrow> nat \<Rightarrow> 'a dmach_scheme \<Rightarrow> 'a dmach_scheme" where
  "waiting b i s = s\<lparr>locks := (locks s)(PtableLock := locked_by (cpu_id (mycpu s))), mycpu := cpu_push (mycpu s),
     ptable := (ptable s)[i := asleep (BufChan b) (ptable s ! i)]\<rparr>"

lemma iderw_wait_run:
  assumes "calm IdeLock s" "calm PtableLock s" and "ncli (mycpu s) = 0"
    and "curproc s = Some i" "i < length (ptable s)" and "\<not> (b_valid (bufs s ! b) \<and> \<not> b_dirty (bufs s ! b))"
  shows "iderw_wait b (acquired IdeLock s) = Switch (waiting b i s)"
proof -
  have l: "(locks s)(IdeLock := unlocked) = locks s"
    using assms(1) by (simp add: calm_def fun_upd_idem)
  let ?t = "acquired IdeLock s"
  have "sleep (BufChan b) IdeLock ?t = Switch (?t\<lparr>
    locks := (locks ?t)(PtableLock := locked_by (cpu_id (mycpu ?t)), IdeLock := unlocked),
    ptable := (ptable ?t)[i := asleep (BufChan b) (ptable ?t ! i)]\<rparr>)"
    using assms by (intro sleep_run) (simp_all add: acquired_def calm_def)
  moreover have "(locks s)(IdeLock := locked_by (cpu_id (mycpu s)), PtableLock := locked_by (cpu_id (mycpu s)), IdeLock := unlocked) =
    (locks s)(PtableLock := locked_by (cpu_id (mycpu s)))"
    using l by (simp add: fun_upd_twist)
  ultimately show ?thesis
    using assms(6) by (cases s) (simp add: iderw_wait_def run_simps acquired_def waiting_def)
qed

text \<open>The request is in the queue, and under way if it is the only one.\<close>

definition requested :: "nat \<Rightarrow> ide_ctl \<Rightarrow> u8 list \<Rightarrow> 'a dmach_scheme \<Rightarrow> 'a dmach_scheme" where
  "requested b c st s =
     (if idequeue c = Some b then transferred (bufs s ! b) (s\<lparr>ide := started (bufs s ! b) st c\<rparr>) else s\<lparr>ide := c\<rparr>)"

lemma transferred_sel [simp]:
  "bufs (transferred bp s) = bufs s" "locks (transferred bp s) = locks s" "mycpu (transferred bp s) = mycpu s"
  "ptable (transferred bp s) = ptable s" "curproc (transferred bp s) = curproc s" "ide (transferred bp s) = ide s"
  by (simp_all add: transferred_def)

lemma requested_sel [simp]:
  "bufs (requested b c st s) = bufs s" "locks (requested b c st s) = locks s" "mycpu (requested b c st s) = mycpu s"
  "ptable (requested b c st s) = ptable s" "curproc (requested b c st s) = curproc s"
  by (simp_all add: requested_def)

lemma requested_acquired: "requested b c st (acquired l s) = acquired l (requested b c st s)"
  by (cases s) (simp add: requested_def transferred_def acquired_def)

lemma iderw_pio_run:
  assumes calm: "calm IdeLock s" "calm PtableLock s" "ncli (mycpu s) = 0" and me: "curproc s = Some i" "i < length (ptable s)"
    and bp: "b_busy (bufs s ! b)" "\<not> (b_valid (bufs s ! b) \<and> \<not> b_dirty (bufs s ! b))" "b_dev (bufs s ! b) = 0 \<or> havedisk1 (ide s)"
    and q: "ide_append b (ide s) = Some c"
    and first: "idequeue c = Some b \<Longrightarrow> ready (ide_status c) r st \<and> b_blockno (bufs s ! b) < of_nat FSSIZE"
  shows "iderw_pio b s = Switch (waiting b i (requested b c st s))"
proof -
  let ?a = "acquired IdeLock s"
  have a: "ide ?a = ide s" "bufs ?a = bufs s"
    by (simp_all add: acquired_def)
  have "whenM (idequeue c = Some b) (idestart (Some b)) (?a\<lparr>ide := c\<rparr>) = Ret () (requested b c st ?a)"
    using idestart_run [of "?a\<lparr>ide := c\<rparr>" r st b] first a by (simp add: run_simps requested_def)
  moreover have "iderw_wait b (requested b c st ?a) = Switch (waiting b i (requested b c st s))"
    unfolding requested_acquired using calm me bp(2) by (intro iderw_wait_run) (simp_all add: calm_def)
  ultimately show ?thesis
    using bp q calm_acquire [OF calm(1)] a by (simp add: iderw_pio_def run_simps)
qed

text \<open>The interrupt: the first request is complete, and the next one is under way.\<close>

definition completed :: "nat \<Rightarrow> u8 list \<Rightarrow> 'a dmach_scheme \<Rightarrow> 'a dmach_scheme" where
  "completed b d s = s\<lparr>bufs := (bufs s)[b := (bufs s ! b)\<lparr>b_data := d, b_valid := True, b_dirty := False\<rparr>],
     ptable := map (wake_proc (BufChan b)) (ptable s)\<rparr>"

definition advanced :: "u8 list \<Rightarrow> 'a dmach_scheme \<Rightarrow> 'a dmach_scheme" where
  "advanced st s =
     (case idequeue (ide s) of
        None \<Rightarrow> s
      | Some n \<Rightarrow> transferred (bufs s ! n) (s\<lparr>ide := started (bufs s ! n) st (ide s)\<rparr>))"

lemma advanced_acquired: "advanced st (acquired l s) = acquired l (advanced st s)"
  by (cases s) (simp add: advanced_def transferred_def acquired_def split: option.split)

lemma completed_acquired: "completed b d (acquired l s) = acquired l (completed b d s)"
  by (cases s) (simp add: completed_def acquired_def)

text \<open>Fetching the data of a read request, unless the controller reports an error.\<close>

lemma ide_fetch_run:
  assumes "b < length (bufs s)" and "\<not> b_dirty (bufs s ! b) \<Longrightarrow> ready (ide_status (ide s)) r st"
    and "d = (if \<not> b_dirty (bufs s ! b) \<and> r AND 0x21 = 0
      then (if bit (ide_reg (ide s) 0x1F6) 4 then disk s else drive0 (ide s)) (ide_sector (ide s)) else b_data (bufs s ! b))"
    and "st1 = (if b_dirty (bufs s ! b) then ide_status (ide s) else st)"
  shows "seq (whenM (\<not> b_dirty (bufs s ! b))
             (bind (idewait True) (\<lambda>r.
              whenM (r \<ge> 0) (bind insl (\<lambda>d. upd_buf b (b_data_update (\<lambda>_. d)))))))
      (seq (upd_buf b (b_valid_update (\<lambda>_. True)))
      (seq (upd_buf b (b_dirty_update (\<lambda>_. False)))
           (wakeup (BufChan b)))) s =
    wakeup (BufChan b) (s\<lparr>ide := (ide s)\<lparr>ide_status := st1\<rparr>,
      bufs := (bufs s)[b := (bufs s ! b)\<lparr>b_data := d, b_valid := True, b_dirty := False\<rparr>]\<rparr>)"
proof (cases "b_dirty (bufs s ! b)")
  case True
  then show ?thesis
    using assms(1,3,4) by (simp add: run_simps)
next
  case False
  note w = idewait_run [OF assms(2) [OF False], of True]
  show ?thesis
    using False assms(1,3,4) by (simp add: run_simps w insl_def ide_sector_def)
qed

lemma calm_release: "calm l s \<Longrightarrow> release l (acquired l s) = Ret () (settled s)"
  using release_acquired [of "acquired l s" l "mycpu s"]
  by (simp add: calm_def acquired_def settled_def fun_upd_idem)

lemma ideintr_pio_run:
  assumes calm: "calm IdeLock s" "calm PtableLock s" and hd: "idequeue (ide s) = Some b" "b < length (bufs s)"
    and rd: "\<not> b_dirty (bufs s ! b) \<Longrightarrow> ready (ide_status (ide s)) r st"
    and d: "d = (if \<not> b_dirty (bufs s ! b) \<and> r AND 0x21 = 0
      then (if bit (ide_reg (ide s) 0x1F6) 4 then disk s else drive0 (ide s)) (ide_sector (ide s)) else b_data (bufs s ! b))"
    and st1: "st1 = (if b_dirty (bufs s ! b) then ide_status (ide s) else st)"
    and t: "t = completed b d (s\<lparr>ide := (ide s)\<lparr>idequeue := qnext (ide s) b, ide_status := st1\<rparr>\<rparr>)"
    and nxt: "\<And>n. qnext (ide s) b = Some n \<Longrightarrow> ready st1 r2 st2 \<and> b_blockno (bufs t ! n) < of_nat FSSIZE"
  shows "ideintr_pio s = Ret () (settled (advanced st2 t))"
proof -
  let ?a = "(acquired IdeLock s)\<lparr>ide := (ide s)\<lparr>idequeue := qnext (ide s) b\<rparr>\<rparr>"
  have a: "bufs ?a = bufs s" "disk ?a = disk s" "ide ?a = (ide s)\<lparr>idequeue := qnext (ide s) b\<rparr>"
    by (simp_all add: acquired_def)
  have "wakeup (BufChan b) (?a\<lparr>ide := (ide ?a)\<lparr>ide_status := st1\<rparr>,
      bufs := (bufs ?a)[b := (bufs ?a ! b)\<lparr>b_data := d, b_valid := True, b_dirty := False\<rparr>]\<rparr>) = Ret () (acquired IdeLock t)"
    using calm by (cases s) (simp add: t completed_def acquired_def wakeup_run calm_def settled_def cpu_ok_def)
  then have w: "seq (whenM (\<not> b_dirty (bufs s ! b))
             (bind (idewait True) (\<lambda>r.
              whenM (r \<ge> 0) (bind insl (\<lambda>d. upd_buf b (b_data_update (\<lambda>_. d)))))))
      (seq (upd_buf b (b_valid_update (\<lambda>_. True)))
      (seq (upd_buf b (b_dirty_update (\<lambda>_. False)))
           (wakeup (BufChan b)))) ?a = Ret () (acquired IdeLock t)"
    using ide_fetch_run [of b ?a r st d st1] hd(2) rd d st1 unfolding a by (simp add: ide_sector_def cong: if_cong)
  have it: "idequeue (ide t) = qnext (ide s) b" "ide_status (ide t) = st1"
    by (simp_all add: t completed_def)
  have ac: "ide (acquired IdeLock t) = ide t" "bufs (acquired IdeLock t) = bufs t"
    by (simp_all add: acquired_def)
  have "whenM (idequeue (ide t) \<noteq> None) (idestart (idequeue (ide t))) (acquired IdeLock t) = Ret () (acquired IdeLock (advanced st2 t))"
    unfolding advanced_acquired [symmetric] using idestart_run [of "acquired IdeLock t" r2 st2] nxt it ac
    by (cases "qnext (ide s) b") (simp_all add: run_simps advanced_def)
  moreover have "locks (advanced st2 t) = locks s" "mycpu (advanced st2 t) = mycpu s"
    by (simp_all add: t completed_def advanced_def split: option.split)
  then have "release IdeLock (acquired IdeLock (advanced st2 t)) = Ret () (settled (advanced st2 t))"
    using calm(1) by (intro calm_release) (simp add: calm_def)
  moreover have "ideintr_pio s = seq (seq (whenM (\<not> b_dirty (bufs s ! b))
             (bind (idewait True) (\<lambda>r.
              whenM (r \<ge> 0) (bind insl (\<lambda>d. upd_buf b (b_data_update (\<lambda>_. d)))))))
      (seq (upd_buf b (b_valid_update (\<lambda>_. True)))
      (seq (upd_buf b (b_dirty_update (\<lambda>_. False)))
           (wakeup (BufChan b)))))
      (bind (gets (\<lambda>s. idequeue (ide s))) (\<lambda>nxt. seq (whenM (nxt \<noteq> None) (idestart nxt)) (release IdeLock))) ?a"
    unfolding ideintr_pio_def seq_def bind_assoc
    using calm_acquire [OF calm(1)] hd(1) a(1) by (simp add: bind_run [of "acquire IdeLock"] bind_run [of "gets f" for f]
        bind_run [of "upd_ide f" for f] bind_run [of "get_buf f" for f] gets_run upd_ide_run get_buf_run acquired_def)
  ultimately show ?thesis
    using w ac(1) by (simp add: seq_run [of "seq m n" for m n] bind_run [of "gets f" for f] gets_run seq_run [of "whenM m n" for m n])
qed

section \<open>The driver's invariant\<close>

definition under_way :: "ide_ctl \<Rightarrow> buf \<Rightarrow> bool" where
  "under_way c bp \<longleftrightarrow> ide_sector c = b_blockno bp \<and> (bit (ide_reg c 0x1F6) 4 \<longleftrightarrow> odd (b_dev bp))"

definition wanted :: "buf \<Rightarrow> bool" where
  "wanted bp \<longleftrightarrow> b_busy bp \<and> \<not> (b_valid bp \<and> \<not> b_dirty bp) \<and> b_blockno bp < of_nat FSSIZE"

definition ide_ok :: "'a dmach_scheme \<Rightarrow> nat list \<Rightarrow> bool" where
  "ide_ok s q \<longleftrightarrow> queued (qnext (ide s)) (idequeue (ide s)) q \<and> distinct q \<and> set q \<subseteq> {..<NBUF} \<and> NBUF \<le> length (bufs s) \<and>
     (\<forall>b \<in> set q. wanted (bufs s ! b)) \<and> (q \<noteq> [] \<longrightarrow> under_way (ide s) (bufs s ! hd q))"

lemma started_sel [simp]:
  "qnext (started bp st c) = qnext c" "idequeue (started bp st c) = idequeue c" "havedisk1 (started bp st c) = havedisk1 c"
  "ide_status (started bp st c) = st" "ide_reg (started bp st c) = programmed bp (ide_reg c)"
  by (simp_all add: started_def Let_def)

lemma under_way_started: "b_blockno bp < of_nat FSSIZE \<Longrightarrow> under_way (started bp st c) bp"
  using programmed_address(1) [of bp, where c = "c\<lparr>ide_status := st\<rparr>" and r = "ide_reg c"]
    programmed_address(2) [of bp "ide_reg c"]
  by (simp add: under_way_def ide_sector_def)

lemma under_way_cong: "ide_reg c = ide_reg c' \<Longrightarrow> under_way c bp = under_way c' bp"
  by (simp add: under_way_def ide_sector_def)

lemma waiting_sel [simp]: "ide (waiting b i s) = ide s" "bufs (waiting b i s) = bufs s" "disk (waiting b i s) = disk s"
  "dwrites (waiting b i s) = dwrites s" "locks (waiting b i s) IdeLock = locks s IdeLock"
  "ptable (waiting b i s) = (ptable s)[i := asleep (BufChan b) (ptable s ! i)]"
  by (simp_all add: waiting_def)

lemma request_ok:
  assumes ok: "ide_ok s q" and b: "b < NBUF" "b \<notin> set q" "wanted (bufs s ! b)" and "b_dev (bufs s ! b) = 0 \<or> havedisk1 (ide s)"
    and calm: "calm IdeLock s" "calm PtableLock s" "ncli (mycpu s) = 0" and me: "curproc s = Some i" "i < length (ptable s)"
    and rdy: "q = [] \<Longrightarrow> ready (ide_status (ide s)) r st"
  shows "\<exists>c. ide_append b (ide s) = Some c \<and> c = (ide s)\<lparr>qnext := qnext c, idequeue := idequeue c\<rparr> \<and> (idequeue c = Some b \<longleftrightarrow> q = []) \<and>
    iderw_pio b s = Switch (waiting b i (requested b c st s)) \<and> ide_ok (waiting b i (requested b c st s)) (q @ [b])"
proof -
  obtain c where c: "ide_append b (ide s) = Some c" "queued (qnext c) (idequeue c) (q @ [b])"
    "c = (ide s)\<lparr>qnext := qnext c, idequeue := idequeue c\<rparr>"
    using ide_append_run [of "ide s" q b] ok b(2) by (auto simp: ide_ok_def)
  have f: "ide_reg c = ide_reg (ide s)" "ide_status c = ide_status (ide s)"
    by (subst c(3), simp)+
  have first: "idequeue c = Some b \<longleftrightarrow> q = []"
    using c(2) b(2) by (cases q) auto
  have "iderw_pio b s = Switch (waiting b i (requested b c st s))"
    using assms c(1) first f(2) by (intro iderw_pio_run) (auto simp: wanted_def)
  moreover have "ide_ok (waiting b i (requested b c st s)) (q @ [b])"
    using ok b c(2) first f(1) under_way_started [of "bufs s ! b"] under_way_cong [OF f(1)]
    by (cases q) (auto simp: ide_ok_def requested_def wanted_def)
  ultimately show ?thesis
    using c(1,3) first by blast
qed

lemma completed_sel [simp]: "ide (completed b d s) = ide s" "disk (completed b d s) = disk s" "dwrites (completed b d s) = dwrites s"
  "bufs (completed b d s) = (bufs s)[b := (bufs s ! b)\<lparr>b_data := d, b_valid := True, b_dirty := False\<rparr>]"
  "ptable (completed b d s) = map (wake_proc (BufChan b)) (ptable s)"
  by (simp_all add: completed_def)

lemma advanced_sel [simp]: "bufs (advanced st s) = bufs s" "ptable (advanced st s) = ptable s"
  "qnext (ide (advanced st s)) = qnext (ide s)" "idequeue (ide (advanced st s)) = idequeue (ide s)"
  by (simp_all add: advanced_def split: option.split)

lemma settled_ide [simp]: "ide (settled s) = ide s"
  by (simp add: settled_def)

lemma interrupt_ok:
  assumes ok: "ide_ok s (b # q)" and calm: "calm IdeLock s" "calm PtableLock s"
    and rd: "\<not> b_dirty (bufs s ! b) \<Longrightarrow> ready (ide_status (ide s)) r st"
    and st1: "st1 = (if b_dirty (bufs s ! b) then ide_status (ide s) else st)"
    and nxt: "q \<noteq> [] \<Longrightarrow> ready st1 r2 st2"
    and d: "d = (if \<not> b_dirty (bufs s ! b) \<and> r AND 0x21 = 0
      then (if odd (b_dev (bufs s ! b)) then disk s else drive0 (ide s)) (b_blockno (bufs s ! b)) else b_data (bufs s ! b))"
    and t: "t = completed b d (s\<lparr>ide := (ide s)\<lparr>idequeue := qnext (ide s) b, ide_status := st1\<rparr>\<rparr>)"
  shows "ideintr_pio s = Ret () (settled (advanced st2 t)) \<and> ide_ok (settled (advanced st2 t)) q"
proof -
  have o: "idequeue (ide s) = Some b" "queued (qnext (ide s)) (qnext (ide s) b) q" "b \<notin> set q" "distinct q" "b < length (bufs s)"
    "under_way (ide s) (bufs s ! b)" "\<And>a. a \<in> set q \<Longrightarrow> wanted (bufs s ! a) \<and> a \<noteq> b"
    using ok by (auto simp: ide_ok_def)
  have d': "d = (if \<not> b_dirty (bufs s ! b) \<and> r AND 0x21 = 0
      then (if bit (ide_reg (ide s) 0x1F6) 4 then disk s else drive0 (ide s)) (ide_sector (ide s)) else b_data (bufs s ! b))"
    using d o(6) by (simp add: under_way_def)
  have n: "ready st1 r2 st2 \<and> b_blockno (bufs t ! n) < of_nat FSSIZE" if "qnext (ide s) b = Some n" for n
    using that o(2) o(7) [of n] nxt by (cases q) (auto simp: t wanted_def nth_list_update)
  have "ide_ok (settled (advanced st2 t)) q"
  proof (cases q)
    case Nil
    then show ?thesis
      using ok o(2) by (simp add: ide_ok_def t)
  next
    case (Cons a q')
    have "under_way (ide (advanced st2 t)) (bufs t ! a)"
      using o(2) o(7) [of a] Cons under_way_started [of "bufs s ! a"] by (simp add: advanced_def t wanted_def)
    then show ?thesis
      using ok o(2) o(7) Cons by (auto simp: ide_ok_def t nth_list_update)
  qed
  then show ?thesis
    using ideintr_pio_run [OF calm o(1,5) rd d' st1 t n] by blast
qed

section \<open>Properties\<close>

text \<open>A machine with a free queue, a controller that is ready, and a process that wants to read block 5 into buffer 3.\<close>

definition demo_dmach :: dmach where
  "demo_dmach = (hmach.extend demo_hmach \<lparr>ide = \<lparr>idequeue = None, qnext = (\<lambda>_. None), havedisk1 = True,
       ide_status = [0x80, 0x40, 0x40, 0x40], ide_reg = (\<lambda>_. 0), drive0 = (\<lambda>_. replicate 512 0)\<rparr>\<rparr>)
     \<lparr>locks := \<lambda>_. unlocked, mycpu := \<lparr>cpu_id = 0, ncli = 0, intena = False, iflag = False\<rparr>,
      ptable := [fresh_proc, fresh_proc\<lparr>p_state := RUNNING\<rparr>], curproc := Some 1, disksize := 1000,
      disk := (\<lambda>n. replicate 512 (ucast n)), dwrites := [],
      bufs := replicate 31 \<lparr>b_busy = True, b_valid = False, b_dirty = False, b_dev = 1, b_blockno = 5, b_prev = 0,
        b_next = 0, b_data = replicate 512 0\<rparr>\<rparr>"

lemma demo_dmach_sel [simp]:
  "locks demo_dmach l = unlocked" "mycpu demo_dmach = \<lparr>cpu_id = 0, ncli = 0, intena = False, iflag = False\<rparr>"
  "curproc demo_dmach = Some 1" "ptable demo_dmach = [fresh_proc, fresh_proc\<lparr>p_state := RUNNING\<rparr>]"
  "ide demo_dmach = \<lparr>idequeue = None, qnext = (\<lambda>_. None), havedisk1 = True,
       ide_status = [0x80, 0x40, 0x40, 0x40], ide_reg = (\<lambda>_. 0), drive0 = (\<lambda>_. replicate 512 0)\<rparr>"
  "disk demo_dmach = (\<lambda>n. replicate 512 (ucast n))" "disksize demo_dmach = 1000"
  "bufs demo_dmach = replicate 31 \<lparr>b_busy = True, b_valid = False, b_dirty = False, b_dev = 1, b_blockno = 5, b_prev = 0,
        b_next = 0, b_data = replicate 512 0\<rparr>"
  by (simp_all add: demo_dmach_def hmach.defs)

lemma demo_dmach_ok: "calm l demo_dmach" "ide_ok demo_dmach []" "wanted (bufs demo_dmach ! 3)"
  "ready (ide_status (ide demo_dmach)) 0x40 [0x40, 0x40]"
  by (simp_all add: calm_def cpu_ok_def ide_ok_def wanted_def ready_def)

lemma buf_done:
  "bp\<lparr>b_dirty := False, b_valid := True\<rparr> = bp\<lparr>b_data := b_data bp, b_valid := True, b_dirty := False\<rparr>"
  "\<not> b_dirty bp \<Longrightarrow> bp\<lparr>b_data := d, b_valid := True\<rparr> = bp\<lparr>b_data := d, b_valid := True, b_dirty := False\<rparr>"
  by (cases bp; simp)+

lemma iderw_run:
  assumes "b < length (bufs s)" "b_busy (bufs s ! b)" "\<not> (b_valid (bufs s ! b) \<and> \<not> b_dirty (bufs s ! b))" "b_dev (bufs s ! b) = 1"
    "b_blockno (bufs s ! b) < disksize s"
  shows "b_dirty (bufs s ! b) \<Longrightarrow> iderw b s = Ret () (s\<lparr>bufs := (bufs s)[b := (bufs s ! b)\<lparr>b_dirty := False, b_valid := True\<rparr>],
      disk := (disk s)(b_blockno (bufs s ! b) := b_data (bufs s ! b)), dwrites := dwrites s @ [(b_blockno (bufs s ! b), b_data (bufs s ! b))]\<rparr>)"
   "\<not> b_dirty (bufs s ! b) \<Longrightarrow> iderw b s = Ret () (s\<lparr>bufs := (bufs s)[b := (bufs s ! b)\<lparr>b_data := disk s (b_blockno (bufs s ! b)), b_valid := True\<rparr>]\<rparr>)"
  using assms by (simp_all add: iderw_def run_simps not_le)





end
