(* ===== verification/Ulib.thy ===== *)
theory Ulib
  imports Printk
begin

text \<open>
  The library of the user programs: \<open>src/ulib.c\<close> and \<open>src/printf.c\<close>. A user program sees the kernel through the system calls; here
  their effect on the program is a record of what the descriptors deliver and what has been written. Functions that the
  kernel has as well carry the suffix \<open>_u\<close>. Strings are lists of bytes; past the end of the list stands the terminating zero.
\<close>

section \<open>The process's view of the system\<close>

text \<open>
  \<open>u_in\<close> lists what the reads of a descriptor will deliver: a piece of data, from which a \<open>read\<close> takes what it asked for, or an error; an empty piece
  or the end of the list is the end of the file. \<open>u_files\<close> are the files that can be opened for reading,
  \<open>u_fds\<close> the descriptors in use, and \<open>u_out\<close> the writes so far with their descriptors.
\<close>

record uenv =
  u_in :: "nat \<Rightarrow> u8 list option list"
  u_out :: "(int \<times> u8 list) list"
  u_files :: "u8 list \<Rightarrow> u8 list option list option"
  u_fds :: "nat list"

definition u_read :: "int \<Rightarrow> nat \<Rightarrow> uenv \<Rightarrow> (int \<times> u8 list) \<times> uenv" where
  "u_read fd n e =
     (if fd < 0 then ((- 1, []), e)
      else case u_in e (nat fd) of
        [] \<Rightarrow> ((0, []), e)
      | None # ps \<Rightarrow> ((- 1, []), e\<lparr>u_in := (u_in e)(nat fd := ps)\<rparr>)
      | Some p # ps \<Rightarrow>
        ((int (length (take n p)), take n p),
         e\<lparr>u_in := (u_in e)(nat fd := (if length p \<le> n then ps else Some (drop n p) # ps))\<rparr>))"

definition u_write :: "int \<Rightarrow> u8 list \<Rightarrow> uenv \<Rightarrow> uenv" where
  "u_write fd bs e = e\<lparr>u_out := u_out e @ [(fd, bs)]\<rparr>"

definition u_open :: "u8 list \<Rightarrow> uenv \<Rightarrow> int \<times> uenv" where
  "u_open path e =
     (case (u_files e path, find (\<lambda>f. f \<notin> set (u_fds e)) [0..<NOFILE]) of
        (Some ps, Some fd) \<Rightarrow> (int fd, e\<lparr>u_in := (u_in e)(fd := ps), u_fds := fd # u_fds e\<rparr>)
      | _ \<Rightarrow> (- 1, e))"

definition u_close :: "int \<Rightarrow> uenv \<Rightarrow> uenv" where
  "u_close fd e = e\<lparr>u_fds := filter (\<lambda>f. int f \<noteq> fd) (u_fds e)\<rparr>"

text \<open>How much data the descriptor is going to deliver.\<close>

definition pending_input :: "int \<Rightarrow> uenv \<Rightarrow> nat" where
  "pending_input fd e = sum_list (map (\<lambda>p. case p of None \<Rightarrow> 0 | Some p \<Rightarrow> length p) (u_in e (nat fd)))"

lemma u_read_less: "u_read fd n e = ((k, bs), e') \<Longrightarrow> 0 < k \<Longrightarrow> pending_input fd e' < pending_input fd e"
  by (auto simp: u_read_def pending_input_def split: if_splits list.splits option.splits)

lemma u_in_writes [simp]: "u_in (fold (\<lambda>l. u_write fd l) ls e) = u_in e"
  by (induction ls arbitrary: e) (simp_all add: u_write_def)

lemma fold_u_write: "fold (\<lambda>l. u_write fd l) ls e = e\<lparr>u_out := u_out e @ map (Pair fd) ls\<rparr>"
  by (induction ls arbitrary: e) (simp_all add: u_write_def)

section \<open>ulib.c\<close>

text \<open>The bytes stored by \<open>strcpy\<close>, and the value of \<open>strcmp\<close>.\<close>

fun strcpy :: "u8 list \<Rightarrow> u8 list" where
  "strcpy [] = [0]"
| "strcpy (c # t) = (if c = 0 then [0] else c # strcpy t)"

fun strcmp :: "u8 list \<Rightarrow> u8 list \<Rightarrow> int" where
  "strcmp [] q = uint (cidx [] 0) - uint (cidx q 0)"
| "strcmp (c # p) q = (if c \<noteq> 0 \<and> c = cidx q 0 then strcmp p (tl q) else uint c - uint (cidx q 0))"

fun strlen_u :: "u8 list \<Rightarrow> u32" where
  "strlen_u [] = 0"
| "strlen_u (c # s) = (if c = 0 then 0 else 1 + strlen_u s)"

definition memset_u :: "u32 \<Rightarrow> u32 \<Rightarrow> u32 \<Rightarrow> memory \<Rightarrow> memory" where
  "memset_u dst c n m = stosb dst (ucast c) (unat n) m"

text \<open>The suffix at which \<open>c\<close> occurs first, \<open>None\<close> if it does not.\<close>

fun strchr :: "u8 list \<Rightarrow> u8 \<Rightarrow> u8 list option" where
  "strchr [] c = None"
| "strchr (d # s) c = (if d = 0 then None else if d = c then Some (d # s) else strchr s c)"

fun gets_loop :: "nat \<Rightarrow> uenv \<Rightarrow> u8 list \<times> uenv" where
  "gets_loop 0 e = ([], e)"
| "gets_loop (Suc k) e =
     (case u_read 0 1 e of
        ((cc, bs), e1) \<Rightarrow>
        if cc < 1 then ([], e1)
        else if hd bs = 10 \<or> hd bs = 13 then ([hd bs], e1)
        else case gets_loop k e1 of (cs, e2) \<Rightarrow> (hd bs # cs, e2))"

definition gets_u :: "int \<Rightarrow> uenv \<Rightarrow> u8 list \<times> uenv" where
  "gets_u mx e = gets_loop (nat (mx - 1)) e"

text \<open>\<open>fstat\<close> is the system call; its result is that of \<open>stat\<close>.\<close>

definition stat_u :: "(int \<Rightarrow> uenv \<Rightarrow> int) \<Rightarrow> u8 list \<Rightarrow> uenv \<Rightarrow> int \<times> uenv" where
  "stat_u fstat n e =
     (case u_open n e of
        (fd, e1) \<Rightarrow> if fd < 0 then (- 1, e1) else (fstat fd e1, u_close fd e1))"

fun atoi_loop :: "u32 \<Rightarrow> u8 list \<Rightarrow> u32" where
  "atoi_loop n [] = n"
| "atoi_loop n (c # s) = (if 48 \<le> c \<and> c \<le> 57 then atoi_loop (n * 10 + ucast c - 48) s else n)"

definition atoi :: "u8 list \<Rightarrow> u32" where
  "atoi s = atoi_loop 0 s"

definition memmove_u :: "u32 \<Rightarrow> u32 \<Rightarrow> int \<Rightarrow> memory \<Rightarrow> memory" where
  "memmove_u dst src n m = copy_up (nat n) dst src m"

section \<open>printf.c\<close>

definition putc :: "int \<Rightarrow> u8 \<Rightarrow> uenv \<Rightarrow> uenv" where
  "putc fd c e = u_write fd [c] e"

definition putcs :: "int \<Rightarrow> u8 list \<Rightarrow> uenv \<Rightarrow> uenv" where
  "putcs fd cs e = fold (putc fd) cs e"

definition digit_char_u :: "nat \<Rightarrow> u8" where
  "digit_char_u d = bytes ''0123456789ABCDEF'' ! d"

definition printint_chars_u :: "u32 \<Rightarrow> nat \<Rightarrow> bool \<Rightarrow> u8 list" where
  "printint_chars_u xx base sign =
     (let neg = sign \<and> sint xx < 0;
          x = (if neg then - xx else xx)
      in (if neg then [byte (CHR ''-'')] else []) @ rev (map digit_char_u (digits_rev base (unat x))))"

definition printint_u :: "int \<Rightarrow> u32 \<Rightarrow> nat \<Rightarrow> bool \<Rightarrow> uenv \<Rightarrow> uenv" where
  "printint_u fd xx base sign = putcs fd (printint_chars_u xx base sign)"

text \<open>The flag is \<open>state == '%'\<close>. An argument that is missing or of the wrong kind is undefined.\<close>

fun printf_loop :: "int \<Rightarrow> bool \<Rightarrow> u8 list \<Rightarrow> fmtarg list \<Rightarrow> uenv \<Rightarrow> uenv option" where
  "printf_loop fd st [] args e = Some e"
| "printf_loop fd st (c # fmt) args e =
     (if c = 0 then Some e
      else if \<not> st then
        (if c = byte (CHR ''%'') then printf_loop fd True fmt args e
         else printf_loop fd False fmt args (putc fd c e))
      else if c = byte (CHR ''d'') then
        (case args of Word w # as \<Rightarrow> printf_loop fd False fmt as (printint_u fd w 10 True e) | _ \<Rightarrow> None)
      else if c = byte (CHR ''x'') \<or> c = byte (CHR ''p'') then
        (case args of Word w # as \<Rightarrow> printf_loop fd False fmt as (printint_u fd w 16 False e) | _ \<Rightarrow> None)
      else if c = byte (CHR ''s'') then
        (case args of
           Str s # as \<Rightarrow>
             printf_loop fd False fmt as
               (putcs fd (takeWhile (\<lambda>c. c \<noteq> 0) (case s of None \<Rightarrow> bytes ''(null)'' | Some s \<Rightarrow> s)) e)
         | _ \<Rightarrow> None)
      else if c = byte (CHR ''c'') then
        (case args of Word w # as \<Rightarrow> printf_loop fd False fmt as (putc fd (ucast w) e) | _ \<Rightarrow> None)
      else if c = byte (CHR ''%'') then printf_loop fd False fmt args (putc fd c e)
      else printf_loop fd False fmt args (putc fd c (putc fd (byte (CHR ''%'')) e)))"

definition printf :: "int \<Rightarrow> u8 list \<Rightarrow> fmtarg list \<Rightarrow> uenv \<Rightarrow> uenv option" where
  "printf fd fmt args e = printf_loop fd False fmt args e"

text \<open>An environment whose descriptor 0 delivers the given pieces.\<close>

definition demo_uenv :: "u8 list list \<Rightarrow> uenv" where
  "demo_uenv ps = \<lparr>u_in = (\<lambda>_. [])(0 := map Some ps), u_out = [], u_files = (\<lambda>_. None), u_fds = [0, 1, 2]\<rparr>"

section \<open>Reading back what was printed\<close>

lemma digit_char_u:
  assumes "d < 10"
  shows "48 \<le> digit_char_u d" "digit_char_u d \<le> 57" "ucast (digit_char_u d) = (48 + of_nat d :: u32)"
proof -
  have "d \<in> {0, 1, 2, 3, 4, 5, 6, 7, 8, 9}"
    using assms by auto
  then show "48 \<le> digit_char_u d" "digit_char_u d \<le> 57" "ucast (digit_char_u d) = (48 + of_nat d :: u32)"
    by (auto simp: digit_char_u_def bytes_def byte_def)
qed

lemma atoi_loop_digits:
  "(\<forall>d \<in> set ds. d < 10) \<Longrightarrow> atoi_loop n (map digit_char_u ds) = foldl (\<lambda>v d. v * 10 + of_nat d) n ds"
  by (induction ds arbitrary: n) (simp_all add: digit_char_u algebra_simps)

lemma foldl_digits: "foldl (\<lambda>v d. v * 10 + of_nat d) 0 (rev ds) = (of_nat (digits_value 10 ds) :: u32)"
  by (induction ds) (simp_all add: digits_value_def)

text \<open>The number of digits: a 32-bit number has at most ten in base ten.\<close>

lemma length_digits_rev: "2 \<le> base \<Longrightarrow> x < base ^ Suc k \<Longrightarrow> length (digits_rev base x) \<le> Suc k"
proof (induction k arbitrary: x)
  case 0
  then show ?case
    by (simp add: digits_rev.simps [of base x])
next
  case (Suc k)
  have "x div base < base ^ Suc k"
    using Suc.prems by (simp add: less_mult_imp_div_less mult.commute)
  then show ?case
    using Suc by (simp add: digits_rev.simps [of base x])
qed

lemma digits_fit:
  assumes "10 \<le> base"
  shows "length (digits_rev base (unat (x :: u32))) \<le> 10"
proof -
  have "unat x < 10 ^ Suc 9"
    using unat32_less [of x] by simp
  also have "(10 :: nat) ^ Suc 9 \<le> base ^ Suc 9"
    using assms by (rule power_mono) simp
  finally show ?thesis
    using length_digits_rev [of base "unat x" 9] assms by simp
qed

section \<open>Properties\<close>

text \<open>
  What \<open>printint\<close> prints in base ten, \<open>atoi\<close> reads back: a number that is printed without sign is returned unchanged, for all 32-bit
  numbers; a number printed with a minus sign reads as zero, since \<open>atoi\<close> does not know the sign. The text always fits into the sixteen bytes of
  \<open>printint\<close>'s buffer.
\<close>

theorem atoi_printint:
  "atoi (printint_chars_u xx 10 sign) = (if sign \<and> sint xx < 0 then 0 else xx) \<and>
   length (printint_chars_u xx 10 sign) \<le> 16 \<and> length (printint_chars_u xx 16 sign) \<le> 16"
proof -
  have "\<forall>d \<in> set (rev (digits_rev 10 (unat xx))). d < 10"
    using digits_rev_value(2) [of 10 "unat xx"] by simp
  then have "atoi_loop 0 (rev (map digit_char_u (digits_rev 10 (unat xx)))) = xx"
    unfolding rev_map using digits_rev_value(1) [of 10 "unat xx"] by (simp add: atoi_loop_digits foldl_digits)
  then have "atoi (printint_chars_u xx 10 sign) = (if sign \<and> sint xx < 0 then 0 else xx)"
    by (simp add: atoi_def printint_chars_u_def Let_def byte_def)
  then show ?thesis
    using digits_fit [of 10 xx] digits_fit [of 10 "- xx"] digits_fit [of 16 xx] digits_fit [of 16 "- xx"]
    by (simp add: printint_chars_u_def Let_def)
qed

end
