(* ===== verification/Grep.thy ===== *)
theory Grep
  imports Ulib
begin

text \<open>
  \<open>src/grep.c\<close>: the regular expression matcher of Kernighan and Pike, and the loop that reads a descriptor and prints the matching lines. The
  matcher is proved to decide the language that a pattern denotes.
\<close>

section \<open>The matcher\<close>

text \<open>Byte 42 is the star, 36 the dollar, 46 the dot and 94 the caret.\<close>

lemma cidx_nonzero: "cidx xs i \<noteq> 0 \<Longrightarrow> i < length xs"
  by (simp add: cidx_def split: if_splits)

lemma cidx_star: "cidx re (Suc 0) = 42 \<Longrightarrow> Suc (2 * (length re - 2)) < 2 * length re"
  using cidx_nonzero [of re "Suc 0"] by simp

function (sequential) matchhere :: "u8 list \<Rightarrow> u8 list \<Rightarrow> bool" and matchstar :: "u8 \<Rightarrow> u8 list \<Rightarrow> u8 list \<Rightarrow> bool" where
  "matchhere re text =
     (if cidx re 0 = 0 then True
      else if cidx re 1 = 42 then matchstar (cidx re 0) (drop 2 re) text
      else if cidx re 0 = 36 \<and> cidx re 1 = 0 then cidx text 0 = 0
      else if cidx text 0 \<noteq> 0 \<and> (cidx re 0 = 46 \<or> cidx re 0 = cidx text 0) then matchhere (drop 1 re) (drop 1 text)
      else False)"
| "matchstar c re text =
     (if matchhere re text then True
      else if cidx text 0 \<noteq> 0 \<and> (cidx text 0 = c \<or> c = 46) then matchstar c re (drop 1 text)
      else False)"
  by pat_completeness auto

termination
proof (relation "inv_image (less_than <*lex*> less_than) (\<lambda>x. case x of
    Inl (re, text) \<Rightarrow> (2 * length re, length text) | Inr (c, re, text) \<Rightarrow> (Suc (2 * length re), length text))")
qed (auto dest: cidx_nonzero cidx_star)

declare matchhere.simps [simp del] matchstar.simps [simp del]

fun match_loop :: "u8 list \<Rightarrow> u8 list \<Rightarrow> bool" where
  "match_loop re [] = matchhere re []"
| "match_loop re (c # text) =
     (if matchhere re (c # text) then True else if c = 0 then False else match_loop re text)"

definition match :: "u8 list \<Rightarrow> u8 list \<Rightarrow> bool" where
  "match re text = (if cidx re 0 = 94 then matchhere (drop 1 re) text else match_loop re text)"

section \<open>Reading and printing\<close>

text \<open>
  The lines of the buffer, which the zero byte after its contents ends: what is left after the last newline, and the lines to print, each with its newline.
\<close>

lemma strchr_less: "strchr p c = Some q \<Longrightarrow> length q - 1 < length p"
  by (induction p) (auto split: if_splits)

function grep_scan :: "u8 list \<Rightarrow> u8 list \<Rightarrow> u8 list \<times> u8 list list" where
  "grep_scan pattern p =
     (case strchr p 10 of
        None \<Rightarrow> (p, [])
      | Some q \<Rightarrow>
        (let line = take (length p - length q) p; r = grep_scan pattern (drop 1 q)
         in (fst r, (if match pattern line then [line @ [10]] else []) @ snd r)))"
  by pat_completeness auto
termination
  by (relation "measure (\<lambda>(pattern, p). length p)") (auto dest!: strchr_less)

declare grep_scan.simps [simp del]

text \<open>The loop of \<open>grep\<close>, with the first \<open>m\<close> bytes of the buffer of 1024.\<close>

function grep :: "u8 list \<Rightarrow> int \<Rightarrow> u8 list \<Rightarrow> uenv \<Rightarrow> uenv" where
  "grep pattern fd m e =
     (let r = u_read fd (1024 - length m - 1) e
      in if fst (fst r) \<le> 0 then snd r
         else
           (let buf = m @ snd (fst r); s = grep_scan pattern buf
            in grep pattern fd (if length (fst s) = length buf then [] else fst s) (fold (\<lambda>l. u_write 1 l) (snd s) (snd r))))"
  by pat_completeness auto
termination
proof (relation "measure (\<lambda>(pattern, fd, m, e). pending_input fd e)")
  fix pattern fd m e r buf s
  assume r: "r = u_read fd (1024 - length m - 1) e" and n: "\<not> fst (fst r) \<le> 0"
  then have "pending_input fd (snd r) < pending_input fd e"
    using u_read_less [of fd "1024 - length m - 1" e "fst (fst r)" "snd (fst r)" "snd r"] by simp
  then show "((pattern, fd, if length (fst s) = length buf then [] else fst s, fold (\<lambda>l. u_write 1 l) (snd s) (snd r)),
      (pattern, fd, m, e)) \<in> measure (\<lambda>(pattern, fd, m, e). pending_input fd e)"
    by (simp add: pending_input_def)
qed simp

declare grep.simps [simp del]

fun grep_files :: "u8 list \<Rightarrow> u8 list list \<Rightarrow> uenv \<Rightarrow> uenv option" where
  "grep_files pattern [] e = Some e"
| "grep_files pattern (f # fs) e =
     (case u_open f e of
        (fd, e1) \<Rightarrow>
        if fd < 0 then printf 1 (bytes ''grep: cannot open %s\<newline>'') [Str (Some f)] e1
        else grep_files pattern fs (u_close fd (grep pattern fd [] e1)))"

definition grep_main :: "u8 list list \<Rightarrow> uenv \<Rightarrow> uenv option" where
  "grep_main argv e =
     (if length argv \<le> 1 then printf 2 (bytes ''usage: grep pattern [file ...]\<newline>'') [] e
      else if length argv \<le> 2 then Some (grep (argv ! 1) 0 [] e)
      else grep_files (argv ! 1) (drop 2 argv) e)"

section \<open>The language of a pattern\<close>

datatype atom = One u8 | Many u8

definition fits :: "u8 \<Rightarrow> u8 \<Rightarrow> bool" where
  "fits c x \<longleftrightarrow> c = 46 \<or> c = x"

text \<open>The parts of a pattern, and whether it is to end with the text.\<close>

fun parse_re :: "u8 list \<Rightarrow> atom list \<times> bool" where
  "parse_re [] = ([], False)"
| "parse_re [c] = (if c = 36 then ([], True) else ([One c], False))"
| "parse_re (c # d # re) =
     (if d = 42 then apfst (Cons (Many c)) (parse_re re) else apfst (Cons (One c)) (parse_re (d # re)))"

text \<open>The texts that begin with an instance of the parts.\<close>

fun accepts :: "atom list \<Rightarrow> bool \<Rightarrow> u8 list \<Rightarrow> bool" where
  "accepts [] eol t \<longleftrightarrow> (eol \<longrightarrow> t = [])"
| "accepts (One c # as) eol t \<longleftrightarrow> (\<exists>x u. t = x # u \<and> fits c x \<and> accepts as eol u)"
| "accepts (Many c # as) eol t \<longleftrightarrow> (\<exists>v u. t = v @ u \<and> (\<forall>x \<in> set v. fits c x) \<and> accepts as eol u)"

definition denotes :: "u8 list \<Rightarrow> u8 list \<Rightarrow> bool" where
  "denotes re t \<longleftrightarrow> accepts (fst (parse_re re)) (snd (parse_re re)) t"

lemma denotes_simps:
  "denotes [] t" "denotes [c] t \<longleftrightarrow> (if c = 36 then t = [] else \<exists>x u. t = x # u \<and> fits c x)"
  "denotes (c # d # re) t \<longleftrightarrow> (if d = 42 then \<exists>v u. t = v @ u \<and> (\<forall>x \<in> set v. fits c x) \<and> denotes re u
     else \<exists>x u. t = x # u \<and> fits c x \<and> denotes (d # re) u)"
  by (simp_all add: denotes_def apfst_def map_prod_def split_beta)

text \<open>A star takes nothing, or one more character.\<close>

lemma many_unfold:
  "(\<exists>v u. t = v @ u \<and> (\<forall>x \<in> set v. fits c x) \<and> P u) \<longleftrightarrow>
   P t \<or> (\<exists>x t'. t = x # t' \<and> fits c x \<and> (\<exists>v u. t' = v @ u \<and> (\<forall>x \<in> set v. fits c x) \<and> P u))" (is "?l \<longleftrightarrow> ?r")
proof
  assume ?l
  then obtain v u where v: "t = v @ u" "\<forall>x \<in> set v. fits c x" "P u"
    by blast
  then show ?r
    by (cases v) auto
next
  assume ?r
  then show ?l
  proof
    assume "P t"
    then show ?l
      by (intro exI [of _ "[]"] exI [of _ t]) simp
  next
    assume "\<exists>x t'. t = x # t' \<and> fits c x \<and> (\<exists>v u. t' = v @ u \<and> (\<forall>x \<in> set v. fits c x) \<and> P u)"
    then obtain x v u where "t = x # v @ u" "fits c x" "\<forall>x \<in> set v. fits c x" "P u"
      by blast
    then show ?l
      by (intro exI [of _ "x # v"] exI [of _ u]) simp
  qed
qed

lemma matchhere_denotes:
  "0 \<notin> set re \<Longrightarrow> 0 \<notin> set t \<Longrightarrow> matchhere re t \<longleftrightarrow> denotes re t"
  "c \<noteq> 0 \<Longrightarrow> 0 \<notin> set re \<Longrightarrow> 0 \<notin> set t \<Longrightarrow>
    matchstar c re t \<longleftrightarrow> (\<exists>v u. t = v @ u \<and> (\<forall>x \<in> set v. fits c x) \<and> denotes re u)"
proof (induction re t and c re t rule: matchhere_matchstar.induct)
  case (1 re t)
  show ?case
  proof (cases re rule: parse_re.cases)
    case 1
    then show ?thesis
      by (simp add: matchhere.simps [of "[]"] denotes_simps)
  next
    case (2 c)
    then show ?thesis
      using 1(3,4) by (cases t) (auto simp: matchhere.simps [of "[c]"] matchhere.simps [of "[]"] denotes_simps fits_def)
  next
    case (3 c d re')
    have "d \<noteq> 0" "c \<noteq> 0" "0 \<notin> set re'"
      using 3 1(3) by auto
    then show ?thesis
      using 1 3 by (cases t) (auto simp: matchhere.simps [of "c # d # re'"] denotes_simps fits_def)
  qed
next
  case (2 c re t)
  have "0 \<notin> set (drop 1 t)"
    using 2(5) by (auto dest: in_set_dropD)
  then show ?case
    using 2 many_unfold [of t c "denotes re"]
    by (cases t) (auto simp: matchstar.simps [of c re] fits_def)
qed

text \<open>A pattern matches a line if an instance of it occurs in the line, at the beginning if the pattern starts with a caret.\<close>

definition occurs :: "u8 list \<Rightarrow> u8 list \<Rightarrow> bool" where
  "occurs re t \<longleftrightarrow> (if take 1 re = [94] then denotes (drop 1 re) t else \<exists>u v. t = u @ v \<and> denotes re v)"

lemma match_loop_denotes:
  "0 \<notin> set re \<Longrightarrow> 0 \<notin> set t \<Longrightarrow> match_loop re t \<longleftrightarrow> (\<exists>u v. t = u @ v \<and> denotes re v)"
proof (induction t)
  case Nil
  then show ?case
    by (simp add: matchhere_denotes)
next
  case (Cons c t)
  have "(\<exists>u v. c # t = u @ v \<and> denotes re v) \<longleftrightarrow> denotes re (c # t) \<or> (\<exists>u v. t = u @ v \<and> denotes re v)"
    by (metis Cons_eq_append_conv append_Nil append_Cons)
  then show ?case
    using Cons by (auto simp: matchhere_denotes)
qed

lemma match_occurs: "0 \<notin> set re \<Longrightarrow> 0 \<notin> set t \<Longrightarrow> match re t \<longleftrightarrow> occurs re t"
proof -
  assume "0 \<notin> set re" "0 \<notin> set t"
  moreover from this have "0 \<notin> set (drop 1 re)"
    by (auto dest: in_set_dropD)
  ultimately show ?thesis
    by (cases re) (simp_all add: match_def occurs_def matchhere_denotes match_loop_denotes)
qed

section \<open>Lines\<close>

lemma strchr_skip: "c \<noteq> 0 \<Longrightarrow> c \<notin> set l \<Longrightarrow> 0 \<notin> set l \<Longrightarrow> strchr (l @ c # r) c = Some (c # r)"
  by (induction l) auto

lemma strchr_none: "c \<notin> set p \<Longrightarrow> strchr p c = None"
  by (induction p) auto

definition text_of :: "u8 list list \<Rightarrow> u8 list" where
  "text_of ls = concat (map (\<lambda>l. l @ [10]) ls)"

lemma grep_scan_lines:
  "(\<forall>l \<in> set ls. 10 \<notin> set l \<and> 0 \<notin> set l) \<Longrightarrow> 10 \<notin> set r \<Longrightarrow>
    grep_scan re (text_of ls @ r) = (r, map (\<lambda>l. l @ [10]) (filter (match re) ls))"
proof (induction ls)
  case Nil
  then show ?case
    by (simp add: text_of_def grep_scan.simps [of re r] strchr_none)
next
  case (Cons l ls)
  have t: "text_of (l # ls) @ r = l @ 10 # (text_of ls @ r)"
    by (simp add: text_of_def)
  have "strchr (l @ 10 # (text_of ls @ r)) 10 = Some (10 # (text_of ls @ r))"
    using Cons.prems by (intro strchr_skip) simp_all
  then show ?case
    unfolding t grep_scan.simps [of re "l @ 10 # (text_of ls @ r)"] using Cons by (simp add: Let_def)
qed

lemma grep_read:
  assumes "0 \<le> fd" and "u_in e (nat fd) = Some p # ps" and "p \<noteq> []" and "length p < 1024"
  shows "grep re fd [] e = (let s = grep_scan re p
    in grep re fd (if length (fst s) = length p then [] else fst s)
        (fold (\<lambda>l. u_write 1 l) (snd s) (e\<lparr>u_in := (u_in e)(nat fd := ps)\<rparr>)))"
  using assms by (simp add: grep.simps [of re fd "[]" e] u_read_def Let_def not_le)

lemma grep_end: "0 \<le> fd \<Longrightarrow> u_in e (nat fd) = [] \<Longrightarrow> grep re fd [] e = e"
  by (simp add: grep.simps [of re fd "[]" e] u_read_def)

section \<open>Properties\<close>

text \<open>
  C7: The matcher decides the language of the pattern: for a pattern and a line without zero bytes, \<open>match\<close> returns true exactly if an instance
  of the pattern, whose parts are characters, dots, starred characters and a final dollar, occurs in the line, at its beginning if the pattern starts
  with a caret.
\<close>

theorem match_language:
  assumes "0 \<notin> set re" and "0 \<notin> set text"
  shows "match re text \<longleftrightarrow> occurs re text"
  using assms by (rule match_occurs)

theorem match_language_witness: "match (bytes ''a.*c$'') (bytes ''xabbc'') \<longleftrightarrow> occurs (bytes ''a.*c$'') (bytes ''xabbc'')"
  by (rule match_language) (simp_all add: bytes_def byte_def)

text \<open>
  C34: \<open>grep\<close> prints the matching lines: when every \<open>read\<close> delivers a piece of the input that consists of whole lines and fits into
  the buffer, \<open>grep\<close> writes to the standard output exactly the lines in which the pattern occurs, in order and each with its
  newline.
\<close>

theorem grep_prints_matching:
  assumes "0 \<notin> set re" and "0 \<le> fd" and "u_in e (nat fd) = map (\<lambda>ls. Some (text_of ls)) lss"
    and "\<forall>ls \<in> set lss. ls \<noteq> [] \<and> length (text_of ls) < 1024 \<and> (\<forall>l \<in> set ls. 10 \<notin> set l \<and> 0 \<notin> set l)"
  shows "u_out (grep re fd [] e) = u_out e @ map (\<lambda>l. (1, l @ [10])) (filter (occurs re) (concat lss))"
  using assms(3,4)
proof (induction lss arbitrary: e)
  case Nil
  then show ?case
    using assms(2) by (simp add: grep_end)
next
  case (Cons ls lss)
  let ?ms = "map (\<lambda>l. l @ [10]) (filter (match re) ls)"
  let ?e = "(e\<lparr>u_in := (u_in e)(nat fd := map (\<lambda>ls. Some (text_of ls)) lss)\<rparr>)\<lparr>u_out := u_out e @ map (Pair 1) ?ms\<rparr>"
  have ls: "ls \<noteq> []" "length (text_of ls) < 1024" "\<forall>l \<in> set ls. 10 \<notin> set l \<and> 0 \<notin> set l"
    using Cons.prems(2) by auto
  have ne: "text_of ls \<noteq> []"
    using ls(1) by (cases ls) (simp_all add: text_of_def)
  have sc: "grep_scan re (text_of ls) = ([], ?ms)"
    using grep_scan_lines [OF ls(3), of "[]" re] by simp
  have "filter (match re) ls = filter (occurs re) ls"
    using ls(3) assms(1) by (intro filter_cong) (simp_all add: match_occurs)
  moreover have "grep re fd [] e = grep re fd [] ?e"
    using grep_read [OF assms(2) _ ne ls(2), of e "map (\<lambda>ls. Some (text_of ls)) lss" re] Cons.prems(1) sc ne
    by (simp add: Let_def fold_u_write)
  moreover have "u_out (grep re fd [] ?e) = u_out ?e @ map (\<lambda>l. (1, l @ [10])) (filter (occurs re) (concat lss))"
    using Cons.prems(2) by (intro Cons.IH) simp_all
  ultimately show ?case
    by (simp add: o_def)
qed

theorem grep_prints_matching_witness:
  "u_out (grep (bytes ''b'') 0 [] (demo_uenv [text_of [bytes ''abc'', bytes ''xyz''], text_of [bytes ''b'']])) =
    map (\<lambda>l. (1, l @ [10])) (filter (occurs (bytes ''b'')) [bytes ''abc'', bytes ''xyz'', bytes ''b''])"
  using grep_prints_matching [of "bytes ''b''" 0 "demo_uenv [text_of [bytes ''abc'', bytes ''xyz''], text_of [bytes ''b'']]"
      "[[bytes ''abc'', bytes ''xyz''], [bytes ''b'']]"]
  by (simp add: demo_uenv_def text_of_def bytes_def byte_def)

text \<open>
  C35: A line that arrives in two reads is lost in part: when the buffer is empty and a \<open>read\<close> delivers only the beginning of a line, \<open>grep\<close> forgets
  what it has read and goes on as if the input began with the next piece.
\<close>

theorem grep_split_line_lost:
  assumes "0 \<le> fd" and "u_in e (nat fd) = Some p # ps" and "p \<noteq> []" and "length p < 1024" and "10 \<notin> set p"
  shows "grep re fd [] e = grep re fd [] (e\<lparr>u_in := (u_in e)(nat fd := ps)\<rparr>)"
  using grep_read [OF assms(1-4), of re] assms(5) by (simp add: grep_scan.simps [of re p] strchr_none Let_def)

theorem grep_split_line_lost_witness:
  "u_out (grep (bytes ''a'') 0 [] (demo_uenv [bytes ''a'', [98, 10]])) = u_out (grep (bytes ''a'') 0 [] (demo_uenv [[98, 10]]))"
  using grep_split_line_lost [of 0 "demo_uenv [bytes ''a'', [98, 10]]" "bytes ''a''" "[Some [98, 10]]" "bytes ''a''"]
  by (simp add: demo_uenv_def bytes_def byte_def)
end
