(* ===== verification/Umalloc.thy ===== *)
theory Umalloc
  imports Ulib
begin

text \<open>
  The storage allocator of the user programs (\<open>src/umalloc.c\<close>): a circular list of free blocks ordered by address, each starting with a header
  of eight bytes that holds the address of the next block and the size in headers. Walks along the list are partial functions, since a
  damaged list may be walked forever.
\<close>

text \<open>
  The memory of the process, the variable \<open>freep\<close>, the end of the process's memory, and the address of the static variable \<open>base\<close>. \<open>um_grow\<close>
  tells whether the kernel grants a request of \<open>sbrk\<close> when memory ends at the given address.
\<close>

record heap =
  um_mem :: memory
  um_freep :: u32
  um_brk :: u32
  um_base :: u32
  um_grow :: "u32 \<Rightarrow> u32 \<Rightarrow> bool"

definition hdr_ptr :: "heap \<Rightarrow> u32 \<Rightarrow> u32" where
  "hdr_ptr h p = load32 (um_mem h) p"

definition hdr_size :: "heap \<Rightarrow> u32 \<Rightarrow> u32" where
  "hdr_size h p = load32 (um_mem h) (p + 4)"

definition set_ptr :: "u32 \<Rightarrow> u32 \<Rightarrow> heap \<Rightarrow> heap" where
  "set_ptr p v h = h\<lparr>um_mem := store32 (um_mem h) p v\<rparr>"

definition set_size :: "u32 \<Rightarrow> u32 \<Rightarrow> heap \<Rightarrow> heap" where
  "set_size p v h = h\<lparr>um_mem := store32 (um_mem h) (p + 4) v\<rparr>"

text \<open>The block after which \<open>bp\<close> belongs.\<close>

partial_function (option) free_find :: "heap \<Rightarrow> u32 \<Rightarrow> u32 \<Rightarrow> u32 option" where
  "free_find h bp p =
     (let q = hdr_ptr h p
      in if bp > p \<and> bp < q then Some p
         else if p \<ge> q \<and> (bp > p \<or> bp < q) then Some p
         else free_find h bp q)"

definition free_link :: "u32 \<Rightarrow> u32 \<Rightarrow> heap \<Rightarrow> heap" where
  "free_link bp p h =
     (let h1 = (if bp + 8 * hdr_size h bp = hdr_ptr h p
                then let h' = set_size bp (hdr_size h bp + hdr_size h (hdr_ptr h p)) h in set_ptr bp (hdr_ptr h' (hdr_ptr h' p)) h'
                else set_ptr bp (hdr_ptr h p) h);
          h2 = (if p + 8 * hdr_size h1 p = bp
                then let h' = set_size p (hdr_size h1 p + hdr_size h1 bp) h1 in set_ptr p (hdr_ptr h' bp) h'
                else set_ptr p bp h1)
      in h2\<lparr>um_freep := p\<rparr>)"

definition free :: "u32 \<Rightarrow> heap \<Rightarrow> heap option" where
  "free ap h = (let bp = ap - 8 in map_option (\<lambda>p. free_link bp p h) (free_find h bp (um_freep h)))"

definition sbrk :: "u32 \<Rightarrow> heap \<Rightarrow> u32 \<times> heap" where
  "sbrk n h = (if um_grow h (um_brk h) n then (um_brk h, h\<lparr>um_brk := um_brk h + n\<rparr>) else (- 1, h))"

definition morecore :: "u32 \<Rightarrow> heap \<Rightarrow> (u32 \<times> heap) option" where
  "morecore nu h =
     (let n = (if nu < 4096 then 4096 else nu)
      in case sbrk (n * 8) h of
           (p, h1) \<Rightarrow>
           if p = - 1 then Some (0, h1)
           else map_option (\<lambda>h2. (um_freep h2, h2)) (free (p + 8) (set_size p n h1)))"

definition malloc_units :: "u32 \<Rightarrow> u32" where
  "malloc_units nbytes = (nbytes + 8 - 1) div 8 + 1"

text \<open>Taking \<open>nunits\<close> headers out of the free block \<open>p\<close>: all of it, or its tail.\<close>

definition malloc_take :: "u32 \<Rightarrow> u32 \<Rightarrow> u32 \<Rightarrow> heap \<Rightarrow> u32 \<times> heap" where
  "malloc_take nunits prevp p h =
     (if hdr_size h p = nunits then (p + 8, (set_ptr prevp (hdr_ptr h p) h)\<lparr>um_freep := prevp\<rparr>)
      else
      let h1 = set_size p (hdr_size h p - nunits) h; p' = p + 8 * hdr_size h1 p
      in (p' + 8, (set_size p' nunits h1)\<lparr>um_freep := prevp\<rparr>))"

partial_function (option) malloc_loop :: "u32 \<Rightarrow> u32 \<Rightarrow> u32 \<Rightarrow> heap \<Rightarrow> (u32 \<times> heap) option" where
  "malloc_loop nunits prevp p h =
     (if hdr_size h p \<ge> nunits then Some (malloc_take nunits prevp p h)
      else if p = um_freep h then
        Option.bind (morecore nunits h) (\<lambda>r.
          if fst r = 0 then Some (0, snd r) else malloc_loop nunits (fst r) (hdr_ptr (snd r) (fst r)) (snd r))
      else malloc_loop nunits p (hdr_ptr h p) h)"

definition malloc :: "u32 \<Rightarrow> heap \<Rightarrow> (u32 \<times> heap) option" where
  "malloc nbytes h =
     (let h0 = (if um_freep h = 0 then (set_size (um_base h) 0 (set_ptr (um_base h) (um_base h) h))\<lparr>um_freep := um_base h\<rparr> else h);
          prevp = um_freep h0
      in malloc_loop (malloc_units nbytes) prevp (hdr_ptr h0 prevp) h0)"

section \<open>Headers\<close>

definition al :: "u32 \<Rightarrow> bool" where
  "al p \<longleftrightarrow> unat p mod 8 = 0"

lemma unat_add_mod: "unat (p + q :: u32) mod 8 = (unat p + unat q) mod 8" "unat (p + q :: u32) mod 4 = (unat p + unat q) mod 4"
  by (simp_all add: unat_word_ariths mod_mod_cancel)

lemma al_add [simp]: "al p \<Longrightarrow> al q \<Longrightarrow> al (p + q)"
  unfolding al_def unat_add_mod by presburger

lemma al_units [simp]: "al (8 * n)"
  by (simp add: al_def unat_word_ariths mod_mod_cancel)

lemma al_word:
  assumes "al p" and "al q"
  shows "p mod 4 = 0" "(p + 4) mod 4 = 0" "p \<noteq> q + 4"
proof -
  have m: "unat x mod 4 = 0 \<Longrightarrow> x mod 4 = 0" for x :: u32
    by (simp add: word_unat_eq_iff unat_mod)
  show "p mod 4 = 0" "(p + 4) mod 4 = 0"
    using assms(1) by (intro m; simp add: al_def unat_add_mod; presburger)+
  have "unat (q + 4) mod 8 = 4"
    unfolding unat_add_mod using assms(2) by (simp add: al_def) presburger
  then show "p \<noteq> q + 4"
    using assms(1) by (auto simp: al_def)
qed

lemma hdr_upd [simp]:
  assumes "al p" and "al q"
  shows "hdr_ptr (set_ptr p v h) q = (if q = p then v else hdr_ptr h q)" "hdr_size (set_ptr p v h) q = hdr_size h q"
    "hdr_ptr (set_size p v h) q = hdr_ptr h q" "hdr_size (set_size p v h) q = (if q = p then v else hdr_size h q)"
proof -
  note a = al_word [OF assms] and b = al_word [OF assms(2,1)]
  have ne: "p + 4 \<noteq> q" "p \<noteq> q + 4" "p + 4 = q + 4 \<longleftrightarrow> q = p"
    using a(3) b(3) by auto
  show "hdr_ptr (set_ptr p v h) q = (if q = p then v else hdr_ptr h q)" "hdr_size (set_ptr p v h) q = hdr_size h q"
    using load32_store32_other [OF a(1) b(1)] load32_store32_other [OF a(1) b(2) ne(2)]
    by (auto simp: hdr_ptr_def hdr_size_def set_ptr_def)
  show "hdr_ptr (set_size p v h) q = hdr_ptr h q" "hdr_size (set_size p v h) q = (if q = p then v else hdr_size h q)"
    using load32_store32_other [OF a(2) b(1) ne(1)] load32_store32_other [OF a(2) b(2)] ne(3)
    by (auto simp: hdr_ptr_def hdr_size_def set_size_def)
qed

lemma hdr_freep [simp]: "hdr_ptr (h\<lparr>um_freep := x\<rparr>) q = hdr_ptr h q" "hdr_size (h\<lparr>um_freep := x\<rparr>) q = hdr_size h q"
  "hdr_ptr (h\<lparr>um_brk := y\<rparr>) q = hdr_ptr h q" "hdr_size (h\<lparr>um_brk := y\<rparr>) q = hdr_size h q"
  by (simp_all add: hdr_ptr_def hdr_size_def)

lemma set_sel [simp]: "um_freep (set_ptr p v h) = um_freep h" "um_freep (set_size p v h) = um_freep h"
  "um_brk (set_ptr p v h) = um_brk h" "um_brk (set_size p v h) = um_brk h" "um_base (set_ptr p v h) = um_base h"
  "um_base (set_size p v h) = um_base h" "um_grow (set_ptr p v h) = um_grow h" "um_grow (set_size p v h) = um_grow h"
  by (simp_all add: set_ptr_def set_size_def)

section \<open>The size of a request\<close>

lemma malloc_units_nat:
  assumes "unat nbytes < 0xFFFFFFF9"
  shows "unat (malloc_units nbytes) = (unat nbytes + 7) div 8 + 1"
proof -
  have "unat (nbytes + 8 - 1) = unat nbytes + 7"
    using assms by (simp add: unat_word_ariths)
  then have "unat ((nbytes + 8 - 1) div 8) = (unat nbytes + 7) div 8"
    by (simp add: unat_div)
  then show ?thesis
    using assms by (simp add: malloc_units_def unat_word_ariths)
qed

section \<open>The first allocation\<close>

text \<open>The heap after the first \<open>morecore\<close>: one free block behind \<open>base\<close>.\<close>

definition one_block :: "heap \<Rightarrow> heap" where
  "one_block h = (let B = um_base h; K = um_brk h
     in (set_ptr B K (set_ptr K B (set_size K 4096 ((set_size B 0 (set_ptr B B h))\<lparr>um_freep := B, um_brk := K + 32768\<rparr>))))\<lparr>um_freep := B\<rparr>)"

lemma first_block:
  assumes "um_freep h = 0" and B: "B = um_base h" "al B" "B \<noteq> 0" and K: "K = um_brk h" "al K" "B < K" "unat K + 32768 < 4294967296"
    and "um_grow h K 32768" and u: "0 < u" "u < 4096"
  shows "malloc_loop u B B ((set_size B 0 (set_ptr B B h))\<lparr>um_freep := B\<rparr>) = Some (malloc_take u B K (one_block h))"
proof -
  let ?h0 = "(set_size B 0 (set_ptr B B h))\<lparr>um_freep := B\<rparr>"
  let ?h1 = "set_size K 4096 (?h0\<lparr>um_brk := K + 32768\<rparr>)"
  have ne: "K \<noteq> B" "\<not> K < B" "K \<noteq> - 1" "u \<noteq> 0"
    using B K u by (auto simp: unat_minus_one_word)
  have "unat (K + 32768) = unat K + 32768"
    using K(4) by (simp add: unat_word_ariths)
  then have top: "K + 32768 \<noteq> B"
    using K(3) by (auto simp: word_less_nat_alt)
  have f1: "hdr_ptr ?h1 B = B" "hdr_size ?h1 B = 0" "hdr_size ?h1 K = 4096" "um_freep ?h1 = B"
    using B(2) K(2) ne(1) by simp_all
  then have "free_find ?h1 K B = Some B"
    using K(3) by (subst free_find.simps) (simp add: Let_def)
  then have "free (K + 8) ?h1 = Some ((set_ptr B K (set_ptr K B ?h1))\<lparr>um_freep := B\<rparr>)"
    using B(2) K(2) ne(1) top f1 by (simp add: free_def free_link_def Let_def)
  then have "morecore u ?h0 = Some (B, one_block h)"
    using assms(9) B K ne u by (simp add: morecore_def sbrk_def one_block_def Let_def)
  moreover have "hdr_size ?h0 B = 0" "hdr_ptr (one_block h) B = K" "hdr_size (one_block h) K = 4096"
    using B K ne by (simp_all add: one_block_def Let_def)
  ultimately show ?thesis
    using u B(3) ne by (simp add: malloc_loop.simps [of u B B] malloc_loop.simps [of u B K] word_le_nat_alt word_less_nat_alt)
qed

lemma unat_headers: "unat p + 8 * unat n < 4294967296 \<Longrightarrow> unat (p + 8 * n :: u32) = unat p + 8 * unat n"
  by (simp add: unat_word_ariths)

lemma take_tail:
  assumes B: "B = um_base h" "al B" and K: "K = um_brk h" "al K" "B < K" "unat K + 32768 < 4294967296"
    and u: "unat u + unat n = 4096" "0 < unat u" "0 < unat n" and P: "P = K + 8 * n"
  shows "malloc_take u B K (one_block h) = (P + 8, (set_size P u (set_size K n (one_block h)))\<lparr>um_freep := B\<rparr>)"
    "unat P = unat K + 8 * unat n" "al P" "K < P" "B < P" "u + n = 4096"
proof -
  have s: "u + n = 4096"
    using u(1) by (simp add: word_unat_eq_iff unat_word_ariths)
  then have "4096 - u = n"
    by (metis add_diff_cancel_left')
  moreover have "K \<noteq> B" "4096 \<noteq> u"
    using K(3) u by auto
  ultimately have ne: "K \<noteq> B" "4096 \<noteq> u" "4096 - u = n"
    by simp_all
  show "malloc_take u B K (one_block h) = (P + 8, (set_size P u (set_size K n (one_block h)))\<lparr>um_freep := B\<rparr>)"
    using B K ne by (simp add: malloc_take_def one_block_def Let_def P)
  show p: "unat P = unat K + 8 * unat n"
    using unat_headers [of K n] K(4) u unfolding P by linarith
  show "al P" "u + n = 4096"
    using K(2) s by (simp_all add: P)
  show "K < P" "B < P"
    using p u(3) K(3) by (simp_all add: word_less_nat_alt)
qed

lemma free_tail:
  assumes B: "al B" and K: "al K" "B < K" "unat K + 32768 < 4294967296"
    and u: "u + n = 4096" and P: "P = K + 8 * n" "al P" "K < P" "B < P"
    and h: "um_freep h = B" "hdr_ptr h B = K" "hdr_ptr h K = B" "hdr_size h K = n" "hdr_size h P = u"
  shows "free (P + 8) h = Some ((set_ptr K B (set_size K 4096 (set_ptr P B h)))\<lparr>um_freep := K\<rparr>)"
proof -
  have ne: "K \<noteq> P" "B \<noteq> P" "\<not> P < K" "\<not> K \<le> B" "B \<le> K" "n + u = 4096"
    using P(3,4) K(2) u by (auto simp: add.commute)
  have "free_find h P K = Some K"
    using P(3) ne h(3) by (subst free_find.simps) (simp add: Let_def)
  then have f: "free_find h P B = Some K"
    using h(2) P(4) ne by (subst free_find.simps) (simp add: Let_def)
  have "P + 8 * u = K + 8 * (u + n)"
    by (simp add: P(1) algebra_simps)
  then have "P + 8 * u = K + 32768"
    by (simp add: u)
  moreover have "unat (K + 32768) = unat K + 32768"
    using K(3) by (simp add: unat_word_ariths)
  ultimately have "P + 8 * u \<noteq> B"
    using K(2) by (auto simp: word_less_nat_alt)
  then show ?thesis
    using f h P(1) [symmetric] P(2) B K(1) ne by (simp add: free_def free_link_def Let_def)
qed

section \<open>Properties\<close>

text \<open>
  C36: The first allocation and its release. On a heap that has not been used, a request of up to 32752 bytes terminates and returns a block that lies behind what
  remains free, inside the 32 KB obtained from the kernel, and is as large as requested; freeing it merges the two
  parts into one free block again.
\<close>

theorem malloc_free_first:
  assumes "um_freep h = 0" and "al (um_base h)" and "um_base h \<noteq> 0" and "al (um_brk h)" and "um_base h < um_brk h"
    and "unat (um_brk h) + 32768 < 4294967296" and "um_grow h (um_brk h) 32768" and "unat nbytes \<le> 32752"
  shows "\<exists>p h1 h2. malloc nbytes h = Some (p, h1) \<and> unat p = unat (um_brk h) + 8 * unat (hdr_size h1 (um_brk h)) + 8 \<and>
    unat p + unat nbytes \<le> unat (um_brk h) + 32768 \<and> um_brk h1 = um_brk h + 32768 \<and>
    free p h1 = Some h2 \<and> hdr_size h2 (um_brk h) = 4096 \<and> hdr_ptr h2 (um_brk h) = um_base h \<and> hdr_ptr h2 (um_base h) = um_brk h"
proof -
  let ?B = "um_base h" and ?K = "um_brk h" and ?u = "malloc_units nbytes"
  define n where "n = 4096 - ?u"
  define P where "P = ?K + 8 * n"
  let ?h1 = "(set_size P ?u (set_size ?K n (one_block h)))\<lparr>um_freep := ?B\<rparr>"
  have u: "unat ?u = (unat nbytes + 7) div 8 + 1" "0 < unat ?u" "unat ?u < 4096"
    using malloc_units_nat [of nbytes] assms(8) by simp_all
  then have n: "unat n = 4096 - unat ?u"
    by (simp add: n_def unat_sub word_le_nat_alt)
  have u': "0 < ?u" "?u < 4096" "unat ?u + unat n = 4096" "0 < unat n"
    using u(2,3) n by (simp_all add: word_less_nat_alt)
  note t = take_tail [OF refl assms(2) refl assms(4-6) u'(3) u(2) u'(4) P_def]
  have ne: "?K \<noteq> ?B" "?K \<noteq> P" "P \<noteq> ?B"
    using assms(5) t(4,5) by auto
  have "malloc nbytes h = Some (P + 8, ?h1)"
    using first_block [OF assms(1) refl assms(2,3) refl assms(4-7) u'(1,2)] t(1) assms(1,2) by (simp add: malloc_def Let_def)
  moreover have f: "um_freep ?h1 = ?B" "hdr_ptr ?h1 ?B = ?K" "hdr_ptr ?h1 ?K = ?B" "hdr_size ?h1 ?K = n" "hdr_size ?h1 P = ?u"
    "um_brk ?h1 = ?K + 32768"
    using assms(2,4) t(3) ne by (simp_all add: one_block_def Let_def)
  moreover have "free (P + 8) ?h1 = Some ((set_ptr ?K ?B (set_size ?K 4096 (set_ptr P ?B ?h1)))\<lparr>um_freep := ?K\<rparr>)" (is "_ = Some ?h2")
    by (rule free_tail [OF assms(2,4-6) t(6) P_def t(3-5) f(1-5)])
  moreover have "hdr_size ?h2 ?K = 4096" "hdr_ptr ?h2 ?K = ?B" "hdr_ptr ?h2 ?B = ?K"
    using assms(2,4) t(3) ne by (simp_all add: one_block_def Let_def)
  moreover have "unat (P + 8) = unat P + 8"
    using unat_headers [of P 1] t(2) assms(6) u'(3) u(2) by auto
  ultimately show ?thesis
    using t(2) n u(1,3) by (intro exI [of _ "P + 8"] exI [of _ ?h1] exI [of _ ?h2]) (simp, linarith)
qed

definition demo_heap :: heap where
  "demo_heap = \<lparr>um_mem = (\<lambda>_. 0), um_freep = 0, um_brk = 0x4000, um_base = 0x1000, um_grow = (\<lambda>_ _. True)\<rparr>"

theorem malloc_free_first_witness:
  "\<exists>p h1 h2. malloc 100 demo_heap = Some (p, h1) \<and> free p h1 = Some h2 \<and> hdr_size h2 0x4000 = 4096"
  using malloc_free_first [of demo_heap 100] by (auto simp: demo_heap_def al_def)

end
