(* ===== verification/Uprog.thy ===== *)
theory Uprog
  imports Ulib
begin

text \<open>
  User programs that fork. A program is the tree of the system calls it makes, branching on what they return; after \<open>fork\<close> the child goes on
  with result 0 and the parent with the child's process id. The shells (\<open>src/sh.c\<close>, \<open>src/xvsh.c\<close>) and \<open>src/init.c\<close> are such programs. The
  second part follows a tree through descriptor tables and tells which programs are run with which arguments and descriptors.
\<close>

section \<open>Programs\<close>

text \<open>
  The arguments of a call are values, not addresses: a string is its bytes, \<open>exec\<close> gets the list of its arguments, and the text that a call
  of \<open>printf\<close> prints byte by byte is one call. The first number of a result is what the call returns; \<open>pipe\<close> adds the two descriptors and
  \<open>read\<close> the bytes.
\<close>

datatype sys =
  SFork | SWait | SPipe | SClose int | SDup int | SOpen "u8 list" u32 | SExec "u8 list" "u8 list list" |
  SChdir "u8 list" | SMknod "u8 list" int int | SRead int nat | SPrint int "u8 list"

text \<open>\<open>Stuck\<close> is a program whose behaviour is undefined; \<open>Cut\<close> marks where a loop without end has used up its bound.\<close>

datatype prog = Exit | Stuck | Cut | Call sys "int list \<Rightarrow> prog"

definition res :: "int list \<Rightarrow> int" where
  "res r = (case r of [] \<Rightarrow> - 1 | x # _ \<Rightarrow> x)"

definition ret_n :: "nat \<Rightarrow> int list \<Rightarrow> int" where
  "ret_n i r = (if i < length r then r ! i else - 1)"

definition read_bytes :: "int list \<Rightarrow> u8 list" where
  "read_bytes r = map word_of_int (take (nat (res r)) (drop 1 r))"

section \<open>Descriptor tables\<close>

text \<open>What a descriptor refers to: one of the files open at the start, the ends of a pipe, or a file opened by name. A pipe is named by the
  position in the tree where it was made.\<close>

datatype obj = Inherited nat | PipeR "nat list" | PipeW "nat list" | Opened "u8 list" u32

type_synonym fdtab = "nat \<Rightarrow> obj option"

definition fd_obj :: "fdtab \<Rightarrow> int \<Rightarrow> obj option" where
  "fd_obj t fd = (if 0 \<le> fd \<and> fd < int NOFILE then t (nat fd) else None)"

definition fdalloc_u :: "fdtab \<Rightarrow> nat option" where
  "fdalloc_u t = find (\<lambda>d. t d = None) [0..<NOFILE]"

text \<open>Which programs can be executed and which files can be opened.\<close>

record kern =
  k_prog :: "u8 list \<Rightarrow> bool"
  k_file :: "u8 list \<Rightarrow> u32 \<Rightarrow> bool"
  k_fork :: "nat list \<Rightarrow> bool"

text \<open>A process: its position in the tree, its descriptors, what the reads from descriptor 0 will deliver, and its children not yet waited for.\<close>

record uproc =
  at :: "nat list"
  fds :: fdtab
  input :: "u8 list list"
  kids :: nat

datatype event = Ran "u8 list" "u8 list list" fdtab | Wrote "obj option" "u8 list" | Waited | Undefined | Unfinished

definition sys_open_u :: "kern \<Rightarrow> u8 list \<Rightarrow> u32 \<Rightarrow> fdtab \<Rightarrow> int list \<times> fdtab" where
  "sys_open_u K f m t =
     (case fdalloc_u t of
        Some d \<Rightarrow> if k_file K f m then ([int d], t(d := Some (Opened f m))) else ([- 1], t)
      | None \<Rightarrow> ([- 1], t))"

definition sys_dup_u :: "int \<Rightarrow> fdtab \<Rightarrow> int list \<times> fdtab" where
  "sys_dup_u fd t =
     (case (fd_obj t fd, fdalloc_u t) of
        (Some x, Some d) \<Rightarrow> ([int d], t(d := Some x))
      | _ \<Rightarrow> ([- 1], t))"

definition sys_close_u :: "int \<Rightarrow> fdtab \<Rightarrow> int list \<times> fdtab" where
  "sys_close_u fd t = (if fd_obj t fd = None then ([- 1], t) else ([0], t(nat fd := None)))"

definition sys_pipe_u :: "nat list \<Rightarrow> fdtab \<Rightarrow> int list \<times> fdtab" where
  "sys_pipe_u n t =
     (case fdalloc_u t of
        None \<Rightarrow> ([- 1], t)
      | Some d0 \<Rightarrow>
        (case fdalloc_u (t(d0 := Some (PipeR n))) of
           None \<Rightarrow> ([- 1], t)
         | Some d1 \<Rightarrow> ([0, int d0, int d1], t(d0 := Some (PipeR n), d1 := Some (PipeW n)))))"

definition sys_read_u :: "nat \<Rightarrow> u8 list list \<Rightarrow> int list \<times> u8 list list" where
  "sys_read_u m inp =
     (case inp of
        [] \<Rightarrow> ([0], [])
      | l # ls \<Rightarrow> (int (length (take m l)) # map uint (take m l), if length l \<le> m then ls else drop m l # ls))"

text \<open>
  The events of a program and of all processes it forks, when a child runs to its end before its parent goes on.
\<close>

primrec run :: "prog \<Rightarrow> kern \<Rightarrow> uproc \<Rightarrow> event list" where
  "run Exit = (\<lambda>K p. [])"
| "run Stuck = (\<lambda>K p. [Undefined])"
| "run Cut = (\<lambda>K p. [Unfinished])"
| "run (Call c k) = (\<lambda>K p.
     case c of
       SFork \<Rightarrow>
       if k_fork K (at p) then
         run (k [0]) K (p\<lparr>at := 0 # at p, kids := 0\<rparr>) @ run (k [1]) K (p\<lparr>at := 1 # at p, kids := Suc (kids p)\<rparr>)
       else run (k [- 1]) K p
     | SWait \<Rightarrow> if kids p = 0 then run (k [- 1]) K p else Waited # run (k [1]) K (p\<lparr>kids := kids p - 1\<rparr>)
     | SPipe \<Rightarrow> (case sys_pipe_u (at p) (fds p) of (r, t) \<Rightarrow> run (k r) K (p\<lparr>at := 2 # at p, fds := t\<rparr>))
     | SClose fd \<Rightarrow> (case sys_close_u fd (fds p) of (r, t) \<Rightarrow> run (k r) K (p\<lparr>fds := t\<rparr>))
     | SDup fd \<Rightarrow> (case sys_dup_u fd (fds p) of (r, t) \<Rightarrow> run (k r) K (p\<lparr>fds := t\<rparr>))
     | SOpen f m \<Rightarrow> (case sys_open_u K f m (fds p) of (r, t) \<Rightarrow> run (k r) K (p\<lparr>fds := t\<rparr>))
     | SExec f as \<Rightarrow> if k_prog K f then [Ran f as (fds p)] else run (k [- 1]) K p
     | SChdir f \<Rightarrow> run (k [0]) K p
     | SMknod f a b \<Rightarrow> run (k [0]) K p
     | SRead fd m \<Rightarrow> (case sys_read_u m (input p) of (r, inp) \<Rightarrow> run (k r) K (p\<lparr>input := inp\<rparr>))
     | SPrint fd s \<Rightarrow> Wrote (fd_obj (fds p) fd) s # run (k [int (length s)]) K p)"

section \<open>Standard descriptors\<close>

text \<open>Descriptors 0, 1 and 2 are open and no other one is.\<close>

definition std :: "fdtab \<Rightarrow> bool" where
  "std t \<longleftrightarrow> (\<forall>d. t d \<noteq> None \<longleftrightarrow> d < 3)"

lemma fdalloc_uI: "t d = None \<Longrightarrow> d < NOFILE \<Longrightarrow> (\<And>e. e < d \<Longrightarrow> t e \<noteq> None) \<Longrightarrow> fdalloc_u t = Some d"
  unfolding fdalloc_u_def find_Some_iff by (rule exI [of _ d]) auto

lemma stdD:
  assumes "std t"
  shows "t 0 \<noteq> None" "t (Suc 0) \<noteq> None" "t 2 \<noteq> None" "3 \<le> d \<Longrightarrow> t d = None" "d < 3 \<Longrightarrow> t d \<noteq> None"
proof -
  have "t e \<noteq> None \<longleftrightarrow> e < 3" for e
    using assms by (simp only: std_def)
  note a = this [of 0] this [of 1] this [of 2] this [of d]
  show "t 0 \<noteq> None" "t (Suc 0) \<noteq> None" "t 2 \<noteq> None" "3 \<le> d \<Longrightarrow> t d = None" "d < 3 \<Longrightarrow> t d \<noteq> None"
    using a by simp_all
qed

lemma std_upd: "std t \<Longrightarrow> d < 3 \<Longrightarrow> std (t(d \<mapsto> x))"
  by (auto simp: std_def)

lemma std_alloc:
  assumes "std t"
  shows "fdalloc_u (t(0 := None)) = Some 0" "fdalloc_u (t(Suc 0 := None)) = Some 1" "fdalloc_u t = Some 3"
    "fdalloc_u (t(3 \<mapsto> x)) = Some 4" "fdalloc_u (t(3 \<mapsto> x, 4 \<mapsto> y, 0 := None)) = Some 0" "fdalloc_u (t(3 \<mapsto> x, 4 \<mapsto> y, Suc 0 := None)) = Some 1"
  by (rule fdalloc_uI; use stdD [OF assms] in \<open>auto simp: less_Suc_eq numeral_eq_Suc\<close>)+

lemma std_pipe:
  assumes "std t"
  shows "sys_pipe_u n t = ([0, 3, 4], t(3 \<mapsto> PipeR n, 4 \<mapsto> PipeW n))"
  using std_alloc [OF assms] by (simp add: sys_pipe_u_def)

lemma std_redirect:
  assumes "std t" and "fd \<in> {0, 1}"
  shows "sys_close_u fd t = ([0], t(nat fd := None))"
    "sys_open_u K f m (t(nat fd := None)) = (if k_file K f m then ([fd], t(nat fd \<mapsto> Opened f m)) else ([- 1], t(nat fd := None)))"
  using assms stdD [OF assms(1)] std_alloc [OF assms(1)]
  by (auto simp: sys_close_u_def sys_open_u_def fd_obj_def)

lemma fds_back: "std t \<Longrightarrow> d < 3 \<Longrightarrow> t(3 \<mapsto> x, 4 \<mapsto> y, d \<mapsto> z, 3 := None, 4 := None) = t(d \<mapsto> z)"
  using stdD(4) [of t 3] stdD(4) [of t 4] by (auto simp: fun_eq_iff)

lemma std_pipe_end:
  assumes "std t" and "(d, e, x) \<in> {(0, 3, PipeR n), (1, 4, PipeW n)}"
  defines "t' \<equiv> t(3 \<mapsto> PipeR n, 4 \<mapsto> PipeW n)"
  shows "sys_close_u (int d) t' = ([0], t'(d := None))" "sys_dup_u e (t'(d := None)) = ([int d], t'(d \<mapsto> x))"
    "sys_close_u 3 (t'(d \<mapsto> x)) = ([0], t'(d \<mapsto> x, 3 := None))"
    "sys_close_u 4 (t'(d \<mapsto> x, 3 := None)) = ([0], t(d \<mapsto> x))"
  using assms(2) stdD [OF assms(1)] std_alloc [OF assms(1)] fds_back [OF assms(1)]
  by (auto simp: sys_close_u_def sys_dup_u_def fd_obj_def t'_def)

text \<open>Closing the two descriptors of a new pipe.\<close>

lemma std_pipe_close:
  assumes "std t"
  shows "sys_close_u 3 (t(3 \<mapsto> x, 4 \<mapsto> y)) = ([0], t(4 \<mapsto> y))" "sys_close_u 4 (t(4 \<mapsto> y)) = ([0], t)"
  using stdD(4) [OF assms, of 3] stdD(4) [OF assms, of 4] by (auto simp: sys_close_u_def fd_obj_def fun_eq_iff)

lemma run_SPipe:
  "std (fds p) \<Longrightarrow>
    run (Call SPipe k) K p = run (k [0, 3, 4]) K (p\<lparr>at := 2 # at p, fds := (fds p)(3 \<mapsto> PipeR (at p), 4 \<mapsto> PipeW (at p))\<rparr>)"
  by (simp add: std_pipe)

lemma run_SFork:
  "(\<And>n. k_fork K n) \<Longrightarrow>
    run (Call SFork k) K p = run (k [0]) K (p\<lparr>at := 0 # at p, kids := 0\<rparr>) @ run (k [1]) K (p\<lparr>at := 1 # at p, kids := Suc (kids p)\<rparr>)"
  by simp

section \<open>An example\<close>

definition demo_kern :: kern where
  "demo_kern = \<lparr>k_prog = (\<lambda>f. f \<noteq> bytes ''none''), k_file = (\<lambda>f m. True), k_fork = (\<lambda>n. True)\<rparr>"

definition demo_fds :: fdtab where
  "demo_fds = (\<lambda>d. if d < 3 then Some (Inherited d) else None)"

definition demo_uproc :: uproc where
  "demo_uproc = \<lparr>at = [], fds = demo_fds, input = [], kids = 0\<rparr>"

lemma demo_uproc_sel [simp]:
  "fds demo_uproc = demo_fds" "at demo_uproc = []" "kids demo_uproc = 0" "k_fork demo_kern n" "std demo_fds" "k_file demo_kern f m"
  "k_prog demo_kern f \<longleftrightarrow> f \<noteq> bytes ''none''" "demo_fds 0 = Some (Inherited 0)" "demo_fds (Suc 0) = Some (Inherited 1)"
  by (simp_all add: std_def demo_uproc_def demo_fds_def demo_kern_def)

end
