(* ===== verification/Sh.thy ===== *)
theory Sh
  imports Uprog
begin

text \<open>
  The shell (\<open>src/sh.c\<close>): the recursive-descent parser and the execution of the parsed command. A pointer into the line is the rest of the
  line from there on; a pair of pointers around a word is the word, which is what \<open>nulterminate\<close> makes of it. Execution is a tree of
  system calls that branches on their results, so that \<open>fork\<close> continues in the child and in the parent.
\<close>

section \<open>Commands\<close>

datatype cmd =
  Exec "u8 list list" | Redir cmd "u8 list" u32 int | Pipe cmd cmd | List cmd cmd | Back cmd

text \<open>\<open>Syntax\<close> carries what the shell has written to descriptor 2 when it exits.\<close>

datatype 'a presult = Parsed 'a "u8 list" | Syntax "u8 list" | OutOfFuel

definition panic_text :: "string \<Rightarrow> u8 list" where
  "panic_text s = bytes s @ [10]"

definition MAXARGS :: nat where [simp]: "MAXARGS = 10"
definition O_RDONLY_sh :: u32 where [simp]: "O_RDONLY_sh = 0"
definition O_CREAT_WR :: u32 where [simp]: "O_CREAT_WR = 0x201"

section \<open>Tokens\<close>

definition whitespace :: "u8 list" where
  "whitespace = [32, 9, 13, 10, 11]"

definition symbols :: "u8 list" where
  "symbols = bytes ''<|>&;()''"

definition skip_ws :: "u8 list \<Rightarrow> u8 list" where
  "skip_ws s = dropWhile (\<lambda>c. strchr whitespace c \<noteq> None) s"

definition word_char :: "u8 \<Rightarrow> bool" where
  "word_char c \<longleftrightarrow> strchr whitespace c = None \<and> strchr symbols c = None"

text \<open>The kind of the token, its text, and the rest of the line; kind 0 is the end of the line, 97 a word and 43 the token \<open>>>\<close>.\<close>

definition gettoken :: "u8 list \<Rightarrow> u8 \<times> u8 list \<times> u8 list" where
  "gettoken ps =
     (let s = skip_ws ps
      in case s of
           [] \<Rightarrow> (0, [], s)
         | c # r \<Rightarrow>
           if c = 0 then (0, [], s)
           else if c \<in> set (bytes ''|();&<'') then (c, [c], skip_ws r)
           else if c = byte (CHR ''>'') then
             (if cidx r 0 = byte (CHR ''>'') then (43, take 2 s, skip_ws (drop 1 r)) else (c, [c], skip_ws r))
           else (97, takeWhile word_char s, skip_ws (dropWhile word_char s)))"

definition peek :: "u8 list \<Rightarrow> u8 list \<Rightarrow> bool \<times> u8 list" where
  "peek ps toks = (let s = skip_ws ps in (cidx s 0 \<noteq> 0 \<and> strchr toks (cidx s 0) \<noteq> None, s))"

lemma length_skip_ws: "length (skip_ws s) \<le> length s"
  unfolding skip_ws_def by (rule length_dropWhile_le)

lemma strchr_iff: "0 \<notin> set s \<Longrightarrow> strchr s c = None \<longleftrightarrow> c \<notin> set s"
  by (induction s) auto

lemma token_classes:
  "strchr whitespace c = None \<longleftrightarrow> c \<notin> {32, 9, 13, 10, 11}" "set (bytes ''|();&<'') = {124, 40, 41, 59, 38, 60}"
  "strchr symbols c = None \<longleftrightarrow> c \<notin> {124, 40, 41, 59, 38, 60, 62}" "byte (CHR ''>'') = 62"
proof -
  have "0 \<notin> set whitespace" "0 \<notin> set symbols"
    by (simp_all add: whitespace_def symbols_def bytes_def byte_def)
  then show "strchr whitespace c = None \<longleftrightarrow> c \<notin> {32, 9, 13, 10, 11}" "strchr symbols c = None \<longleftrightarrow> c \<notin> {124, 40, 41, 59, 38, 60, 62}"
    by (auto simp: strchr_iff whitespace_def symbols_def bytes_def byte_def)
  show "set (bytes ''|();&<'') = {124, 40, 41, 59, 38, 60}" "byte (CHR ''>'') = 62"
    by (auto simp: bytes_def byte_def)
qed

lemma skip_ws_hd: "skip_ws s = c # r \<Longrightarrow> c \<notin> {32, 9, 13, 10, 11}"
  unfolding skip_ws_def using hd_dropWhile [of "\<lambda>c. strchr whitespace c \<noteq> None" s] by (simp add: token_classes)

text \<open>Every token but the end of the line is at least one character long.\<close>

lemma gettoken_less:
  assumes "gettoken ps = (k, t, r)" and "k \<noteq> 0"
  shows "length r < length ps"
proof (cases "skip_ws ps")
  case Nil
  then show ?thesis
    using assms by (simp add: gettoken_def)
next
  case (Cons c s)
  have l: "length (c # s) \<le> length ps"
    using length_skip_ws [of ps] Cons by simp
  have w: "length (skip_ws (dropWhile word_char (c # s))) \<le> length s" if "c \<notin> {124, 40, 41, 59, 38, 60, 62}"
    using that skip_ws_hd [OF Cons] length_skip_ws [of "dropWhile word_char s"] length_dropWhile_le [of word_char s]
    by (simp add: word_char_def token_classes)
  show ?thesis
    using assms Cons l w length_skip_ws [of s] length_skip_ws [of "drop 1 s"] unfolding gettoken_def Let_def token_classes
    by (auto split: if_splits)
qed

lemma peek_length: "peek ps toks = (b, s) \<Longrightarrow> length s \<le> length ps"
  using length_skip_ws [of ps] by (auto simp: peek_def Let_def)

lemma gettoken_le: "gettoken ps = (k, t, r) \<Longrightarrow> length r \<le> length ps"
proof (cases "k = 0")
  case True
  moreover assume "gettoken ps = (k, t, r)"
  ultimately show ?thesis
    by (auto simp: gettoken_def Let_def token_classes length_skip_ws split: list.splits if_splits)
next
  case False
  moreover assume "gettoken ps = (k, t, r)"
  ultimately show ?thesis
    using gettoken_less less_imp_le by blast
qed

section \<open>The parser\<close>

fun pbind :: "'a presult \<Rightarrow> ('a \<Rightarrow> u8 list \<Rightarrow> 'b presult) \<Rightarrow> 'b presult" where
  "pbind (Parsed x s) f = f x s"
| "pbind (Syntax m) f = Syntax m"
| "pbind OutOfFuel f = OutOfFuel"

text \<open>
  \<open>parseredirs\<close> wraps the command in redirections; the command itself may still be growing, so that the redirections are collected, innermost
  first: file, mode and descriptor. The tokens \<open>>\<close> and \<open>>>\<close> are treated alike.
\<close>

type_synonym redirs = "(u8 list \<times> u32 \<times> int) list"

function parseredirs :: "redirs \<Rightarrow> u8 list \<Rightarrow> redirs presult" where
  "parseredirs rs ps =
     (let (b, s) = peek ps (bytes ''<>'')
      in if \<not> b then Parsed rs s
         else
           (let (tok, _, s1) = gettoken s; (k, q, s2) = gettoken s1
            in if k \<noteq> 97 then Syntax (panic_text ''missing file for redirection'')
               else parseredirs (rs @ [if tok = byte (CHR ''<'') then (q, O_RDONLY_sh, 0) else (q, O_CREAT_WR, 1)]) s2))"
  by pat_completeness auto

termination parseredirs
proof (relation "measure (\<lambda>(rs, ps). length ps)")
  fix rs ps x b s y tok z t s1 w k v q s2
  assume "x = peek ps (bytes ''<>'')" "(b, s) = x" "y = gettoken s" "(tok, z) = y" "(t, s1) = z"
    "w = gettoken s1" "(k, v) = w" "(q, s2) = v" "\<not> k \<noteq> (97 :: u8)"
  then have "peek ps (bytes ''<>'') = (b, s)" "gettoken s = (tok, t, s1)" "gettoken s1 = (k, q, s2)" "k \<noteq> 0"
    by auto
  then have "length s2 < length ps"
    using peek_length [of ps "bytes ''<>''" b s] gettoken_le [of s tok t s1] gettoken_less [of s1 k q s2] by linarith
  then show "((rs @ [if tok = byte (CHR ''<'') then (q, O_RDONLY_sh, 0) else (q, O_CREAT_WR, 1)], s2), (rs, ps))
      \<in> measure (\<lambda>(rs, ps). length ps)"
    by simp
qed simp

declare parseredirs.simps [simp del]

lemma parseredirs_result: "parseredirs rs ps \<noteq> OutOfFuel \<and> (parseredirs rs ps = Parsed rs' r \<longrightarrow> length r \<le> length ps)"
proof (induction rs ps rule: parseredirs.induct)
  case (1 rs ps)
  obtain b s tok t s1 k q s2 where e: "peek ps (bytes ''<>'') = (b, s)" "gettoken s = (tok, t, s1)" "gettoken s1 = (k, q, s2)"
    by (metis surj_pair)
  have l: "length s \<le> length ps" "length s2 \<le> length s"
    using peek_length [OF e(1)] gettoken_le [OF e(2)] gettoken_le [OF e(3)] by simp_all
  show ?case
  proof (cases "b \<and> k = 97")
    case True
    then show ?thesis
      using 1 [OF e(1) [symmetric] refl _ e(2) [symmetric] refl refl e(3) [symmetric] refl refl] e l
      by (auto simp: parseredirs.simps [of rs ps])
  next
    case False
    then show ?thesis
      using e l by (auto simp: parseredirs.simps [of rs ps] split: if_splits)
  qed
qed

lemma parseredirs_length: "parseredirs rs ps = Parsed rs' r \<Longrightarrow> length r \<le> length ps"
  using parseredirs_result by blast

text \<open>The loop of \<open>parseexec\<close> over the words of the command.\<close>

function parseargs :: "u8 list list \<Rightarrow> redirs \<Rightarrow> u8 list \<Rightarrow> (u8 list list \<times> redirs) presult" where
  "parseargs as rs ps =
     (let (b, s) = peek ps (bytes ''|)&;'')
      in if b then Parsed (as, rs) s
         else
           (let (tok, q, s1) = gettoken s
            in if tok = 0 then Parsed (as, rs) s1
               else if tok \<noteq> 97 then Syntax (panic_text ''syntax'')
               else if length (as @ [q]) \<ge> MAXARGS then Syntax (panic_text ''too many args'')
               else (case parseredirs rs s1 of
                       Parsed rs' s2 \<Rightarrow> parseargs (as @ [q]) rs' s2
                     | Syntax m \<Rightarrow> Syntax m
                     | OutOfFuel \<Rightarrow> OutOfFuel)))"
  by pat_completeness auto
termination
proof (relation "measure (\<lambda>(as, rs, ps). length ps)")
  fix as rs ps x b s y tok z q s1 rs' s2
  assume "x = peek ps (bytes ''|)&;'')" "(b, s) = x" "y = gettoken s" "(tok, z) = y" "(q, s1) = z" "\<not> tok = (0 :: u8)"
    and r: "parseredirs rs s1 = Parsed rs' s2"
  then have "peek ps (bytes ''|)&;'') = (b, s)" "gettoken s = (tok, q, s1)" "tok \<noteq> 0"
    by auto
  then have "length s2 < length ps"
    using peek_length [of ps "bytes ''|)&;''" b s] gettoken_less [of s tok q s1] parseredirs_length [OF r] by linarith
  then show "((as @ [q], rs', s2), (as, rs, ps)) \<in> measure (\<lambda>(as, rs, ps). length ps)"
    by simp
qed simp

declare parseargs.simps [simp del]

definition redirect :: "cmd \<Rightarrow> redirs \<Rightarrow> cmd" where
  "redirect c rs = foldl (\<lambda>c (f, m, fd). Redir c f m fd) c rs"

lemma peek_gettoken:
  assumes "peek ps toks = (True, s)" and "gettoken s = (k, t, r)"
  shows "length r < length ps"
proof -
  obtain c u where s: "s = skip_ws ps" "s = c # u" "c \<noteq> 0"
    using assms(1) by (cases s) (auto simp: peek_def Let_def)
  have "skip_ws s = s"
    using skip_ws_hd [of ps c u] s by (simp add: skip_ws_def token_classes)
  then have "k \<noteq> 0"
    using assms(2) s(2,3) by (auto simp: gettoken_def Let_def token_classes split: if_splits)
  then show ?thesis
    using gettoken_less [OF assms(2)] peek_length [OF assms(1)] by linarith
qed

function parseback :: "cmd \<Rightarrow> u8 list \<Rightarrow> cmd \<times> u8 list" where
  "parseback c ps =
     (let (b, s) = peek ps (bytes ''&'')
      in if \<not> b then (c, s) else (let (_, _, s1) = gettoken s in parseback (Back c) s1))"
  by pat_completeness auto

termination
proof (relation "measure (\<lambda>(c, ps). length ps)")
  fix c ps x b s y k z t s1
  assume "x = peek ps (bytes ''&'')" "(b, s) = x" "\<not> \<not> b" "y = gettoken s" "(k, z) = y" "(t, s1) = z"
  then have "peek ps (bytes ''&'') = (True, s)" "gettoken s = (k, t, s1)"
    by auto
  then show "((Back c, s1), (c, ps)) \<in> measure (\<lambda>(c, ps). length ps)"
    using peek_gettoken by simp
qed simp

declare parseback.simps [simp del]

text \<open>
  The four parsers that call each other; each call takes one unit of fuel. \<open>parse_fuel\<close> is proved to be enough.
\<close>

fun parseline :: "nat \<Rightarrow> u8 list \<Rightarrow> cmd presult"
  and parsepipe :: "nat \<Rightarrow> u8 list \<Rightarrow> cmd presult"
  and parseblock :: "nat \<Rightarrow> u8 list \<Rightarrow> cmd presult"
  and parseexec :: "nat \<Rightarrow> u8 list \<Rightarrow> cmd presult" where
  "parseline 0 ps = OutOfFuel"
| "parseline (Suc k) ps =
     pbind (parsepipe k ps) (\<lambda>c s.
     let (c1, s1) = parseback c s; (b, s2) = peek s1 (bytes '';'')
     in if b then (let (_, _, s3) = gettoken s2 in pbind (parseline k s3) (\<lambda>d s4. Parsed (List c1 d) s4))
        else Parsed c1 s2)"
| "parsepipe 0 ps = OutOfFuel"
| "parsepipe (Suc k) ps =
     pbind (parseexec k ps) (\<lambda>c s.
     let (b, s1) = peek s (bytes ''|'')
     in if b then (let (_, _, s2) = gettoken s1 in pbind (parsepipe k s2) (\<lambda>d s3. Parsed (Pipe c d) s3))
        else Parsed c s1)"
| "parseblock 0 ps = OutOfFuel"
| "parseblock (Suc k) ps =
     (let (b, s) = peek ps (bytes ''('')
      in if \<not> b then Syntax (panic_text ''parseblock'')
         else (let (_, _, s1) = gettoken s
               in pbind (parseline k s1) (\<lambda>c s2.
                  let (b2, s3) = peek s2 (bytes '')'')
                  in if \<not> b2 then Syntax (panic_text ''syntax - missing )'')
                     else (let (_, _, s4) = gettoken s3
                           in pbind (parseredirs [] s4) (\<lambda>rs s5. Parsed (redirect c rs) s5)))))"
| "parseexec 0 ps = OutOfFuel"
| "parseexec (Suc k) ps =
     (let (b, s) = peek ps (bytes ''('')
      in if b then parseblock k s
         else
           pbind (parseredirs [] s) (\<lambda>rs s1.
           pbind (parseargs [] rs s1) (\<lambda>(as, rs') s2.
           Parsed (redirect (Exec as) rs') s2)))"

definition parse_fuel :: "u8 list \<Rightarrow> nat" where
  "parse_fuel s = 4 * length s + 4"

text \<open>What is left after the command is reported and is a syntax error, too.\<close>

definition parsecmd :: "u8 list \<Rightarrow> cmd presult" where
  "parsecmd str =
     (let s = take (strlen str) str
      in pbind (parseline (parse_fuel s) s) (\<lambda>c r.
         let (_, r1) = peek r []
         in if r1 \<noteq> [] then Syntax (bytes ''leftovers: '' @ r1 @ [10] @ panic_text ''syntax'') else Parsed c r1))"

section \<open>Execution\<close>

definition panic_sh :: "string \<Rightarrow> prog" where
  "panic_sh s = Call (SPrint 2 (panic_text s)) (\<lambda>_. Exit)"

definition fork1 :: "(int \<Rightarrow> prog) \<Rightarrow> prog" where
  "fork1 k = Call SFork (\<lambda>r. if res r = - 1 then panic_sh ''fork'' else k (res r))"

text \<open>\<open>runcmd\<close> does not return, so that nothing follows a call of it.\<close>

primrec runcmd :: "cmd \<Rightarrow> prog" where
  "runcmd (Exec as) =
     (case as of
        [] \<Rightarrow> Exit
      | a # _ \<Rightarrow> Call (SExec a as) (\<lambda>_. Call (SPrint 2 (bytes ''exec '' @ a @ bytes '' failed'' @ [10])) (\<lambda>_. Exit)))"
| "runcmd (Redir c f m fd) =
     Call (SClose fd) (\<lambda>_.
     Call (SOpen f m) (\<lambda>r.
     if res r < 0 then Call (SPrint 2 (bytes ''open '' @ f @ bytes '' failed'' @ [10])) (\<lambda>_. Exit)
     else runcmd c))"
| "runcmd (List l r) = fork1 (\<lambda>pid. if pid = 0 then runcmd l else Call SWait (\<lambda>_. runcmd r))"
| "runcmd (Pipe l r) =
     Call SPipe (\<lambda>p.
     if res p < 0 then panic_sh ''pipe''
     else
     fork1 (\<lambda>pid.
     if pid = 0 then
       Call (SClose 1) (\<lambda>_. Call (SDup (ret_n 2 p)) (\<lambda>_. Call (SClose (ret_n 1 p)) (\<lambda>_. Call (SClose (ret_n 2 p)) (\<lambda>_.
       runcmd l))))
     else
     fork1 (\<lambda>pid.
     if pid = 0 then
       Call (SClose 0) (\<lambda>_. Call (SDup (ret_n 1 p)) (\<lambda>_. Call (SClose (ret_n 1 p)) (\<lambda>_. Call (SClose (ret_n 2 p)) (\<lambda>_.
       runcmd r))))
     else
     Call (SClose (ret_n 1 p)) (\<lambda>_. Call (SClose (ret_n 2 p)) (\<lambda>_. Call SWait (\<lambda>_. Call SWait (\<lambda>_. Exit)))))))"
| "runcmd (Back c) = fork1 (\<lambda>pid. if pid = 0 then runcmd c else Exit)"

text \<open>\<open>gets\<close> reads at most \<open>n\<close> bytes, one at a time; \<open>k\<close> is the rest of the program.\<close>

fun gets_t :: "nat \<Rightarrow> u8 list \<Rightarrow> (u8 list \<Rightarrow> prog) \<Rightarrow> prog" where
  "gets_t 0 buf k = k buf"
| "gets_t (Suc n) buf k =
     Call (SRead 0 1) (\<lambda>r.
     if res r < 1 then k buf
     else let c = word_of_int (ret_n 1 r)
          in if c = 10 \<or> c = 13 then k (buf @ [c]) else gets_t n (buf @ [c]) k)"

definition getcmd :: "nat \<Rightarrow> (u8 list \<Rightarrow> prog) \<Rightarrow> prog" where
  "getcmd nbuf k = Call (SPrint 2 (bytes ''$ '')) (\<lambda>_. gets_t (nbuf - 1) [] k)"

text \<open>The two loops of \<open>main\<close>, up to \<open>n\<close> rounds.\<close>

fun sh_descriptors :: "nat \<Rightarrow> prog \<Rightarrow> prog" where
  "sh_descriptors 0 k = Cut"
| "sh_descriptors (Suc n) k =
     Call (SOpen (bytes ''console'') 2) (\<lambda>r.
     if res r < 0 then k
     else if res r \<ge> 3 then Call (SClose (res r)) (\<lambda>_. k)
     else sh_descriptors n k)"

fun sh_loop :: "nat \<Rightarrow> prog" where
  "sh_loop 0 = Cut"
| "sh_loop (Suc n) =
     getcmd 100 (\<lambda>buf.
     if cidx buf 0 = 0 then Exit
     else if cidx buf 0 = byte (CHR ''c'') \<and> cidx buf 1 = byte (CHR ''d'') \<and> cidx buf 2 = 32 then
       (let d = drop 3 (take (strlen buf - 1) buf)
        in Call (SChdir d) (\<lambda>r.
           if res r < 0 then Call (SPrint 2 (bytes ''cannot cd '' @ d @ [10])) (\<lambda>_. sh_loop n) else sh_loop n))
     else
       fork1 (\<lambda>pid.
       if pid = 0 then
         (case parsecmd buf of
            Parsed c _ \<Rightarrow> runcmd c
          | Syntax m \<Rightarrow> Call (SPrint 2 m) (\<lambda>_. Exit)
          | OutOfFuel \<Rightarrow> Cut)
       else Call SWait (\<lambda>_. sh_loop n)))"

definition sh_main :: "nat \<Rightarrow> prog" where
  "sh_main n = sh_descriptors n (sh_loop n)"

section \<open>The parser always answers\<close>

text \<open>The parser does not run out of fuel, and leaves no more than \<open>n\<close> characters.\<close>

definition answers :: "'a presult \<Rightarrow> nat \<Rightarrow> bool" where
  "answers r n \<longleftrightarrow> (case r of Parsed x s \<Rightarrow> length s \<le> n | Syntax m \<Rightarrow> True | OutOfFuel \<Rightarrow> False)"

lemma answers_simps [simp]:
  "answers (Parsed x s) n \<longleftrightarrow> length s \<le> n" "answers (Syntax m) n" "\<not> answers OutOfFuel n"
  by (simp_all add: answers_def)

lemma answers_pbind:
  "answers r n \<Longrightarrow> (\<And>x s. r = Parsed x s \<Longrightarrow> length s \<le> n \<Longrightarrow> answers (f x s) m) \<Longrightarrow> answers (pbind r f) m"
  by (cases r) simp_all

lemma answers_mono: "answers r n \<Longrightarrow> n \<le> m \<Longrightarrow> answers r m"
  by (cases r) simp_all

lemma answers_parseredirs: "answers (parseredirs rs ps) (length ps)"
  using parseredirs_result [of rs ps] by (cases "parseredirs rs ps") simp_all

lemma answers_parseargs: "answers (parseargs as rs ps) (length ps)"
proof (induction as rs ps rule: parseargs.induct)
  case (1 as rs ps)
  obtain b s tok q s1 where e: "peek ps (bytes ''|)&;'') = (b, s)" "gettoken s = (tok, q, s1)"
    by (metis surj_pair)
  have eq: "parseargs as rs ps = (if b then Parsed (as, rs) s else if tok = 0 then Parsed (as, rs) s1
    else if tok \<noteq> 97 then Syntax (panic_text ''syntax'') else if length (as @ [q]) \<ge> MAXARGS then Syntax (panic_text ''too many args'')
    else (case parseredirs rs s1 of Parsed rs' s2 \<Rightarrow> parseargs (as @ [q]) rs' s2 | Syntax m \<Rightarrow> Syntax m | OutOfFuel \<Rightarrow> OutOfFuel))"
    unfolding parseargs.simps [of as rs ps] e Let_def prod.case ..
  have l: "length s \<le> length ps" "length s1 \<le> length ps"
    using peek_length [OF e(1)] gettoken_le [OF e(2)] by simp_all
  have IH: "answers (parseargs (as @ [q]) rs' s2) (length ps)"
    if "\<not> b" "tok \<noteq> 0" "\<not> tok \<noteq> 97" "\<not> length (as @ [q]) \<ge> MAXARGS" "parseredirs rs s1 = Parsed rs' s2" for rs' s2
    using 1 [OF e(1) [symmetric] refl that(1) e(2) [symmetric] refl refl that(2-5)] parseredirs_length [OF that(5)] l(2)
    by (rule answers_mono [OF _ order_trans])
  show ?case
    unfolding eq using l IH answers_parseredirs [of rs s1] by (cases "parseredirs rs s1") simp_all
qed

lemma parseback_length: "parseback c ps = (d, r) \<Longrightarrow> length r \<le> length ps"
proof (induction c ps rule: parseback.induct)
  case (1 c ps)
  obtain b s k t s1 where e: "peek ps (bytes ''&'') = (b, s)" "gettoken s = (k, t, s1)"
    by (metis surj_pair)
  have l: "length s \<le> length ps" "length s1 \<le> length s"
    using peek_length [OF e(1)] gettoken_le [OF e(2)] by simp_all
  then show ?case
    using 1(1) [OF e(1) [symmetric] refl _ e(2) [symmetric] refl refl] 1(2) e
    by (cases b) (auto simp: parseback.simps [of c ps])
qed

text \<open>One step of each parser, given that the calls it makes answer.\<close>

lemma line_step:
  assumes "answers (parsepipe k s) (length s)" and IH: "\<And>t. length t < length s \<Longrightarrow> answers (parseline k t) (length t)"
  shows "answers (parseline (Suc k) s) (length s)"
proof (cases "parsepipe k s")
  case (Parsed c s1)
  obtain c1 s2 b s3 tok t s4 where e: "parseback c s1 = (c1, s2)" "peek s2 (bytes '';'') = (b, s3)" "gettoken s3 = (tok, t, s4)"
    by (metis surj_pair)
  have l: "length s1 \<le> length s" "length s2 \<le> length s1" "length s3 \<le> length s2"
    using assms(1) Parsed parseback_length [OF e(1)] peek_length [OF e(2)] by simp_all
  show ?thesis
  proof (cases b)
    case True
    then have "length s4 < length s"
      using peek_gettoken [of s2 "bytes '';''" s3 tok t s4] e l by simp
    then have "answers (pbind (parseline k s4) (\<lambda>d s4. Parsed (List c1 d) s4)) (length s)"
      using IH [of s4] by (intro answers_pbind [of _ "length s4"]) simp_all
    then show ?thesis
      using Parsed e True by simp
  next
    case False
    then show ?thesis
      using Parsed e l by simp
  qed
qed (use assms(1) in simp_all)

lemma pipe_step:
  assumes "answers (parseexec k s) (length s)" and IH: "\<And>t. length t < length s \<Longrightarrow> answers (parsepipe k t) (length t)"
  shows "answers (parsepipe (Suc k) s) (length s)"
proof (cases "parseexec k s")
  case (Parsed c s1)
  obtain b s2 tok t s3 where e: "peek s1 (bytes ''|'') = (b, s2)" "gettoken s2 = (tok, t, s3)"
    by (metis surj_pair)
  have l: "length s1 \<le> length s" "length s2 \<le> length s1"
    using assms(1) Parsed peek_length [OF e(1)] by simp_all
  show ?thesis
  proof (cases b)
    case True
    then have "length s3 < length s"
      using peek_gettoken [of s1 "bytes ''|''" s2 tok t s3] e l by simp
    then have "answers (pbind (parsepipe k s3) (\<lambda>d s4. Parsed (Pipe c d) s4)) (length s)"
      using IH [of s3] by (intro answers_pbind [of _ "length s3"]) simp_all
    then show ?thesis
      using Parsed e True by simp
  next
    case False
    then show ?thesis
      using Parsed e l by simp
  qed
qed (use assms(1) in simp_all)

lemma block_rest:
  assumes "length s3 \<le> n"
  shows "answers (case peek s3 (bytes '')'') of (b, s4) \<Rightarrow> if \<not> b then Syntax (panic_text ''syntax - missing )'')
    else case gettoken s4 of (_, _, s5) \<Rightarrow> pbind (parseredirs [] s5) (\<lambda>rs s6. Parsed (redirect c rs) s6)) n"
proof -
  obtain b s4 tok t s5 where e: "peek s3 (bytes '')'') = (b, s4)" "gettoken s4 = (tok, t, s5)"
    by (metis surj_pair)
  have "length s5 \<le> n"
    using peek_length [OF e(1)] gettoken_le [OF e(2)] assms by simp
  then have "answers (pbind (parseredirs [] s5) (\<lambda>rs s6. Parsed (redirect c rs) s6)) n"
    using answers_parseredirs [of "[]" s5] by (intro answers_pbind [of _ "length s5"]) simp_all
  then show ?thesis
    by (simp add: e)
qed

lemma block_step:
  assumes IH: "\<And>t. length t < length s \<Longrightarrow> answers (parseline k t) (length t)"
  shows "answers (parseblock (Suc k) s) (length s)"
proof -
  obtain b s1 tok t s2 where e: "peek s (bytes ''('') = (b, s1)" "gettoken s1 = (tok, t, s2)"
    by (metis surj_pair)
  show ?thesis
  proof (cases b)
    case True
    then have l: "length s2 < length s"
      using peek_gettoken [of s "bytes ''(''" s1 tok t s2] e by simp
    have "answers (pbind (parseline k s2) (\<lambda>c s3. case peek s3 (bytes '')'') of (b, s4) \<Rightarrow> if \<not> b then Syntax (panic_text ''syntax - missing )'')
      else case gettoken s4 of (_, _, s5) \<Rightarrow> pbind (parseredirs [] s5) (\<lambda>rs s6. Parsed (redirect c rs) s6))) (length s)"
      using l by (intro answers_pbind [OF IH [OF l]] block_rest) simp
    then show ?thesis
      unfolding parseblock.simps Let_def e prod.case by (simp only: True not_True_eq_False if_False)
  next
    case False
    then show ?thesis
      unfolding parseblock.simps Let_def e prod.case by simp
  qed
qed

lemma exec_step:
  assumes IH: "\<And>t. length t \<le> length s \<Longrightarrow> answers (parseblock k t) (length t)"
  shows "answers (parseexec (Suc k) s) (length s)"
proof -
  obtain b s1 where e: "peek s (bytes ''('') = (b, s1)"
    by (metis surj_pair)
  have l: "length s1 \<le> length s"
    by (rule peek_length [OF e])
  have "answers (pbind (parseredirs [] s1) (\<lambda>rs s2. pbind (parseargs [] rs s2) (\<lambda>(as, rs') s3. Parsed (redirect (Exec as) rs') s3))) (length s)"
  proof (rule answers_pbind [OF answers_parseredirs])
    fix rs and s2 :: "u8 list"
    assume "length s2 \<le> length s1"
    then show "answers (pbind (parseargs [] rs s2) (\<lambda>(as, rs') s3. Parsed (redirect (Exec as) rs') s3)) (length s)"
      using answers_parseargs [of "[]" rs s2] l by (intro answers_pbind [of _ "length s2"]) auto
  qed
  moreover have "answers (parseblock k s1) (length s)"
    using IH [OF l] l by (rule answers_mono)
  ultimately show ?thesis
    using e by simp
qed

lemma parse_answers:
  "(4 * length s + 4 \<le> k \<longrightarrow> answers (parseline k s) (length s)) \<and> (4 * length s + 3 \<le> k \<longrightarrow> answers (parsepipe k s) (length s)) \<and>
   (4 * length s + 1 \<le> k \<longrightarrow> answers (parseblock k s) (length s)) \<and> (4 * length s + 2 \<le> k \<longrightarrow> answers (parseexec k s) (length s))"
proof (induction k arbitrary: s)
  case (Suc k)
  have IH: "4 * length t + 4 \<le> k \<Longrightarrow> answers (parseline k t) (length t)" "4 * length t + 3 \<le> k \<Longrightarrow> answers (parsepipe k t) (length t)"
    "4 * length t + 1 \<le> k \<Longrightarrow> answers (parseblock k t) (length t)" "4 * length t + 2 \<le> k \<Longrightarrow> answers (parseexec k t) (length t)" for t
    using Suc [of t] by blast+
  have line: "answers (parseline k t) (length t)" if "length t < length s" "4 * length s + 1 \<le> Suc k" for t
    by (rule IH(1)) (use that in linarith)
  have pipe: "answers (parsepipe k t) (length t)" if "length t < length s" "4 * length s + 1 \<le> Suc k" for t
    by (rule IH(2)) (use that in linarith)
  show ?case
  proof (intro conjI impI)
    show "answers (parseline (Suc k) s) (length s)" if n: "4 * length s + 4 \<le> Suc k"
      by (rule line_step) (rule IH(2), use n in linarith, rule line, assumption, use n in linarith)
    show "answers (parsepipe (Suc k) s) (length s)" if n: "4 * length s + 3 \<le> Suc k"
      by (rule pipe_step) (rule IH(4), use n in linarith, rule pipe, assumption, use n in linarith)
    show "answers (parseblock (Suc k) s) (length s)" if n: "4 * length s + 1 \<le> Suc k"
      by (rule block_step) (rule line, assumption, rule n)
    show "answers (parseexec (Suc k) s) (length s)" if n: "4 * length s + 2 \<le> Suc k"
      by (rule exec_step) (rule IH(3), use n in linarith)
  qed
qed auto

section \<open>What a command runs\<close>

text \<open>
  The programs of a command with their arguments and descriptors: a redirection replaces descriptor 0 or 1, the two sides of a pipe get its ends
  and keep no other descriptor of it. \<open>n\<close> is the position of the process in the tree.
\<close>

fun plan :: "kern \<Rightarrow> nat list \<Rightarrow> fdtab \<Rightarrow> cmd \<Rightarrow> event list" where
  "plan K n t (Exec []) = []"
| "plan K n t (Exec (a # as)) =
     (if k_prog K a then [Ran a (a # as) t] else [Wrote (t 2) (bytes ''exec '' @ a @ bytes '' failed'' @ [10])])"
| "plan K n t (Redir c f m fd) =
     (if k_file K f m then plan K n (t(nat fd \<mapsto> Opened f m)) c
      else [Wrote (t 2) (bytes ''open '' @ f @ bytes '' failed'' @ [10])])"
| "plan K n t (List l r) = plan K (0 # n) t l @ Waited # plan K (1 # n) t r"
| "plan K n t (Pipe l r) =
     plan K (0 # 2 # n) (t(1 \<mapsto> PipeW n)) l @ plan K (0 # 1 # 2 # n) (t(0 \<mapsto> PipeR n)) r @ [Waited, Waited]"
| "plan K n t (Back c) = plan K (0 # n) t c"

text \<open>The redirections of the shell's grammar are those of descriptors 0 and 1.\<close>

primrec redirs_ok :: "cmd \<Rightarrow> bool" where
  "redirs_ok (Exec as) = True"
| "redirs_ok (Redir c f m fd) = (fd \<in> {0, 1} \<and> redirs_ok c)"
| "redirs_ok (List l r) = (redirs_ok l \<and> redirs_ok r)"
| "redirs_ok (Pipe l r) = (redirs_ok l \<and> redirs_ok r)"
| "redirs_ok (Back c) = redirs_ok c"

lemma run_fork1:
  "(\<And>n. k_fork K n) \<Longrightarrow> run (fork1 k) K p = run (k 0) K (p\<lparr>at := 0 # at p, kids := 0\<rparr>) @ run (k 1) K (p\<lparr>at := 1 # at p, kids := Suc (kids p)\<rparr>)"
  by (simp add: fork1_def res_def)

lemma run_pipe_end:
  assumes "std t" and "(d, e, x) \<in> {(0, 3, PipeR n), (1, 4, PipeW n)}" and "fds p = t(3 \<mapsto> PipeR n, 4 \<mapsto> PipeW n)"
  shows "run (Call (SClose (int d)) (\<lambda>_. Call (SDup e) (\<lambda>_. Call (SClose 3) (\<lambda>_. Call (SClose 4) (\<lambda>_. k))))) K p =
    run k K (p\<lparr>fds := t(d \<mapsto> x)\<rparr>)"
  using std_pipe_end [OF assms(1,2)] assms(3) by (simp del: fun_upd_apply fun_upd_upd)

lemma run_plan:
  assumes "\<And>n. k_fork K n"
  shows "redirs_ok c \<Longrightarrow> std (fds p) \<Longrightarrow> run (runcmd c) K p = plan K (at p) (fds p) c"
proof (induction c arbitrary: p)
  case (Exec as)
  then show ?case
    by (cases as) (simp_all add: fd_obj_def)
next
  case (Redir c f m fd)
  have "std ((fds p)(nat fd \<mapsto> Opened f m))"
    using Redir(2,3) by (auto intro: std_upd)
  then show ?case
    using Redir std_redirect(1) [of "fds p" fd] std_redirect(2) [of "fds p" fd K f m] by (auto simp: res_def fd_obj_def)
next
  case (Pipe l r)
  let ?t = "(fds p)(3 \<mapsto> PipeR (at p), 4 \<mapsto> PipeW (at p))"
  have std: "std (fds p)" "std ((fds p)(Suc 0 \<mapsto> PipeW (at p)))" "std ((fds p)(0 \<mapsto> PipeR (at p)))"
    using Pipe(4) by (auto intro: std_upd)
  have end1: "run (Call (SClose 1) (\<lambda>_. Call (SDup 4) (\<lambda>_. Call (SClose 3) (\<lambda>_. Call (SClose 4) (\<lambda>_. k))))) K q = run k K (q\<lparr>fds := (fds p)(Suc 0 \<mapsto> PipeW (at p))\<rparr>)"
    if "fds q = ?t" for k q
    using run_pipe_end [OF std(1), of 1 4 _ "at p"] that by simp
  have end0: "run (Call (SClose 0) (\<lambda>_. Call (SDup 3) (\<lambda>_. Call (SClose 3) (\<lambda>_. Call (SClose 4) (\<lambda>_. k))))) K q = run k K (q\<lparr>fds := (fds p)(0 \<mapsto> PipeR (at p))\<rparr>)"
    if "fds q = ?t" for k q
    using run_pipe_end [OF std(1), of 0 3 _ "at p"] that by simp
  have p: "run (Call SPipe k) K p = run (k [0, 3, 4]) K (p\<lparr>at := 2 # at p, fds := ?t\<rparr>)" for k
    by (simp add: std_pipe [OF std(1)])
  have r: "res [0, 3, 4] = 0" "ret_n 1 [0, 3, 4] = 3" "ret_n 2 [0, 3, 4] = 4"
    by (simp_all add: res_def ret_n_def)
  have w: "run (Call (SClose 3) (\<lambda>_. Call (SClose 4) (\<lambda>_. Call SWait (\<lambda>_. Call SWait (\<lambda>_. Exit))))) K q = [Waited, Waited]"
    if "kids q = Suc (Suc k)" for k q
    using that by (simp split: prod.split)
  have IH: "run (runcmd l) K q = plan K (at q) (fds q) l" "run (runcmd r) K q = plan K (at q) (fds q) r" if "std (fds q)" for q
    using Pipe that by simp_all
  show ?case
    unfolding runcmd.simps p r by (simp del: run.simps(4) add: run_fork1 [OF assms] end0 [simplified] end1 [simplified] w IH std)
next
  case (List l r)
  then show ?case
    by (simp add: run_fork1 [OF assms])
next
  case (Back c)
  then show ?case
    by (simp add: run_fork1 [OF assms])
qed

section \<open>Printing and parsing\<close>

text \<open>A printer for commands that puts parts of a command in parentheses, and the commands that can be written at all.\<close>

primrec print_cmd :: "cmd \<Rightarrow> u8 list" where
  "print_cmd (Exec as) = concat (map (\<lambda>w. w @ [32]) as)"
| "print_cmd (Redir c f m fd) = 40 # print_cmd c @ 41 # (if fd = 0 then 60 else 62) # f"
| "print_cmd (Pipe l r) = 40 # print_cmd l @ 41 # 124 # 40 # print_cmd r @ [41]"
| "print_cmd (List l r) = 40 # print_cmd l @ 41 # 59 # 40 # print_cmd r @ [41]"
| "print_cmd (Back c) = 40 # print_cmd c @ [41, 38]"

definition wordy :: "u8 list \<Rightarrow> bool" where
  "wordy w \<longleftrightarrow> w \<noteq> [] \<and> (\<forall>c \<in> set w. c \<noteq> 0 \<and> word_char c)"

primrec wf_cmd :: "cmd \<Rightarrow> bool" where
  "wf_cmd (Exec as) = (length as < MAXARGS \<and> list_all wordy as)"
| "wf_cmd (Redir c f m fd) = (wf_cmd c \<and> wordy f \<and> (m, fd) \<in> {(O_RDONLY_sh, 0), (O_CREAT_WR, 1)})"
| "wf_cmd (Pipe l r) = (wf_cmd l \<and> wf_cmd r)"
| "wf_cmd (List l r) = (wf_cmd l \<and> wf_cmd r)"
| "wf_cmd (Back c) = wf_cmd c"

text \<open>What may follow a command: nothing or a closing parenthesis, perhaps after white space.\<close>

definition closed :: "u8 list \<Rightarrow> bool" where
  "closed s \<longleftrightarrow> skip_ws s = [] \<or> (\<exists>r. skip_ws s = 41 # r)"

lemma skip_ws_simps [simp]:
  "skip_ws [] = []" "skip_ws (c # s) = (if c \<in> {32, 9, 13, 10, 11} then skip_ws s else c # s)"
  by (simp_all add: skip_ws_def token_classes)

lemma skip_ws_twice [simp]: "skip_ws (skip_ws s) = skip_ws s"
  by (simp add: skip_ws_def dropWhile_idem)

lemma peek_skip [simp]: "peek (skip_ws s) toks = peek s toks"
  by (simp add: peek_def)

lemma closed_skip [simp]: "closed (skip_ws s) \<longleftrightarrow> closed s" "closed (41 # s)"
  by (simp_all add: closed_def)

lemma strchr_toks [simp]:
  "strchr (bytes ''('') c = None \<longleftrightarrow> c \<noteq> 40" "strchr (bytes '')'') c = None \<longleftrightarrow> c \<noteq> 41" "strchr (bytes ''|'') c = None \<longleftrightarrow> c \<noteq> 124"
  "strchr (bytes ''&'') c = None \<longleftrightarrow> c \<noteq> 38" "strchr (bytes '';'') c = None \<longleftrightarrow> c \<noteq> 59" "strchr (bytes ''<>'') c = None \<longleftrightarrow> c \<notin> {60, 62}"
  "strchr (bytes ''|)&;'') c = None \<longleftrightarrow> c \<notin> {124, 41, 38, 59}"
  by (auto simp: bytes_def byte_def)

lemma peek_simps [simp]:
  "peek [] toks = (False, [])"
  "c \<notin> {0, 32, 9, 13, 10, 11} \<Longrightarrow> peek (c # s) toks = (strchr toks c \<noteq> None, c # s)"
  by (simp_all add: peek_def Let_def cidx_def)

lemma peek_closed [simp]: "closed s \<Longrightarrow> peek s toks = (skip_ws s \<noteq> [] \<and> strchr toks 41 \<noteq> None, skip_ws s)"
  by (auto simp: closed_def peek_def Let_def cidx_def)

lemma gettoken_symbol [simp]:
  "c \<in> {124, 40, 41, 59, 38, 60} \<Longrightarrow> gettoken (c # s) = (c, [c], skip_ws s)"
  "cidx s 0 \<noteq> 62 \<Longrightarrow> gettoken (62 # s) = (62, [62], skip_ws s)"
  by (auto simp: gettoken_def Let_def token_classes)

lemma wordyE:
  assumes "wordy w"
  obtains c u where "w = c # u" "c \<noteq> 0" "c \<notin> {32, 9, 13, 10, 11}" "c \<notin> {124, 40, 41, 59, 38, 60, 62}"
  using assms by (cases w) (auto simp: wordy_def word_char_def token_classes)

lemma gettoken_word:
  assumes "wordy w" and "r = [] \<or> \<not> word_char (hd r)"
  shows "gettoken (w @ r) = (97, w, skip_ws r)"
proof -
  obtain c u where c: "w = c # u" "c \<noteq> 0" "c \<notin> {32, 9, 13, 10, 11}" "c \<notin> {124, 40, 41, 59, 38, 60, 62}"
    using assms(1) by (rule wordyE)
  have "\<forall>x \<in> set w. word_char x"
    using assms(1) by (simp add: wordy_def)
  then have "takeWhile word_char (w @ r) = w" "dropWhile word_char (w @ r) = r"
    using assms(2) by (cases r; simp add: takeWhile_append dropWhile_append takeWhile_eq_all_conv)+
  moreover have "skip_ws (w @ r) = w @ r"
    using c by simp
  ultimately show ?thesis
    using c by (simp add: gettoken_def Let_def token_classes)
qed

lemma word_end [simp]: "\<not> word_char 32" "\<not> word_char 41" "\<not> word_char 60" "\<not> word_char 62"
  by (simp_all add: word_char_def token_classes)

lemma closed_end: "closed r \<Longrightarrow> r = [] \<or> \<not> word_char (hd r)"
  by (cases r) (auto simp: closed_def word_char_def token_classes split: if_splits)

lemma parse_skip [simp]: "parseredirs rs (skip_ws s) = parseredirs rs s" "parseargs as rs (skip_ws s) = parseargs as rs s"
  by (simp_all add: parseredirs.simps [of rs] parseargs.simps [of as rs])

lemma parseredirs_none: "peek s (bytes ''<>'') = (False, s') \<Longrightarrow> parseredirs rs s = Parsed rs s'"
  by (simp add: parseredirs.simps [of rs s])

lemma parseredirs_one:
  assumes "wordy f" and "closed r" and "(m, fd) \<in> {(O_RDONLY_sh, 0), (O_CREAT_WR, 1)}"
  shows "parseredirs [] ((if fd = (0 :: int) then 60 else 62) # f @ r) = Parsed [(f, m, fd)] (skip_ws r)"
proof -
  obtain c u where c: "f = c # u" "c \<noteq> 0" "c \<notin> {32, 9, 13, 10, 11}" "c \<notin> {124, 40, 41, 59, 38, 60, 62}"
    using assms(1) by (rule wordyE)
  have "gettoken (f @ r) = (97, f, skip_ws r)"
    by (rule gettoken_word [OF assms(1) closed_end [OF assms(2)]])
  moreover have "skip_ws (f @ r) = f @ r" "cidx (f @ r) 0 \<noteq> 62"
    using c by (simp_all add: cidx_def)
  ultimately show ?thesis
    using assms(2,3) parseredirs_none [of r "skip_ws r"] by (subst parseredirs.simps) (auto simp: byte_def)
qed

lemma parseargs_end: "closed r \<Longrightarrow> parseargs as rs r = Parsed (as, rs) (skip_ws r)"
  by (subst parseargs.simps) (auto simp: closed_def gettoken_def Let_def)

text \<open>The text of a list of words, followed by the end of the command, starts with no symbol but the closing parenthesis.\<close>

lemma words_peek:
  assumes "list_all wordy as" and "closed r"
  defines "s \<equiv> concat (map (\<lambda>w. w @ [32]) as) @ r"
  shows "peek s (bytes ''('') = (False, skip_ws s)" "peek s (bytes ''<>'') = (False, skip_ws s)"
proof -
  have "closed s \<or> (\<exists>c u. s = c # u \<and> c \<noteq> 0 \<and> c \<notin> {32, 9, 13, 10, 11} \<and> c \<notin> {124, 40, 41, 59, 38, 60, 62})"
  proof (cases as)
    case (Cons w ws)
    then have "wordy w"
      using assms(1) by simp
    then show ?thesis
      by (rule wordyE) (simp add: s_def Cons)
  qed (simp add: s_def assms(2))
  then show "peek s (bytes ''('') = (False, skip_ws s)" "peek s (bytes ''<>'') = (False, skip_ws s)"
    by auto
qed

lemma parseargs_words:
  "list_all wordy as \<Longrightarrow> closed r \<Longrightarrow> length (bs @ as) < MAXARGS \<Longrightarrow>
    parseargs bs [] (concat (map (\<lambda>w. w @ [32]) as) @ r) = Parsed (bs @ as, []) (skip_ws r)"
proof (induction as arbitrary: bs)
  case Nil
  then show ?case
    by (simp add: parseargs_end)
next
  case (Cons w as)
  let ?s = "concat (map (\<lambda>w. w @ [32]) as) @ r"
  have w: "wordy w" "list_all wordy as"
    using Cons(2) by simp_all
  note p = words_peek [OF w(2) Cons(3)]
  have "peek (w @ 32 # ?s) (bytes ''|)&;'') = (False, w @ 32 # ?s)"
    using w(1) by (rule wordyE) simp
  moreover have "gettoken (w @ 32 # ?s) = (97, w, skip_ws ?s)"
    using gettoken_word [OF w(1), of "32 # ?s"] by simp
  moreover have "parseredirs [] ?s = Parsed [] (skip_ws ?s)"
    using p(2) by (rule parseredirs_none)
  moreover have "parseargs (bs @ [w]) [] ?s = Parsed (bs @ w # as, []) (skip_ws r)"
    using Cons(1) [of "bs @ [w]"] Cons(3,4) w(2) by simp
  ultimately show ?case
    using Cons(4) by (subst parseargs.simps) simp
qed

lemma exec_words:
  assumes "wf_cmd (Exec as)" and "closed r"
  shows "parseexec (Suc k) (print_cmd (Exec as) @ r) = Parsed (Exec as) (skip_ws r)"
  using assms words_peek [of as r] parseredirs_none parseargs_words [of as r "[]"] by (simp add: redirect_def)

text \<open>A command at the end of a line or a block.\<close>

lemma exec_line:
  assumes "parseexec k s = Parsed c (skip_ws r)" and "closed r"
  shows "parsepipe (Suc k) s = Parsed c (skip_ws r)" "parseline (Suc (Suc k)) s = Parsed c (skip_ws r)"
proof -
  show p: "parsepipe (Suc k) s = Parsed c (skip_ws r)"
    using assms by simp
  have "parseback c (skip_ws r) = (c, skip_ws r)"
    using assms(2) by (subst parseback.simps) simp
  then show "parseline (Suc (Suc k)) s = Parsed c (skip_ws r)"
    using p assms(2) by (subst parseline.simps) simp
qed

lemma skip_ws_print:
  assumes "wf_cmd c"
  shows "skip_ws (print_cmd c @ 41 # r) = print_cmd c @ 41 # r"
proof (cases c)
  case (Exec as)
  then show ?thesis
    using assms by (cases as) (auto elim!: wordyE)
qed simp_all

text \<open>A command in parentheses.\<close>

lemma exec_block:
  assumes "wf_cmd c" and "parseline k (print_cmd c @ 41 # r) = Parsed c (41 # r)"
  shows "parseexec (Suc (Suc k)) (40 # print_cmd c @ 41 # r) = pbind (parseredirs [] (skip_ws r)) (\<lambda>rs s. Parsed (redirect c rs) s)"
proof -
  have "skip_ws (print_cmd c @ 41 # r) = print_cmd c @ 41 # r"
    by (rule skip_ws_print [OF assms(1)])
  then show ?thesis
    using assms(2) by simp
qed

lemma exec_block_end:
  assumes "wf_cmd c" and "parseline k (print_cmd c @ 41 # r) = Parsed c (41 # r)" and "closed r"
  shows "parseexec (Suc (Suc k)) (40 # print_cmd c @ 41 # r) = Parsed c (skip_ws r)"
  using exec_block [OF assms(1,2)] parseredirs_none [of r] assms(3) by (simp add: redirect_def)

lemma exec_block_op:
  assumes "wf_cmd c" and "parseline k (print_cmd c @ 41 # d # r) = Parsed c (41 # d # r)" and "d \<in> {124, 59, 38}"
  shows "parseexec (Suc (Suc k)) (40 # print_cmd c @ 41 # d # r) = Parsed c (d # r)"
  using exec_block [OF assms(1,2)] parseredirs_none [of "d # r"] assms(3) by (auto simp: redirect_def)

lemma parseback_none: "d \<in> {41, 59} \<Longrightarrow> parseback c (d # r) = (c, d # r)"
  by (subst parseback.simps) auto

lemma parseback_closed: "closed r \<Longrightarrow> parseback c (skip_ws r) = (c, skip_ws r)" "closed r \<Longrightarrow> parseback c (38 # r) = (Back c, skip_ws r)"
proof -
  show e: "parseback c (skip_ws r) = (c, skip_ws r)" if "closed r" for c
    using that by (subst parseback.simps) simp
  show "parseback c (38 # r) = (Back c, skip_ws r)" if "closed r"
    using e [OF that] by (subst parseback.simps) simp
qed

text \<open>One step of \<open>parsepipe\<close> and \<open>parseline\<close> each, by what follows the command.\<close>

lemma pipe_steps:
  "parseexec k s = Parsed c (d # r) \<Longrightarrow> d \<in> {59, 38} \<Longrightarrow> parsepipe (Suc k) s = Parsed c (d # r)"
  "parseexec k s = Parsed l (124 # 40 # t) \<Longrightarrow> parsepipe k (40 # t) = Parsed c r \<Longrightarrow> parsepipe (Suc k) s = Parsed (Pipe l c) r"
  by auto

lemma line_steps:
  "parsepipe k s = Parsed c (skip_ws r) \<Longrightarrow> closed r \<Longrightarrow> parseline (Suc k) s = Parsed c (skip_ws r)"
  "parsepipe k s = Parsed l (59 # 40 # t) \<Longrightarrow> parseline k (40 # t) = Parsed c r \<Longrightarrow> parseline (Suc k) s = Parsed (List l c) r"
  "parsepipe k s = Parsed c (38 # r) \<Longrightarrow> closed r \<Longrightarrow> parseline (Suc k) s = Parsed (Back c) (skip_ws r)"
  using parseback_closed [of r] parseback_none [of 59] by simp_all

lemmas parser_steps = exec_line exec_block_end exec_block_op pipe_steps line_steps

declare parseline.simps [simp del] parsepipe.simps [simp del] parseblock.simps [simp del] parseexec.simps [simp del]

lemma parse_print_line:
  "wf_cmd c \<Longrightarrow> closed r \<Longrightarrow> 4 * length (print_cmd c @ r) + 4 \<le> k \<Longrightarrow> parseline k (print_cmd c @ r) = Parsed c (skip_ws r)"
proof (induction c arbitrary: r k)
  case (Exec as)
  define n where "n = k - 3"
  have "k = Suc (Suc (Suc n))"
    using Exec(3) by (simp add: n_def)
  then show ?case
    using exec_line(2) [OF exec_words [OF Exec(1,2)] Exec(2)] by simp
next
  case (Redir c f m fd)
  define n where "n = k - 4"
  have k: "k = Suc (Suc (Suc (Suc n)))"
    using Redir(4) by (simp add: n_def)
  let ?r = "(if fd = 0 then 60 else 62) # f @ r"
  have "parseline n (print_cmd c @ 41 # ?r) = Parsed c (41 # ?r)"
    using Redir(1) [of "41 # ?r" n] Redir(2,4) k by (auto simp: closed_def)
  moreover have "skip_ws ?r = ?r" "parseredirs [] ?r = Parsed [(f, m, fd)] (skip_ws r)"
    using Redir(2) parseredirs_one [OF _ Redir(3)] by simp_all
  ultimately have "parseexec (Suc (Suc n)) (40 # print_cmd c @ 41 # ?r) = Parsed (Redir c f m fd) (skip_ws r)"
    using exec_block [of c n ?r] Redir(2) by (simp add: redirect_def)
  then show ?case
    using exec_line(2) [OF _ Redir(3)] k by simp
next
  case (Pipe l c)
  define n where "n = k - 5"
  have k: "k = Suc (Suc (Suc (Suc (Suc n))))"
    using Pipe(5) by (simp add: n_def)
  let ?t = "print_cmd c @ 41 # r"
  have "parseline (Suc n) (print_cmd l @ 41 # 124 # 40 # ?t) = Parsed l (41 # 124 # 40 # ?t)" "parseline n ?t = Parsed c (41 # r)"
    using Pipe(1) [of "41 # 124 # 40 # ?t" "Suc n"] Pipe(2) [of "41 # r" n] Pipe(3,5) k by simp_all
  then have "parseexec (Suc (Suc (Suc n))) (40 # print_cmd l @ 41 # 124 # 40 # ?t) = Parsed l (124 # 40 # ?t)"
    "parsepipe (Suc (Suc (Suc n))) (40 # ?t) = Parsed c (skip_ws r)"
    using Pipe(3,4) by (simp_all add: parser_steps)
  then show ?case
    using k Pipe(4) by (simp add: parser_steps)
next
  case (List l c)
  define n where "n = k - 5"
  have k: "k = Suc (Suc (Suc (Suc (Suc n))))"
    using List(5) by (simp add: n_def)
  let ?t = "print_cmd c @ 41 # r"
  have "parseline (Suc n) (print_cmd l @ 41 # 59 # 40 # ?t) = Parsed l (41 # 59 # 40 # ?t)" "parseline n ?t = Parsed c (41 # r)"
    using List(1) [of "41 # 59 # 40 # ?t" "Suc n"] List(2) [of "41 # r" n] List(3,5) k by simp_all
  then have "parseexec (Suc (Suc (Suc n))) (40 # print_cmd l @ 41 # 59 # 40 # ?t) = Parsed l (59 # 40 # ?t)"
    "parseline (Suc (Suc (Suc (Suc n)))) (40 # ?t) = Parsed c (skip_ws r)"
    using List(3,4) by (simp_all add: parser_steps)
  then show ?case
    using k by (simp add: parser_steps)
next
  case (Back c)
  define n where "n = k - 4"
  have k: "k = Suc (Suc (Suc (Suc n)))"
    using Back(4) by (simp add: n_def)
  have "parseline n (print_cmd c @ 41 # 38 # r) = Parsed c (41 # 38 # r)"
    using Back(1) [of "41 # 38 # r" n] Back(2,4) k by simp
  then have "parseexec (Suc (Suc n)) (40 # print_cmd c @ 41 # 38 # r) = Parsed c (38 # r)"
    using Back(2) by (simp add: parser_steps)
  then show ?case
    using k Back(3) by (simp add: parser_steps)
qed

lemma print_cmd_bytes: "wf_cmd c \<Longrightarrow> 0 \<notin> set (print_cmd c) \<and> 10 \<notin> set (print_cmd c) \<and> 13 \<notin> set (print_cmd c)"
proof (induction c)
  case (Exec as)
  then show ?case
    by (auto simp: list_all_iff wordy_def word_char_def token_classes)
next
  case (Redir c f m fd)
  then show ?case
    by (auto simp: wordy_def word_char_def token_classes)
qed auto

lemma strlen_all: "0 \<notin> set s \<Longrightarrow> strlen s = length s"
  by (induction s) auto

lemma skip_ws_all: "set ws \<subseteq> {32, 9, 13, 10, 11} \<Longrightarrow> skip_ws ws = []"
  by (induction ws) auto

lemma parsecmd_print:
  assumes "wf_cmd c" and "set ws \<subseteq> {32, 9, 13, 10, 11}"
  shows "parsecmd (print_cmd c @ ws) = Parsed c []"
proof -
  let ?s = "print_cmd c @ ws"
  have "0 \<notin> set ?s"
    using print_cmd_bytes [OF assms(1)] assms(2) by auto
  then have t: "take (strlen ?s) ?s = ?s"
    by (simp add: strlen_all)
  have "closed ws"
    using skip_ws_all [OF assms(2)] by (simp add: closed_def)
  then have "parseline (parse_fuel ?s) ?s = Parsed c (skip_ws ws)"
    using parse_print_line [OF assms(1), of ws "parse_fuel ?s"] by (simp add: parse_fuel_def)
  then show ?thesis
    unfolding parsecmd_def Let_def t using skip_ws_all [OF assms(2)] by simp
qed

section \<open>Reading a line\<close>

lemma run_gets:
  "10 \<notin> set l \<Longrightarrow> 13 \<notin> set l \<Longrightarrow> length l < n \<Longrightarrow> input p = (l @ [10]) # ls \<Longrightarrow>
    run (gets_t n buf k) K p = run (k (buf @ l @ [10])) K (p\<lparr>input := ls\<rparr>)"
proof (induction l arbitrary: n buf p)
  case Nil
  then obtain m where "n = Suc m"
    by (cases n) simp_all
  then show ?case
    using Nil(4) by (simp add: sys_read_u_def res_def ret_n_def)
next
  case (Cons c l)
  then obtain m where m: "n = Suc m"
    by (cases n) simp_all
  have "sys_read_u 1 (input p) = ([1, uint c], (l @ [10]) # ls)"
    using Cons(5) by (simp add: sys_read_u_def)
  then show ?case
    using Cons(1) [of m "p\<lparr>input := (l @ [10]) # ls\<rparr>" "buf @ [c]"] Cons(2-4) m by (simp add: res_def ret_n_def)
qed

lemma wf_redirs_ok: "wf_cmd c \<Longrightarrow> redirs_ok c"
  by (induction c) auto

text \<open>A printed command is no empty line and no \<open>cd\<close> unless it is the command \<open>cd\<close>.\<close>

lemma print_cmd_start:
  assumes "wf_cmd c" and "\<And>as. c \<noteq> Exec (bytes ''cd'' # as)"
  defines "s \<equiv> print_cmd c @ [10]"
  shows "cidx s 0 \<noteq> 0" "\<not> (cidx s 0 = byte (CHR ''c'') \<and> cidx s 1 = byte (CHR ''d'') \<and> cidx s 2 = 32)"
proof -
  show "cidx s 0 \<noteq> 0"
    using print_cmd_bytes [OF assms(1)] by (cases "print_cmd c") (auto simp: s_def cidx_def)
  show "\<not> (cidx s 0 = byte (CHR ''c'') \<and> cidx s 1 = byte (CHR ''d'') \<and> cidx s 2 = 32)"
  proof (cases c)
    case (Exec as)
    show ?thesis
    proof (cases as)
      case Nil
      then show ?thesis
        using Exec by (simp add: s_def cidx_def byte_def)
    next
      case (Cons w ws)
      have w: "wordy w" "w \<noteq> [99, 100]"
        using assms(1,2) Exec Cons by (auto simp: bytes_def byte_def)
      have s: "s = w @ 32 # concat (map (\<lambda>w. w @ [32]) ws) @ [10]"
        by (simp add: s_def Exec Cons)
      consider x where "w = [x]" | x y where "w = [x, y]" | x y z v where "w = x # y # z # v"
        using w(1) by (metis list.exhaust wordyE)
      then show ?thesis
        by cases (use w in \<open>simp_all add: s cidx_def byte_def wordy_def, auto\<close>)
    qed
  qed (simp_all add: s_def cidx_def byte_def)
qed

lemma run_sh_line:
  assumes "\<And>n. k_fork K n" and "wf_cmd c" and "\<And>as. c \<noteq> Exec (bytes ''cd'' # as)" and "length (print_cmd c) < 99"
    and "std (fds p)" and "input p = (print_cmd c @ [10]) # ls"
  shows "run (sh_loop (Suc n)) K p =
    Wrote (fds p 2) (bytes ''$ '') # plan K (0 # at p) (fds p) c @ Waited # run (sh_loop n) K (p\<lparr>input := ls, at := 1 # at p\<rparr>)"
proof -
  note b = print_cmd_bytes [OF assms(2)] and s = print_cmd_start [OF assms(2,3)]
  have c: "parsecmd (print_cmd c @ [10]) = Parsed c []"
    by (rule parsecmd_print [OF assms(2)]) simp
  have r: "run (runcmd c) K q = plan K (at q) (fds q) c" if "std (fds q)" for q
    using run_plan [OF assms(1) wf_redirs_ok [OF assms(2)] that] .
  have g: "run (gets_t (100 - 1) [] k) K p = run (k (print_cmd c @ [10])) K (p\<lparr>input := ls\<rparr>)" for k
    using run_gets [of "print_cmd c" 99 p ls "[]"] b assms(4,6) by simp
  show ?thesis
    unfolding sh_loop.simps getcmd_def run.simps sys.case g if_not_P [OF s(1)] if_not_P [OF s(2)] c presult.case run_fork1 [OF assms(1)]
    using r assms(5) by (simp add: fd_obj_def)
qed

section \<open>Properties\<close>

text \<open>
  C8: The shell's parser terminates on every line: \<open>parsecmd\<close> returns a command and has read the line to its end, or reports a syntax
  error. Four units of fuel per character and four more suffice for the mutually recursive parsers.
\<close>

theorem parsecmd_total:
  "(\<exists>c. parsecmd str = Parsed c []) \<or> (\<exists>m. parsecmd str = Syntax m)"
proof -
  let ?s = "take (strlen str) str"
  have "4 * length ?s + 4 \<le> parse_fuel ?s"
    unfolding parse_fuel_def by (rule order_refl)
  then have a: "answers (parseline (parse_fuel ?s) ?s) (length ?s)"
    using parse_answers by blast
  show ?thesis
  proof (cases "parseline (parse_fuel ?s) ?s")
    case (Parsed c r)
    then show ?thesis
      by (cases "peek r []") (simp add: parsecmd_def Let_def)
  qed (use a in \<open>simp_all add: parsecmd_def Let_def\<close>)
qed

text \<open>
  The shell runs a command as its syntax tree says. When \<open>fork\<close> succeeds and the three standard descriptors are the only open ones, the
  processes made by \<open>runcmd\<close> execute exactly the programs of the command, each with its arguments; a redirection has replaced its
  descriptor; the left side of a pipe writes to it and the right side reads from it, and no other descriptor of the pipe stays open in
  either; a list waits between its parts and a pipe for both of its sides; a program or a file that does not exist is reported on
  descriptor 2.
\<close>

theorem runcmd_plan:
  assumes "\<And>n. k_fork K n" and "redirs_ok c" and "std (fds p)"
  shows "run (runcmd c) K p = plan K (at p) (fds p) c"
  using assms by (rule run_plan)

theorem runcmd_plan_witness:
  "run (runcmd (Pipe (Redir (Exec [bytes ''cat'']) (bytes ''f'') 0 0) (Exec [bytes ''wc'', bytes ''x'']))) demo_kern demo_uproc =
    [Ran (bytes ''cat'') [bytes ''cat''] (demo_fds(1 \<mapsto> PipeW [], 0 \<mapsto> Opened (bytes ''f'') 0)),
     Ran (bytes ''wc'') [bytes ''wc'', bytes ''x''] (demo_fds(0 \<mapsto> PipeR [])), Waited, Waited]"
  using runcmd_plan [of demo_kern "Pipe (Redir (Exec [bytes ''cat'']) (bytes ''f'') 0 0) (Exec [bytes ''wc'', bytes ''x''])" demo_uproc]
  by (simp add: bytes_def)

text \<open>
  C6: Parsing inverts printing: every command that can be written is read back, with all its arguments, redirections, pipes, lists and background
  parts, from the text that puts its parts in parentheses, and white space after it does not matter.
\<close>

theorem parsecmd_roundtrip:
  assumes "wf_cmd c" and "set ws \<subseteq> {32, 9, 13, 10, 11}"
  shows "parsecmd (print_cmd c @ ws) = Parsed c []"
  using assms by (rule parsecmd_print)

definition demo_cmd :: cmd where
  "demo_cmd = Pipe (Redir (Exec [bytes ''ls'', bytes ''-l'']) (bytes ''f'') O_CREAT_WR 1) (Exec [bytes ''wc''])"

lemma demo_cmd_ok:
  "wf_cmd demo_cmd" "print_cmd demo_cmd = bytes ''((ls -l )>f)|(wc )''"
  by (simp_all add: demo_cmd_def wordy_def word_char_def token_classes bytes_def byte_def)

theorem parsecmd_roundtrip_witness: "parsecmd (bytes ''((ls -l )>f)|(wc )'' @ [10]) = Parsed demo_cmd []"
  using parsecmd_roundtrip [of demo_cmd "[10]"] by (simp add: demo_cmd_ok)

text \<open>
  C5: From the keyboard to the programs: a command line typed at the prompt, at most 99 characters with its newline, makes the shell run the
  programs of the command in a child process with the shell's own descriptors, wait for the child, and ask for the next line.
\<close>

theorem sh_runs_line:
  assumes "\<And>n. k_fork K n" and "wf_cmd c" and "\<And>as. c \<noteq> Exec (bytes ''cd'' # as)" and "length (print_cmd c) < 99"
    and "std (fds p)" and "input p = (print_cmd c @ [10]) # ls"
  shows "run (sh_loop (Suc n)) K p =
    Wrote (fds p 2) (bytes ''$ '') # plan K (0 # at p) (fds p) c @ Waited # run (sh_loop n) K (p\<lparr>input := ls, at := 1 # at p\<rparr>)"
  using assms by (rule run_sh_line)

theorem sh_runs_line_witness:
  "run (sh_loop 2) demo_kern (demo_uproc\<lparr>input := [bytes ''((ls -l )>f)|(wc )'' @ [10]]\<rparr>) =
    [Wrote (Some (Inherited 2)) (bytes ''$ ''),
     Ran (bytes ''ls'') [bytes ''ls'', bytes ''-l''] (demo_fds(1 \<mapsto> Opened (bytes ''f'') 0x201)),
     Ran (bytes ''wc'') [bytes ''wc''] (demo_fds(0 \<mapsto> PipeR [0])), Waited, Waited, Waited] @
    run (sh_loop 1) demo_kern (demo_uproc\<lparr>input := [], at := [1]\<rparr>)"
proof -
  have "length (bytes ''((ls -l )>f)|(wc )'') < 99" "demo_fds 2 = Some (Inherited 2)" "\<And>as. demo_cmd \<noteq> Exec (bytes ''cd'' # as)"
    by (simp_all add: bytes_def demo_fds_def demo_cmd_def)
  moreover have "k_prog demo_kern (bytes ''ls'')" "k_prog demo_kern (bytes ''wc'')"
    by (simp_all add: bytes_def byte_def)
  ultimately show ?thesis
    using sh_runs_line [of demo_kern demo_cmd "demo_uproc\<lparr>input := [bytes ''((ls -l )>f)|(wc )'' @ [10]]\<rparr>" "[]" 1]
    by (simp add: demo_cmd_ok numeral_2_eq_2 del: sh_loop.simps) (simp add: demo_cmd_def del: sh_loop.simps)
qed

end
