(* ===== verification/Xvsh.thy ===== *)
theory Xvsh
  imports Uprog
begin

text \<open>
  The second shell (\<open>src/xvsh.c\<close>): the words of a line, separated by blanks with \<open>strtok\<close>, run as one program in the foreground or the
  background, as two programs connected by a pipe, or as a program with its output redirected. As in theory \<open>Sh\<close> a program is a tree of
  system calls; here the functions return, and their last argument is what the program does then.
\<close>

section \<open>Words\<close>

text \<open>
  \<open>strtok\<close>, with the static variable \<open>last\<close> as argument and result. A string ends at its first zero byte; the bytes behind a word that
  \<open>strtok\<close> overwrites by zero are those it cuts off.
\<close>

definition strtok :: "u8 list option \<Rightarrow> u8 list \<Rightarrow> u8 list option \<Rightarrow> u8 list option \<times> u8 list option" where
  "strtok s delim last0 =
     (case (if s = None then last0 else s) of
        None \<Rightarrow> (None, last0)
      | Some s \<Rightarrow>
        (let r = dropWhile (\<lambda>c. c \<in> set delim) s
         in if cidx r 0 = 0 then (None, None)
            else
              (let tok = takeWhile (\<lambda>c. c \<noteq> 0 \<and> c \<notin> set delim) r; r' = drop (length tok) r
               in (Some tok, if cidx r' 0 = 0 then None else Some (tl r')))))"

text \<open>The loop of \<open>process_one_cmd\<close> that calls \<open>strtok(NULL, " ")\<close>.\<close>

definition left :: "u8 list option \<Rightarrow> nat" where
  "left l = (case l of None \<Rightarrow> 0 | Some s \<Rightarrow> Suc (length s))"

lemma strtok_less:
  assumes "strtok None delim last0 = (Some w, l')"
  shows "left l' < left last0"
proof -
  obtain s where s: "last0 = Some s"
    using assms by (cases last0) (simp_all add: strtok_def)
  let ?r = "dropWhile (\<lambda>c. c \<in> set delim) s"
  have l: "length ?r \<le> length s"
    by (rule length_dropWhile_le)
  have "l' = None \<or> (\<exists>n. l' = Some (tl (drop n ?r)) \<and> cidx (drop n ?r) 0 \<noteq> 0)"
    using assms s by (auto simp: strtok_def Let_def split: if_splits)
  then show ?thesis
    using l s by (auto simp: left_def cidx_def split: if_splits)
qed

function more_words :: "u8 list option \<Rightarrow> u8 list list" where
  "more_words last0 =
     (case strtok None [32] last0 of
        (None, _) \<Rightarrow> []
      | (Some w, l) \<Rightarrow> w # more_words l)"
  by pat_completeness auto
termination
  by (relation "measure left") (simp_all add: strtok_less [OF sym])

declare more_words.simps [simp del]

section \<open>Running a command\<close>

text \<open>
  The array \<open>tok\<close>, whose entry \<open>None\<close> is a null pointer, and what the loop over the words has found: the flags \<open>bg\<close>, \<open>pip\<close>, \<open>red\<close> and the
  variables \<open>pip_pos\<close> and \<open>red_pos\<close>, which are read only by a command that sets them.
\<close>

record xvcmd =
  x_tok :: "u8 list option list"
  x_bg :: nat
  x_pip :: nat
  x_red :: nat
  pip_pos :: nat
  red_pos :: nat

definition xv_word :: "u8 list \<Rightarrow> xvcmd \<Rightarrow> xvcmd" where
  "xv_word w x =
     (let i = length (x_tok x); null = x\<lparr>x_tok := x_tok x @ [None]\<rparr>
      in if cidx w 0 = byte (CHR ''&'') then null\<lparr>x_bg := i\<rparr>
         else if cidx w 0 = byte (CHR ''|'') then null\<lparr>x_pip := 2, pip_pos := i + 1\<rparr>
         else if cidx w 0 = byte (CHR ''>'') then null\<lparr>x_red := 3, red_pos := i + 1\<rparr>
         else x\<lparr>x_tok := x_tok x @ [Some w]\<rparr>)"

definition xv_parse :: "u8 list \<Rightarrow> u8 list list \<Rightarrow> xvcmd" where
  "xv_parse w ws =
     (let x = fold xv_word ws \<lparr>x_tok = [Some w], x_bg = 0, x_pip = 0, x_red = 0, pip_pos = 0, red_pos = 0\<rparr>
      in x\<lparr>x_tok := x_tok x @ [None]\<rparr>)"

text \<open>The argument list that starts at \<open>tok\<close>, up to the first null pointer; executing or opening a null path is undefined.\<close>

definition args :: "u8 list option list \<Rightarrow> u8 list list" where
  "args tok = map the (takeWhile (\<lambda>x. x \<noteq> None) tok)"

definition exec_t :: "u8 list option \<Rightarrow> u8 list option list \<Rightarrow> (int \<Rightarrow> prog) \<Rightarrow> prog" where
  "exec_t path tok k = (case path of None \<Rightarrow> Stuck | Some f \<Rightarrow> Call (SExec f (args tok)) (\<lambda>r. k (res r)))"

definition exit_check :: "u8 list option list \<Rightarrow> bool" where
  "exit_check tok \<longleftrightarrow> strcmp (the (tok ! 0)) (bytes ''exit'') = 0"

definition pipe_parent :: "int \<Rightarrow> int \<Rightarrow> prog \<Rightarrow> prog" where
  "pipe_parent f0 f1 k =
     Call (SClose f0) (\<lambda>_. Call (SClose f1) (\<lambda>_. Call SWait (\<lambda>_. Call SWait (\<lambda>_. k))))"

definition pipe_second :: "u8 list option list \<Rightarrow> nat \<Rightarrow> int \<Rightarrow> int \<Rightarrow> prog \<Rightarrow> prog" where
  "pipe_second tok pos f0 f1 k =
     Call SFork (\<lambda>r.
     if res r < 0 then Exit
     else if res r = 0 then
       Call (SClose 0) (\<lambda>_. Call (SDup f0) (\<lambda>_. Call (SClose f1) (\<lambda>_.
       exec_t (tok ! pos) tok (\<lambda>e. if e \<noteq> 0 then Exit else pipe_parent f0 f1 k))))
     else pipe_parent f0 f1 k)"

definition process_pipe :: "u8 list option list \<Rightarrow> nat \<Rightarrow> prog \<Rightarrow> prog" where
  "process_pipe tok pos k =
     Call SPipe (\<lambda>p.
     if res p = - 1 then Exit
     else
     let f0 = ret_n 1 p; f1 = ret_n 2 p
     in Call SFork (\<lambda>r.
        if res r < 0 then Exit
        else if res r = 0 then
          Call (SClose 1) (\<lambda>_. Call (SDup f1) (\<lambda>_. Call (SClose f0) (\<lambda>_.
          exec_t (tok ! 0) tok (\<lambda>e. if e \<noteq> 0 then Exit else pipe_second tok pos f0 f1 k))))
        else pipe_second tok pos f0 f1 k))"

definition process_normal :: "u8 list option list \<Rightarrow> nat \<Rightarrow> prog \<Rightarrow> prog" where
  "process_normal tok bg k =
     Call SFork (\<lambda>r.
     let wait_t = (if bg = 0 \<and> res r > 0 then Call SWait (\<lambda>_. k) else k)
     in if res r = 0 then
          exec_t (tok ! 0) tok (\<lambda>e.
          if e < 0 then Call (SPrint 1 (bytes ''Cannot run this command: '' @ the (tok ! 0) @ [10])) (\<lambda>_. Exit)
          else wait_t)
        else wait_t)"

definition process_redirect :: "u8 list option list \<Rightarrow> nat \<Rightarrow> prog \<Rightarrow> prog" where
  "process_redirect tok pos k =
     Call SFork (\<lambda>r.
     if res r < 0 then Exit
     else if res r = 0 then
       Call (SClose 1) (\<lambda>_.
       case tok ! pos of
         None \<Rightarrow> Stuck
       | Some f \<Rightarrow> Call (SOpen f 0x201) (\<lambda>_. exec_t (tok ! 0) tok (\<lambda>_. k)))
     else Call SWait (\<lambda>_. k))"

text \<open>Waiting for all children; there are never more than \<open>NPROC\<close> processes.\<close>

fun wait_all :: "nat \<Rightarrow> prog" where
  "wait_all 0 = Cut"
| "wait_all (Suc n) = Call SWait (\<lambda>r. if res r > 0 then wait_all n else Exit)"

text \<open>The number of words for which \<open>process_one_cmd\<close> reserves room: the blanks of the line but for a first one, and one more.\<close>

definition num_tok :: "u8 list \<Rightarrow> nat" where
  "num_tok buf = 1 + length (filter (\<lambda>c. c = 32) (tl buf))"

text \<open>
  \<open>alloc\<close> tells whether \<open>malloc\<close> grants a request. An empty line makes the loop that counts the words run off the buffer, and without a word
  \<open>exit_check\<close> reads through a null pointer.
\<close>

definition process_one_cmd :: "(nat \<Rightarrow> bool) \<Rightarrow> u8 list \<Rightarrow> prog \<Rightarrow> prog" where
  "process_one_cmd alloc buf k =
     (if buf = [] then Stuck
      else if \<not> alloc ((num_tok buf + 1) * 4) then Call (SPrint 1 (bytes ''malloc failed'' @ [10])) (\<lambda>_. Exit)
      else
      case strtok (Some buf) [32] None of
        (None, _) \<Rightarrow> Stuck
      | (Some w, l) \<Rightarrow>
        (let x = xv_parse w (more_words l); tok = x_tok x
         in if exit_check tok then wait_all NPROC
            else if x_pip x = 2 then process_pipe tok (pip_pos x) k
            else if x_red x = 3 then process_redirect tok (red_pos x) k
            else process_normal tok (x_bg x) k))"

definition SH_PROMPT :: "u8 list" where
  "SH_PROMPT = bytes ''xvsh> ''"

definition MAXLINE :: nat where [simp]: "MAXLINE = 256"

text \<open>
  The loop of \<open>main\<close>, up to \<open>n\<close> rounds. The buffer starts with what the stack holds; a line without a zero byte behind it, or one that
  starts with a zero byte, makes the program leave the buffer.
\<close>

fun xvsh_loop :: "(nat \<Rightarrow> bool) \<Rightarrow> nat \<Rightarrow> u8 list \<Rightarrow> prog" where
  "xvsh_loop alloc 0 buf = Cut"
| "xvsh_loop alloc (Suc n) buf =
     Call (SRead 0 MAXLINE) (\<lambda>r.
     let buf = read_bytes r @ drop (length (read_bytes r)) buf
     in if res r = 0 then Exit
        else if res r = 1 then Call (SPrint 1 SH_PROMPT) (\<lambda>_. xvsh_loop alloc n buf)
        else if 0 \<notin> set buf \<or> cidx buf 0 = 0 then Stuck
        else process_one_cmd alloc (take (strlen buf - 1) buf)
               (Call (SPrint 1 SH_PROMPT) (\<lambda>_. xvsh_loop alloc n (replicate MAXLINE 0))))"

definition xvsh_main :: "(nat \<Rightarrow> bool) \<Rightarrow> nat \<Rightarrow> u8 list \<Rightarrow> prog" where
  "xvsh_main alloc n buf = Call (SPrint 1 SH_PROMPT) (\<lambda>_. xvsh_loop alloc n buf)"

section \<open>Lines of words\<close>

text \<open>A word for \<open>strtok\<close>, and the words of a line with single blanks between them.\<close>

definition plain :: "u8 list \<Rightarrow> bool" where
  "plain w \<longleftrightarrow> w \<noteq> [] \<and> 0 \<notin> set w \<and> 32 \<notin> set w"

fun joined :: "u8 list list \<Rightarrow> u8 list" where
  "joined [] = []"
| "joined [w] = w"
| "joined (w # ws) = w @ 32 # joined ws"

definition rest_of :: "u8 list list \<Rightarrow> u8 list option" where
  "rest_of ws = (if ws = [] then None else Some (joined ws))"

lemma strtok_plain:
  assumes "plain w"
  shows "strtok None [32] (Some (joined (w # ws))) = (Some w, rest_of ws)" "strtok (Some (joined (w # ws))) [32] l = (Some w, rest_of ws)"
proof -
  obtain c u where w: "w = c # u" "c \<noteq> 0" "c \<noteq> 32"
    using assms by (cases w) (auto simp: plain_def)
  have d: "dropWhile (\<lambda>c. c \<in> set [32]) (w @ v) = w @ v" for v
    using w by simp
  have t: "takeWhile (\<lambda>c. c \<noteq> 0 \<and> c \<notin> set [32]) (w @ v) = w" if "v = [] \<or> hd v = 32" for v
    using assms that by (cases v) (auto simp: plain_def takeWhile_append takeWhile_eq_all_conv)
  have j: "joined (w # ws) = w @ (if ws = [] then [] else 32 # joined ws)"
    by (cases ws) simp_all
  have tt: "takeWhile (\<lambda>c. c \<noteq> 0 \<and> c \<notin> set [32]) (w @ (if ws = [] then [] else 32 # joined ws)) = w"
    by (rule t) simp
  have "strtok s [32] l = (Some w, rest_of ws)" if "(if s = None then l else s) = Some (joined (w # ws))" for s l
    unfolding strtok_def that option.case j Let_def d tt using w by (simp add: rest_of_def cidx_def)
  then show "strtok None [32] (Some (joined (w # ws))) = (Some w, rest_of ws)" "strtok (Some (joined (w # ws))) [32] l = (Some w, rest_of ws)"
    by simp_all
qed

lemma more_words_joined: "list_all plain ws \<Longrightarrow> more_words (rest_of ws) = ws"
proof (induction ws)
  case Nil
  then show ?case
    by (simp add: rest_of_def more_words.simps strtok_def)
next
  case (Cons w ws)
  then show ?case
    using strtok_plain(1) [of w ws] by (subst more_words.simps) (simp add: rest_of_def)
qed

text \<open>A word that the loop of \<open>process_one_cmd\<close> does not take for a symbol.\<close>

definition ordinary :: "u8 list \<Rightarrow> bool" where
  "ordinary w \<longleftrightarrow> plain w \<and> cidx w 0 \<notin> set (bytes ''&|>'')"

lemma symbol_bytes: "byte (CHR ''&'') = 38" "byte (CHR ''|'') = 124" "byte (CHR ''>'') = 62" "set (bytes ''&|>'') = {38, 124, 62}"
  by (simp_all add: byte_def bytes_def)

lemma xv_words_ordinary: "list_all ordinary ws \<Longrightarrow> fold xv_word ws x = x\<lparr>x_tok := x_tok x @ map Some ws\<rparr>"
  by (induction ws arbitrary: x) (simp_all add: ordinary_def xv_word_def symbol_bytes)

lemma xv_parse_words:
  assumes "list_all ordinary ws" and "list_all ordinary vs"
  shows "xv_parse w ws = \<lparr>x_tok = map Some (w # ws) @ [None], x_bg = 0, x_pip = 0, x_red = 0, pip_pos = 0, red_pos = 0\<rparr>"
    "xv_parse w (ws @ [[38]]) =
      \<lparr>x_tok = map Some (w # ws) @ [None, None], x_bg = Suc (length ws), x_pip = 0, x_red = 0, pip_pos = 0, red_pos = 0\<rparr>"
    "xv_parse w (ws @ [124] # vs) =
      \<lparr>x_tok = map Some (w # ws) @ None # map Some vs @ [None], x_bg = 0, x_pip = 2, x_red = 0, pip_pos = length ws + 2, red_pos = 0\<rparr>"
    "xv_parse w (ws @ [62] # vs) =
      \<lparr>x_tok = map Some (w # ws) @ None # map Some vs @ [None], x_bg = 0, x_pip = 0, x_red = 3, pip_pos = 0, red_pos = length ws + 2\<rparr>"
  by (simp_all add: xv_parse_def xv_words_ordinary [OF assms(1)] xv_words_ordinary [OF assms(2)] xv_word_def symbol_bytes)

lemma args_words: "args (map Some ws @ None # r) = ws"
  by (induction ws) (simp_all add: args_def)

lemma strcmp_eq: "0 \<notin> set p \<Longrightarrow> 0 \<notin> set q \<Longrightarrow> strcmp p q = 0 \<longleftrightarrow> p = q"
proof (induction p arbitrary: q)
  case Nil
  then show ?case
    by (cases q) (auto simp: cidx_def unsigned_eq_0_iff)
next
  case (Cons c p)
  then show ?case
    by (cases q) (auto simp: cidx_def unsigned_eq_0_iff dest!: unsigned_word_eqI)
qed

lemma exit_check_word: "plain w \<Longrightarrow> exit_check (Some w # r) \<longleftrightarrow> w = bytes ''exit''"
  using strcmp_eq [of w "bytes ''exit''"] by (simp add: exit_check_def plain_def bytes_def byte_def)

lemma joined_Cons_ne: "plain w \<Longrightarrow> joined (w # ws) \<noteq> []"
  by (cases ws) (auto simp: plain_def)

lemma list_all_ordinary: "list_all ordinary ws \<Longrightarrow> list_all plain ws"
  by (simp add: list_all_iff ordinary_def)

lemma process_words:
  assumes "plain w" and "list_all plain ws" and "alloc ((num_tok (joined (w # ws)) + 1) * 4)" and "w \<noteq> bytes ''exit''"
    and x: "xv_parse w ws = x" "x_tok x = Some w # r"
  shows "process_one_cmd alloc (joined (w # ws)) k =
    (if x_pip x = 2 then process_pipe (x_tok x) (pip_pos x) k
     else if x_red x = 3 then process_redirect (x_tok x) (red_pos x) k
     else process_normal (x_tok x) (x_bg x) k)"
  using assms(3) joined_Cons_ne [OF assms(1)] strtok_plain(2) [OF assms(1)] more_words_joined [OF assms(2)]
    exit_check_word [OF assms(1)] assms(4) x
  by (simp add: process_one_cmd_def Let_def)

lemma run_exec_t: "run (exec_t (Some f) tok k) K p = (if k_prog K f then [Ran f (args tok) (fds p)] else run (k (- 1)) K p)"
  by (simp add: exec_t_def res_def)

section \<open>The room for the words\<close>

text \<open>Behind every word but the last one stands a blank.\<close>

lemma cidx_first: "cidx xs 0 \<noteq> 0 \<Longrightarrow> \<exists>c t. xs = c # t \<and> c \<noteq> 0"
  by (cases xs) (simp_all add: cidx_def)

lemma strtok_split:
  assumes "strtok (if b then Some s else None) [32] (Some s) = (Some w, Some s')"
  shows "\<exists>pre. s = pre @ w @ 32 # s' \<and> w \<noteq> []"
proof -
  let ?r = "dropWhile (\<lambda>c. c \<in> set [32]) s" and ?P = "\<lambda>c. c \<noteq> 0 \<and> c \<notin> set [32]"
  have "strtok (if b then Some s else None) [32] (Some s) = strtok (Some s) [32] None"
    by (simp add: strtok_def)
  then have r: "cidx ?r 0 \<noteq> 0" "w = takeWhile ?P ?r" "cidx (drop (length w) ?r) 0 \<noteq> 0" "s' = tl (drop (length w) ?r)"
    using assms by (auto simp: strtok_def Let_def split: if_splits)
  obtain c t where c: "?r = c # t" "c \<noteq> 0"
    using cidx_first [OF r(1)] by blast
  have "w \<noteq> []"
    using c hd_dropWhile [of "\<lambda>c. c \<in> set [32]" s] r(2) by simp
  have d: "drop (length w) ?r = dropWhile ?P ?r"
    unfolding r(2) by (rule dropWhile_eq_drop [symmetric])
  obtain e v where e: "dropWhile ?P ?r = e # v" "e \<noteq> 0"
    using cidx_first [OF r(3)] d by metis
  then have "e = 32" "s' = v"
    using hd_dropWhile [of ?P ?r] r(4) d by simp_all
  moreover have "s = takeWhile (\<lambda>c. c \<in> set [32]) s @ takeWhile ?P ?r @ dropWhile ?P ?r"
    by (simp only: takeWhile_dropWhile_id)
  ultimately show ?thesis
    using \<open>w \<noteq> []\<close> e(1) r(2) by metis
qed

lemma length_more_words: "length (more_words l) \<le> (case l of None \<Rightarrow> 0 | Some s \<Rightarrow> Suc (length (filter (\<lambda>c. c = 32) s)))"
proof (induction l rule: more_words.induct)
  case (1 l)
  obtain w l' where e: "strtok None [32] l = (w, l')"
    by (metis surj_pair)
  show ?case
  proof (cases w)
    case None
    then show ?thesis
      using e by (simp add: more_words.simps [of l])
  next
    case (Some w)
    then obtain s where s: "l = Some s"
      using e by (cases l) (simp_all add: strtok_def)
    have IH: "length (more_words l') \<le> (case l' of None \<Rightarrow> 0 | Some s \<Rightarrow> Suc (length (filter (\<lambda>c. c = 32) s)))"
      using 1 [OF e [symmetric] Some] by simp
    have "Suc (length (more_words l')) \<le> Suc (length (filter (\<lambda>c. c = 32) s))"
      using IH strtok_split [of False s w] e Some s by (cases l') auto
    then show ?thesis
      using e Some s by (simp add: more_words.simps [of "Some s"])
  qed
qed

lemma length_xv_parse: "length (x_tok (xv_parse w ws)) = length ws + 2"
proof -
  have "length (x_tok (fold xv_word ws x)) = length (x_tok x) + length ws" for x
    by (induction ws arbitrary: x) (simp_all add: xv_word_def Let_def)
  then show ?thesis
    by (simp add: xv_parse_def Let_def)
qed

lemma words_fit:
  assumes "strtok (Some buf) [32] None = (Some w, l)"
  shows "length (more_words l) < num_tok buf"
proof (cases l)
  case None
  then show ?thesis
    using length_more_words [of l] by (simp add: num_tok_def)
next
  case (Some s')
  have "strtok (if True then Some buf else None) [32] (Some buf) = (Some w, Some s')"
    using assms Some by (simp add: strtok_def)
  then obtain pre where "buf = pre @ w @ 32 # s'" "w \<noteq> []"
    using strtok_split by blast
  then have "length (filter (\<lambda>c. c = 32) (tl buf)) \<ge> Suc (length (filter (\<lambda>c. c = 32) s'))"
    by (cases pre; cases w) auto
  then show ?thesis
    using length_more_words [of l] Some by (simp add: num_tok_def)
qed

section \<open>Properties\<close>



text \<open>
  C10: The second program of a pipe gets the arguments of the first one: \<open>process_pipe\<close> executes \<open>tok[pip_pos]\<close> with \<open>tok\<close> as its
  argument list. The two programs are connected by the pipe as they should be.
\<close>

theorem xvsh_pipe_arguments:
  assumes "\<And>n. k_fork K n" and "\<And>n. alloc n" and "list_all ordinary (w # ws)" and "list_all ordinary (v # vs)" and "w \<noteq> bytes ''exit''"
    and "k_prog K w" and "k_prog K v" and "std (fds p)"
  shows "\<exists>t1 t2. run (process_one_cmd alloc (joined (w # ws @ bytes ''|'' # v # vs)) k) K p =
      [Ran w (w # ws) t1, Ran v (w # ws) t2, Waited, Waited] @ run k K (p\<lparr>at := 1 # 1 # 2 # at p\<rparr>) \<and>
    t1 1 = Some (PipeW (at p)) \<and> t1 0 = fds p 0 \<and> t2 0 = Some (PipeR (at p)) \<and> t2 1 = fds p 1"
proof -
  have o: "plain w" "list_all ordinary ws" "list_all ordinary (v # vs)" "list_all plain (ws @ [124] # v # vs)"
    using assms(3,4) list_all_ordinary [of ws] list_all_ordinary [of vs] by (simp_all add: ordinary_def plain_def)
  let ?tok = "map Some (w # ws) @ None # map Some (v # vs) @ [None]"
  have c: "process_one_cmd alloc (joined (w # ws @ bytes ''|'' # v # vs)) k = process_pipe ?tok (length ws + 2) k"
    using process_words [OF o(1,4) assms(2,5) xv_parse_words(3) [OF o(2,3)]] by (simp add: bytes_def symbol_bytes)
  have n: "?tok ! 0 = Some w" "?tok ! (length ws + 2) = Some v" "args ?tok = w # ws"
    using args_words [of "w # ws" "map Some (v # vs) @ [None]"] by (simp_all add: nth_append)
  let ?t = "(fds p)(3 \<mapsto> PipeR (at p), 4 \<mapsto> PipeW (at p))"
  let ?t1 = "?t(1 \<mapsto> PipeW (at p), 3 := None)" and ?t2 = "?t(0 \<mapsto> PipeR (at p), 4 := None)"
  have c1: "run (Call (SClose 1) (\<lambda>_. Call (SDup 4) (\<lambda>_. Call (SClose 3) (\<lambda>_. exec_t (Some w) ?tok f)))) K q = [Ran w (w # ws) ?t1]"
    if "fds q = ?t" for f q
    using std_pipe_end [OF assms(8), of 1 4 "PipeW (at p)" "at p"] that n(3) assms(6)
    by (simp del: fun_upd_apply add: exec_t_def)
  have "sys_close_u 4 (?t(0 \<mapsto> PipeR (at p))) = ([0], ?t2)"
    by (simp add: sys_close_u_def fd_obj_def)
  then have c2: "run (Call (SClose 0) (\<lambda>_. Call (SDup 3) (\<lambda>_. Call (SClose 4) (\<lambda>_. exec_t (Some v) ?tok f)))) K q = [Ran v (w # ws) ?t2]"
    if "fds q = ?t" for f q
    using std_pipe_end [OF assms(8), of 0 3 "PipeR (at p)" "at p"] that n(3) assms(7)
    by (simp del: fun_upd_apply add: exec_t_def)
  have pa: "run (pipe_parent 3 4 k) K q = [Waited, Waited] @ run k K (q\<lparr>fds := fds p, kids := m\<rparr>)"
    if "fds q = ?t" "kids q = Suc (Suc m)" for q m
    using std_pipe_close [OF assms(8)] that by (simp add: pipe_parent_def)
  have "run (process_pipe ?tok (length ws + 2) k) K p =
      [Ran w (w # ws) ?t1, Ran v (w # ws) ?t2, Waited, Waited] @ run k K (p\<lparr>at := 1 # 1 # 2 # at p, fds := fds p, kids := kids p\<rparr>)"
    unfolding process_pipe_def run_SPipe [OF assms(8)] pipe_second_def n(1,2) Let_def
    using c1 c2 pa by (simp del: run.simps(4) add: run_SFork [OF assms(1)] res_def ret_n_def)
  moreover have "?t1 1 = Some (PipeW (at p)) \<and> ?t1 0 = fds p 0 \<and> ?t2 0 = Some (PipeR (at p)) \<and> ?t2 1 = fds p 1"
    by simp
  ultimately show ?thesis
    unfolding c by auto
qed

theorem xvsh_pipe_arguments_witness:
  "\<exists>t1 t2. run (process_one_cmd (\<lambda>_. True) (bytes ''ls a | wc b'') Exit) demo_kern demo_uproc =
      [Ran (bytes ''ls'') [bytes ''ls'', bytes ''a''] t1, Ran (bytes ''wc'') [bytes ''ls'', bytes ''a''] t2, Waited, Waited] \<and>
    t1 1 = Some (PipeW []) \<and> t1 0 = Some (Inherited 0) \<and> t2 0 = Some (PipeR []) \<and> t2 1 = Some (Inherited 1)"
  using xvsh_pipe_arguments [of demo_kern "\<lambda>_. True" "bytes ''ls''" "[bytes ''a'']" "bytes ''wc''" "[bytes ''b'']" demo_uproc Exit]
  by (simp add: ordinary_def plain_def bytes_def byte_def)

text \<open>
  C38: A redirected program writes to the file, and the shell waits for it. When the program cannot be executed, though, the child does not
  exit: it goes on as a second shell whose output is the file, and the shell waits for that one to end.
\<close>

theorem xvsh_redirect_forks_shell:
  assumes "\<And>n. k_fork K n" and "\<And>n. alloc n" and "list_all ordinary (w # ws)" and "list_all ordinary (f # fs)" and "w \<noteq> bytes ''exit''"
    and "k_file K f 0x201" and "std (fds p)"
  shows "run (process_one_cmd alloc (joined (w # ws @ bytes ''>'' # f # fs)) k) K p =
    (if k_prog K w then [Ran w (w # ws) ((fds p)(1 \<mapsto> Opened f 0x201))]
     else run k K (p\<lparr>at := 0 # at p, kids := 0, fds := (fds p)(1 \<mapsto> Opened f 0x201)\<rparr>)) @
    Waited # run k K (p\<lparr>at := 1 # at p\<rparr>)"
proof -
  have o: "plain w" "list_all ordinary ws" "list_all ordinary (f # fs)" "list_all plain (ws @ [62] # f # fs)"
    using assms(3,4) list_all_ordinary [of ws] list_all_ordinary [of fs] by (simp_all add: ordinary_def plain_def)
  let ?tok = "map Some (w # ws) @ None # map Some (f # fs) @ [None]"
  have c: "process_one_cmd alloc (joined (w # ws @ bytes ''>'' # f # fs)) k = process_redirect ?tok (length ws + 2) k"
    using process_words [OF o(1,4) assms(2,5) xv_parse_words(4) [OF o(2,3)]] by (simp add: bytes_def symbol_bytes)
  have n: "?tok ! 0 = Some w" "?tok ! (length ws + 2) = Some f" "args ?tok = w # ws"
    using args_words [of "w # ws" "map Some (f # fs) @ [None]"] by (simp_all add: nth_append)
  have "run (Call (SClose 1) (\<lambda>_. Call (SOpen f 0x201) (\<lambda>_. exec_t (Some w) ?tok (\<lambda>_. k)))) K q =
      (if k_prog K w then [Ran w (w # ws) ((fds p)(1 \<mapsto> Opened f 0x201))] else run k K (q\<lparr>fds := (fds p)(1 \<mapsto> Opened f 0x201)\<rparr>))"
    if "fds q = fds p" for q
    using std_redirect [OF assms(7), of 1] assms(6) that n(3) by (simp add: exec_t_def)
  then show ?thesis
    unfolding c process_redirect_def n option.case
    by (simp del: run.simps(4) add: run_SFork [OF assms(1)] res_def) simp
qed

theorem xvsh_redirect_forks_shell_witness:
  "run (process_one_cmd (\<lambda>_. True) (bytes ''none > f'') (Call (SPrint 1 SH_PROMPT) (\<lambda>_. Exit))) demo_kern demo_uproc =
    [Wrote (Some (Opened (bytes ''f'') 0x201)) SH_PROMPT, Waited, Wrote (Some (Inherited 1)) SH_PROMPT]"
  using xvsh_redirect_forks_shell [of demo_kern "\<lambda>_. True" "bytes ''none''" "[]" "bytes ''f''" "[]" demo_uproc
      "Call (SPrint 1 SH_PROMPT) (\<lambda>_. Exit)"]
  by (simp add: ordinary_def plain_def bytes_def byte_def fd_obj_def)



end
