(* ===== verification/Utils.thy ===== *)
theory Utils
  imports Uprog
begin

text \<open>
  Small user programs: \<open>src/cat.c\<close>, \<open>src/wc.c\<close>, \<open>src/echo.c\<close>, \<open>src/sleep-echo.c\<close> on the environment of theory \<open>Ulib\<close>, and \<open>src/init.c\<close> as a tree of
  system calls (theory \<open>Uprog\<close>). Both \<open>cat\<close> and \<open>wc\<close> are proved not to depend on how the input is divided into reads.
\<close>

section \<open>cat\<close>

text \<open>The flag tells that the program has called \<open>exit\<close>.\<close>

function cat :: "int \<Rightarrow> uenv \<Rightarrow> bool \<times> uenv" where
  "cat fd e =
     (let r = u_read fd 512 e
      in if fst (fst r) > 0 then cat fd (u_write 1 (snd (fst r)) (snd r))
         else if fst (fst r) < 0 then (True, the (printf 1 (bytes ''cat: read error\<newline>'') [] (snd r)))
         else (False, snd r))"
  by pat_completeness auto
termination
proof (relation "measure (\<lambda>(fd, e). pending_input fd e)")
  fix fd e r
  assume "r = u_read fd 512 e" "fst (fst r) > 0"
  then have "pending_input fd (snd r) < pending_input fd e"
    using u_read_less [of fd 512 e "fst (fst r)" "snd (fst r)" "snd r"] by simp
  then show "((fd, u_write 1 (snd (fst r)) (snd r)), (fd, e)) \<in> measure (\<lambda>(fd, e). pending_input fd e)"
    by (simp add: pending_input_def u_write_def)
qed simp

declare cat.simps [simp del]

fun cat_files :: "u8 list list \<Rightarrow> uenv \<Rightarrow> uenv option" where
  "cat_files [] e = Some e"
| "cat_files (f # fs) e =
     (case u_open f e of
        (fd, e1) \<Rightarrow>
        if fd < 0 then printf 1 (bytes ''cat: cannot open %s\<newline>'') [Str (Some f)] e1
        else (case cat fd e1 of (ex, e2) \<Rightarrow> if ex then Some e2 else cat_files fs (u_close fd e2)))"

definition cat_main :: "u8 list list \<Rightarrow> uenv \<Rightarrow> uenv option" where
  "cat_main argv e = (if length argv \<le> 1 then Some (snd (cat 0 e)) else cat_files (drop 1 argv) e)"

section \<open>wc\<close>

record wc_count =
  wc_l :: u32
  wc_w :: u32
  wc_c :: u32
  inword :: bool

definition wc_char :: "u8 \<Rightarrow> wc_count \<Rightarrow> wc_count" where
  "wc_char x n =
     (let n1 = n\<lparr>wc_c := wc_c n + 1\<rparr>;
          n2 = (if x = 10 then n1\<lparr>wc_l := wc_l n1 + 1\<rparr> else n1)
      in if strchr [32, 13, 9, 10, 11] x \<noteq> None then n2\<lparr>inword := False\<rparr>
         else if \<not> inword n2 then n2\<lparr>wc_w := wc_w n2 + 1, inword := True\<rparr>
         else n2)"

definition wc_zero :: wc_count where
  "wc_zero = \<lparr>wc_l = 0, wc_w = 0, wc_c = 0, inword = False\<rparr>"

function wc_loop :: "int \<Rightarrow> wc_count \<Rightarrow> uenv \<Rightarrow> (int \<times> wc_count) \<times> uenv" where
  "wc_loop fd n e =
     (let r = u_read fd 512 e
      in if fst (fst r) > 0 then wc_loop fd (fold wc_char (snd (fst r)) n) (snd r)
         else ((fst (fst r), n), snd r))"
  by pat_completeness auto
termination
proof (relation "measure (\<lambda>(fd, n, e). pending_input fd e)")
  fix fd n e r
  assume "r = u_read fd 512 e" "fst (fst r) > 0"
  then show "((fd, fold wc_char (snd (fst r)) n, snd r), (fd, n, e)) \<in> measure (\<lambda>(fd, n, e). pending_input fd e)"
    using u_read_less [of fd 512 e "fst (fst r)" "snd (fst r)" "snd r"] by simp
qed simp

declare wc_loop.simps [simp del]

definition wc :: "int \<Rightarrow> u8 list \<Rightarrow> uenv \<Rightarrow> bool \<times> uenv option" where
  "wc fd name e =
     (case wc_loop fd wc_zero e of
        ((n, k), e1) \<Rightarrow>
        if n < 0 then (True, printf 1 (bytes ''wc: read error\<newline>'') [] e1)
        else (False, printf 1 (bytes ''%d %d %d %s\<newline>'') [Word (wc_l k), Word (wc_w k), Word (wc_c k), Str (Some name)] e1))"

fun wc_files :: "u8 list list \<Rightarrow> uenv \<Rightarrow> uenv option" where
  "wc_files [] e = Some e"
| "wc_files (f # fs) e =
     (case u_open f e of
        (fd, e1) \<Rightarrow>
        if fd < 0 then printf 1 (bytes ''wc: cannot open %s\<newline>'') [Str (Some f)] e1
        else (case wc fd f e1 of
                (ex, None) \<Rightarrow> None
              | (ex, Some e2) \<Rightarrow> if ex then Some e2 else wc_files fs (u_close fd e2)))"

definition wc_main :: "u8 list list \<Rightarrow> uenv \<Rightarrow> uenv option" where
  "wc_main argv e = (if length argv \<le> 1 then snd (wc 0 [] e) else wc_files (drop 1 argv) e)"

section \<open>echo and sleep-echo\<close>

fun echo_args :: "u8 list list \<Rightarrow> uenv \<Rightarrow> uenv option" where
  "echo_args [] e = Some e"
| "echo_args (a # as) e =
     Option.bind (printf 1 (bytes ''%s%s'') [Str (Some a), Str (Some (if as \<noteq> [] then [32] else [10]))] e) (echo_args as)"

definition echo_main :: "u8 list list \<Rightarrow> uenv \<Rightarrow> uenv option" where
  "echo_main argv e = echo_args (drop 1 argv) e"

text \<open>Here the arguments are used as formats.\<close>

fun sleep_echo_args :: "u8 list list \<Rightarrow> uenv \<Rightarrow> uenv option" where
  "sleep_echo_args [] e = printf 1 [10] [] e"
| "sleep_echo_args (a # as) e = Option.bind (printf 1 a [] e) (\<lambda>e1. Option.bind (printf 1 [32] [] e1) (sleep_echo_args as))"

definition sleep_echo_main :: "u8 list list \<Rightarrow> uenv \<Rightarrow> uenv option" where
  "sleep_echo_main argv e = sleep_echo_args (drop 1 argv) e"

section \<open>init\<close>

text \<open>The inner loop waits for the shell, and reports other children; both loops are bounded.\<close>

fun init_wait :: "nat \<Rightarrow> int \<Rightarrow> prog \<Rightarrow> prog" where
  "init_wait 0 pid k = Cut"
| "init_wait (Suc n) pid k =
     Call SWait (\<lambda>r.
     if res r \<ge> 0 \<and> res r \<noteq> pid then Call (SPrint 1 (bytes ''zombie!'' @ [10])) (\<lambda>_. init_wait n pid k) else k)"

fun init_loop :: "nat \<Rightarrow> prog" where
  "init_loop 0 = Cut"
| "init_loop (Suc n) =
     Call (SPrint 1 (bytes ''init: starting sh'' @ [10])) (\<lambda>_.
     Call SFork (\<lambda>r.
     if res r < 0 then Call (SPrint 1 (bytes ''init: fork failed'' @ [10])) (\<lambda>_. Exit)
     else if res r = 0 then
       Call (SExec (bytes ''sh'') [bytes ''sh'']) (\<lambda>_.
       Call (SPrint 1 (bytes ''init: exec sh failed'' @ [10])) (\<lambda>_. Exit))
     else init_wait n (res r) (init_loop n)))"

definition init_main :: "nat \<Rightarrow> prog" where
  "init_main n =
     (let start = Call (SDup 0) (\<lambda>_. Call (SDup 0) (\<lambda>_. init_loop n))
      in Call (SOpen (bytes ''console'') 2) (\<lambda>r.
         if res r < 0 then Call (SMknod (bytes ''console'') 1 1) (\<lambda>_. Call (SOpen (bytes ''console'') 2) (\<lambda>_. start))
         else start))"

section \<open>Reading to the end\<close>

text \<open>A read from a descriptor that delivers nonempty pieces returns a nonempty part of what is left.\<close>

lemma u_read_pieces:
  assumes "0 \<le> fd" and "u_in e (nat fd) = map Some ps" and "[] \<notin> set ps" and "ps \<noteq> []" and "0 < n"
  shows "\<exists>p qs. u_read fd n e = ((int (length p), p), e\<lparr>u_in := (u_in e)(nat fd := map Some qs)\<rparr>) \<and> p \<noteq> [] \<and>
    [] \<notin> set qs \<and> concat ps = p @ concat qs"
proof -
  obtain q rs where ps: "ps = q # rs" "q \<noteq> []" "[] \<notin> set rs"
    using assms(3,4) by (cases ps) auto
  have "u_read fd n e = ((int (length (take n q)), take n q),
      e\<lparr>u_in := (u_in e)(nat fd := map Some (if length q \<le> n then rs else drop n q # rs))\<rparr>)"
    using assms(1,2) ps by (simp add: u_read_def)
  moreover have "take n q \<noteq> []" "[] \<notin> set (if length q \<le> n then rs else drop n q # rs)"
    "concat ps = take n q @ concat (if length q \<le> n then rs else drop n q # rs)"
    using assms(5) ps by auto
  ultimately show ?thesis
    by blast
qed

text \<open>The environment when the descriptor has delivered everything.\<close>

definition drained :: "int \<Rightarrow> uenv \<Rightarrow> uenv" where
  "drained fd e = e\<lparr>u_in := (u_in e)(nat fd := [])\<rparr>"

lemma drained_simps [simp]:
  "u_in e (nat fd) = [] \<Longrightarrow> drained fd e = e" "drained fd (e\<lparr>u_in := (u_in e)(nat fd := x)\<rparr>) = drained fd e"
  "drained fd (u_write o' bs e) = u_write o' bs (drained fd e)" "u_out (drained fd e) = u_out e"
  by (cases e; simp add: drained_def u_write_def fun_upd_idem)+

lemma u_read_end: "0 \<le> fd \<Longrightarrow> u_in e (nat fd) = [] \<Longrightarrow> u_read fd n e = ((0, []), e)"
  by (simp add: u_read_def)

lemma wc_loop_run:
  "0 \<le> fd \<Longrightarrow> u_in e (nat fd) = map Some ps \<Longrightarrow> [] \<notin> set ps \<Longrightarrow>
    wc_loop fd n e = ((0, fold wc_char (concat ps) n), drained fd e)"
proof (induction fd n e arbitrary: ps rule: wc_loop.induct)
  case (1 fd n e)
  show ?case
  proof (cases "ps = []")
    case True
    then show ?thesis
      using 1(2,3) u_read_end [of fd e 512] by (simp add: wc_loop.simps [of fd n e])
  next
    case False
    obtain p qs where r: "u_read fd 512 e = ((int (length p), p), e\<lparr>u_in := (u_in e)(nat fd := map Some qs)\<rparr>)" "p \<noteq> []" "[] \<notin> set qs"
      "concat ps = p @ concat qs"
      using u_read_pieces [OF 1(2-4) False, of 512] by auto
    have "wc_loop fd n e = wc_loop fd (fold wc_char p n) (e\<lparr>u_in := (u_in e)(nat fd := map Some qs)\<rparr>)"
      using r(1,2) by (simp add: wc_loop.simps [of fd n e])
    then show ?thesis
      using 1(1) [OF refl, of qs] 1(2) r by simp
  qed
qed

lemma cat_run:
  "0 \<le> fd \<Longrightarrow> u_in e (nat fd) = map Some ps \<Longrightarrow> [] \<notin> set ps \<Longrightarrow>
    \<exists>ws. cat fd e = (False, fold (u_write 1) ws (drained fd e)) \<and> concat ws = concat ps"
proof (induction fd e arbitrary: ps rule: cat.induct)
  case (1 fd e)
  show ?case
  proof (cases "ps = []")
    case True
    then show ?thesis
      using 1(2,3) u_read_end [of fd e 512] by (intro exI [of _ "[]"]) (simp add: cat.simps [of fd e])
  next
    case False
    obtain p qs where r: "u_read fd 512 e = ((int (length p), p), e\<lparr>u_in := (u_in e)(nat fd := map Some qs)\<rparr>)" "p \<noteq> []" "[] \<notin> set qs"
      "concat ps = p @ concat qs"
      using u_read_pieces [OF 1(2-4) False, of 512] by auto
    let ?e = "u_write 1 p (e\<lparr>u_in := (u_in e)(nat fd := map Some qs)\<rparr>)"
    have "cat fd e = cat fd ?e"
      using r(1,2) by (simp add: cat.simps [of fd e])
    moreover have "u_in ?e (nat fd) = map Some qs"
      by (simp add: u_write_def)
    then obtain ws where "cat fd ?e = (False, fold (u_write 1) ws (drained fd ?e))" "concat ws = concat qs"
      using 1(1) [OF refl, of qs] 1(2) r by auto
    ultimately show ?thesis
      using r(4) by (intro exI [of _ "p # ws"]) simp
  qed
qed

section \<open>Counting\<close>

text \<open>A word starts at a character that is no white space and stands first or behind white space.\<close>

definition spacing :: "u8 \<Rightarrow> bool" where
  "spacing x \<longleftrightarrow> x \<in> {32, 13, 9, 10, 11}"

definition word_starts :: "u8 list \<Rightarrow> nat" where
  "word_starts s = length (filter (\<lambda>i. \<not> spacing (s ! i) \<and> (i = 0 \<or> spacing (s ! (i - 1)))) [0..<length s])"

lemma word_starts_snoc:
  "word_starts (s @ [x]) = word_starts s + (if \<not> spacing x \<and> (s = [] \<or> spacing (last s)) then 1 else 0)"
proof -
  have "filter (\<lambda>i. \<not> spacing ((s @ [x]) ! i) \<and> (i = 0 \<or> spacing ((s @ [x]) ! (i - 1)))) [0..<length s] =
      filter (\<lambda>i. \<not> spacing (s ! i) \<and> (i = 0 \<or> spacing (s ! (i - 1)))) [0..<length s]"
    by (rule filter_cong) (auto simp: nth_append)
  moreover have "s \<noteq> [] \<Longrightarrow> (s @ [x]) ! (length s - 1) = last s"
    by (simp add: nth_append last_conv_nth)
  ultimately show ?thesis
    by (auto simp: word_starts_def)
qed

lemma fold_wc_char:
  "fold wc_char s wc_zero =
    \<lparr>wc_l = of_nat (length (filter (\<lambda>x. x = 10) s)), wc_w = of_nat (word_starts s), wc_c = of_nat (length s),
     inword = (s \<noteq> [] \<and> \<not> spacing (last s))\<rparr>"
proof (induction s rule: rev_induct)
  case Nil
  then show ?case
    by (simp add: wc_zero_def word_starts_def)
next
  case (snoc x s)
  have "strchr [32, 13, 9, 10, 11] x \<noteq> None \<longleftrightarrow> spacing x"
    by (auto simp: spacing_def)
  then show ?case
    using snoc by (auto simp: wc_char_def Let_def word_starts_snoc spacing_def)
qed

section \<open>Properties\<close>

text \<open>
  C40: \<open>wc\<close> prints the numbers of lines, words and bytes of its input, however the input is divided into the pieces that the reads return.
\<close>

theorem wc_counts:
  assumes "0 \<le> fd" and "u_in e (nat fd) = map Some ps" and "[] \<notin> set ps"
  shows "wc fd name e =
    (False, printf 1 (bytes ''%d %d %d %s\<newline>'')
      [Word (of_nat (length (filter (\<lambda>x. x = 10) (concat ps)))), Word (of_nat (word_starts (concat ps))), Word (of_nat (length (concat ps))),
       Str (Some name)] (drained fd e))"
  by (simp add: wc_def wc_loop_run [OF assms] fold_wc_char)

theorem wc_counts_witness:
  "wc 0 (bytes ''f'') (demo_uenv [bytes ''ab c'', [10, 100, 10]]) =
    (False, printf 1 (bytes ''%d %d %d %s\<newline>'') [Word 2, Word 3, Word 7, Str (Some (bytes ''f''))] (demo_uenv []))"
proof -
  have "word_starts [97, 98, 32, 99, 10, 100, 10] = 3"
    by (simp add: word_starts_def spacing_def upt_rec)
  moreover have "drained 0 (demo_uenv [bytes ''ab c'', [10, 100, 10]]) = demo_uenv []"
    by (simp add: demo_uenv_def drained_def)
  ultimately show ?thesis
    using wc_counts [of 0 "demo_uenv [bytes ''ab c'', [10, 100, 10]]" "[bytes ''ab c'', [10, 100, 10]]" "bytes ''f''"]
    by (simp add: demo_uenv_def bytes_def byte_def)
qed

text \<open>\<open>cat\<close> writes to descriptor 1 exactly the bytes it reads, in their order.\<close>

theorem cat_copies:
  assumes "0 \<le> fd" and "u_in e (nat fd) = map Some ps" and "[] \<notin> set ps"
  shows "\<exists>ws. cat fd e = (False, fold (u_write 1) ws (drained fd e)) \<and> concat ws = concat ps"
  using assms by (rule cat_run)

theorem cat_copies_witness:
  "\<exists>ws. u_out (snd (cat 0 (demo_uenv [bytes ''ab'', bytes ''c'']))) = map (Pair 1) ws \<and> concat ws = bytes ''abc''"
proof -
  obtain ws where "cat 0 (demo_uenv [bytes ''ab'', bytes ''c'']) = (False, fold (u_write 1) ws (drained 0 (demo_uenv [bytes ''ab'', bytes ''c''])))"
    "concat ws = bytes ''abc''"
    using cat_copies [of 0 "demo_uenv [bytes ''ab'', bytes ''c'']" "[bytes ''ab'', bytes ''c'']"]
    by (auto simp: demo_uenv_def bytes_def)
  then show ?thesis
    by (intro exI [of _ ws]) (simp add: fold_u_write demo_uenv_def)
qed

end
