(* ===== verification/Spec2Isabelle.thy ===== *)
theory Spec2Isabelle
  imports Smp Boot Ide Grep Umalloc Sh Xvsh Utils
begin

text \<open>
  Verification of the xv6 teaching kernel in \<open>src/\<close> and of its user programs.

  \<^bold>\<open>The program.\<close> xv6 is a small Unix for several x86 processors. The boot loader reads the kernel from the disk; the kernel starts the
  processors, its memory allocator, the page tables, the devices and the first process. Processes enter the kernel through traps; system
  calls work on processes, pipes and files. The file system is layered: disk driver, buffer cache, write-ahead log, inodes,
  directories and paths, open files. User programs run on top of the system calls with a small library of their own; two shells,
  \<open>sh\<close> and \<open>xvsh\<close>, start them.

  \<^bold>\<open>How it is modelled.\<close> A kernel function is an operation \<open>('s, 'a) op\<close> (theory \<open>Prelude\<close>): run from a state it returns a value and a new
  state, or panics, gives up the processor in \<open>swtch\<close>, spins on a lock or a device that is not ready, or does something
  undefined (\<open>fault\<close>). The state is one record that grows with the layers, so that an operation of a lower layer works on
  the states of all layers above it:
  \<open>machine\<close> (locks, the processor, memory; theory \<open>Spinlock\<close>), \<open>omach\<close> (screen and serial output; \<open>Printk\<close>), \<open>kmach\<close> (free list; \<open>Kalloc\<close>),
  \<open>vmach\<close> (control registers; \<open>Vm\<close>), \<open>pmach\<close> (process table; \<open>ProcTable\<close>), \<open>bmach\<close> (buffers and disk; \<open>Bio\<close>), \<open>lmach\<close> (log; \<open>Log\<close>),
  \<open>imach\<close> (inode cache; \<open>Inode\<close>), \<open>hmach\<close> (interrupt hardware; \<open>Irq\<close>), \<open>cmach\<close> (console input; \<open>Console\<close>), \<open>fmach\<close> (open files and pipes;
  \<open>File\<close>), \<open>umach\<close> (\<open>Process\<close>), \<open>tmach\<close> (\<open>Trap\<close>), \<open>gmach\<close> (\<open>Boot\<close>). \<open>dmach\<close> (\<open>Ide\<close>) extends \<open>hmach\<close> by the disk controller.
  Machine integers are words of their width; memory is a function from 32-bit addresses to bytes; structures that the code keeps in
  tables are lists of records and pointers to them are indices. Data on disk and in user memory have their byte layout. A function that
  sleeps is divided where it gives up the processor.

  \<^bold>\<open>Kernel theories.\<close>
  \<^item> \<open>Prelude\<close>, \<open>Params\<close>, \<open>Memory\<close>: operations and their rules (\<open>keeps\<close>, the collection \<open>run_simps\<close>), the constants of \<open>param.h\<close>,
    \<open>memlayout.h\<close>, \<open>mmu.h\<close>, \<open>fs.h\<close>, and \<open>string.c\<close>: \<open>memset\<close> and \<open>memmove\<close> store what they should, on every alignment and overlap.
  \<^item> \<open>Spinlock\<close> (\<open>spinlock.c\<close>): \<open>acquire\<close>, \<open>release\<close>, \<open>pushcli\<close>, \<open>popcli\<close> on one processor. \<open>Smp\<close> interleaves their atomic steps on any number
    of processors as a step relation: mutual exclusion, and exactness of the run-time checks, for all reachable states.
  \<^item> \<open>Printk\<close> (\<open>console.c\<close>, \<open>uart.c\<close>): \<open>cprintf\<close> prints the formatted text and keeps the cursor on the screen. The locale \<open>above_output\<close> carries
    this to the layers above.
  \<^item> \<open>Kalloc\<close> (\<open>kalloc.c\<close>): the free list threaded through the free pages; the locale \<open>page_pool\<close> states what its clients rely on. Pages handed
    out are distinct, \<open>kfree\<close> and \<open>kalloc\<close> are inverse, \<open>freerange\<close> fills the list.
  \<^item> \<open>Vm\<close> (\<open>vm.c\<close>): page tables in memory. \<open>mappages\<close> makes the hardware's translation map exactly the requested range. The locale
    \<open>upper_layer\<close> frames its effect.
  \<^item> \<open>ProcTable\<close>, \<open>Process\<close> (\<open>proc.c\<close>): slots of the process table, \<open>sleep\<close> and \<open>wakeup\<close>, the scheduler, \<open>fork\<close>, \<open>exit\<close>, \<open>wait\<close>. No wakeup is lost
    between releasing the lock and sleeping; the table stays well-formed under every operation of the scheduler.
  \<^item> \<open>BlockStore\<close>, \<open>Bio\<close> (\<open>bio.c\<close>, \<open>memide.c\<close>): the doubly linked buffer list represents a least-recently-used list; the cache shows the current
    contents of every block. The locale \<open>block_store\<close> is what the log needs of it, interpreted by the cache.
  \<^item> \<open>Log\<close> (\<open>log.c\<close>): transactions. A crash after any prefix of the disk writes of a commit, followed by recovery at the
    next boot, shows all blocks of the transaction or none.
  \<^item> \<open>Ide\<close> (\<open>ide.c\<close>): the interrupt-driven disk driver, its request queue and the programming of the controller; a request through it refines the
    synchronous \<open>iderw\<close> of \<open>memide.c\<close>.
  \<^item> \<open>Inode\<close>, \<open>Fs\<close> (\<open>fs.c\<close>): bitmap, inodes, block map; file contents, directories, path lookup. Definitions on which the file layer builds.
  \<^item> \<open>Ring\<close>, \<open>Console\<close>, \<open>File\<close> (\<open>console.c\<close>, \<open>pipe.c\<close>, \<open>file.c\<close>): the locale \<open>byte_queue\<close> is a bounded queue, implemented by a ring buffer
    with free-running counters, also when they wrap. Line editing on the console, first-in first-out pipes, waking of
    blocked writers, reference counts of open files.
  \<^item> \<open>Kbd\<close>, \<open>Irq\<close> (\<open>kbd.c\<close>, \<open>picirq.c\<close>, \<open>ioapic.c\<close>, \<open>lapic.c\<close>, \<open>timer.c\<close>, \<open>mp.c\<close>): scan codes, interrupt controllers, the clock, the processor tables.
  \<^item> \<open>Syscall\<close>, \<open>Sysfile\<close>, \<open>Trap\<close> (\<open>syscall.c\<close>, \<open>sysproc.c\<close>, \<open>sysfile.c\<close>, \<open>exec.c\<close>, \<open>trap.c\<close>): fetching arguments from user memory, within its bounds
    except for a negative size; every system call; \<open>exec\<close>; the dispatch of traps.
  \<^item> \<open>Boot\<close> (\<open>bootmain.c\<close>, \<open>main.c\<close>): the boot loader on bare memory, and the start of the kernel.

  \<^bold>\<open>User theories.\<close>
  \<^item> \<open>Ulib\<close> (\<open>ulib.c\<close>, \<open>printf.c\<close>): the library, on a record of what descriptors deliver and what has been written; \<open>atoi\<close> reads back what \<open>printf\<close>
    prints.
  \<^item> \<open>Umalloc\<close> (\<open>umalloc.c\<close>): the allocator on the process's memory.
  \<^item> \<open>Grep\<close> (\<open>grep.c\<close>): the matcher decides the language of the pattern; what \<open>grep\<close> prints, and the line it loses.
  \<^item> \<open>Uprog\<close>: programs that fork, as trees of system calls, and the events of all their processes.
  \<^item> \<open>Sh\<close> (\<open>sh.c\<close>): the parser returns on every line and inverts printing; a typed line runs the programs its syntax tree says.
  \<^item> \<open>Xvsh\<close> (\<open>xvsh.c\<close>): the words of a line fit their array; plain commands run as they should; the arguments of the second program of a pipe and the
    child whose \<open>exec\<close> fails do not.
  \<^item> \<open>Utils\<close> (\<open>cat.c\<close>, \<open>wc.c\<close>, \<open>echo.c\<close>, \<open>sleep-echo.c\<close>, \<open>init.c\<close>): \<open>wc\<close> and \<open>cat\<close> do not depend on how reads divide their input.

  \<^bold>\<open>Bounds and fuel.\<close> A walk along the buffer list takes at most \<open>WALK\<close> steps, the number of buffers and the head. \<open>mappages\<close> gets one unit per page
  of its range and \<open>freerange\<close> one per page of the address space, which their theorems show to be enough. \<open>parse_fuel\<close>, four units per character
  and four more, is proved to be enough for every line. The loops of \<open>cmostime\<close>, of \<open>mpinit\<close> and the endless loops of the shells and of \<open>init\<close> take the bound as an argument; the
  theorem about \<open>mpinit\<close> is that no bound is enough. Walks along the free list of the user allocator are partial functions with an
  option as result, and the theorems show that they return.

  \<^bold>\<open>Not modelled.\<close> The assembly files (\<open>entry.S\<close>, \<open>entryother.S\<close>, \<open>bootasm.S\<close>, \<open>initcode.S\<close>, \<open>swtch.S\<close>, \<open>trapasm.S\<close>, \<open>vectors.S\<close>, \<open>usys.S\<close>): they change
  the mode of the processor and switch stacks, below the level of the C code; \<open>swtch\<close> is an outcome. \<open>mkfs.c\<close> runs on the host. \<open>ls.c\<close>,
  \<open>ln.c\<close>, \<open>kill.c\<close>, \<open>mkdir.c\<close>, \<open>rm.c\<close>, \<open>zombie.c\<close>, \<open>uprog_shut.c\<close> hand their arguments to system calls that are modelled in the kernel. \<open>usertests.c\<close>,
  \<open>forktest.c\<close> and \<open>stressfs.c\<close> are tests. Interleaving of processors is modelled for the locks only: other kernel code is modelled as it runs on one
  processor between points where it gives up the processor. The saved call stacks of locks (\<open>pcs\<close>) are left out of the lock's record. Disk
  blocks are written atomically, and devices answer as their state or the arguments of the definitions say.
\<close>

end
